(* ===== verification/Stomp_Prelude.thy ===== *)
theory Stomp_Prelude
  imports Main "HOL-Library.Word" "HOL-Library.AList" "HOL-Library.Sublist"
    "HOL-Library.Code_Target_Nat"
begin

text \<open>
  What every theory of the development shares: the representation of bytes and of Rust
  strings, the results of fallible operations, machine-size arithmetic, the searches of
  \<^verbatim>\<open>std::iter\<close>, and hash maps as association lists.

  A byte (\<^verbatim>\<open>u8\<close>) is an 8-bit \<^typ>\<open>char\<close>, a \<^verbatim>\<open>Vec<u8>\<close>, a \<^verbatim>\<open>&[u8]\<close> and the contents of a
  \<^verbatim>\<open>BytesMut\<close> are lists of them. A Rust \<^verbatim>\<open>String\<close> is its UTF-8 bytes (\<^verbatim>\<open>String::len\<close>,
  slicing and \<^verbatim>\<open>as_bytes\<close> are all in bytes), with validity a predicate of
  \<^verbatim>\<open>Stomp_Strings\<close>. A \<^verbatim>\<open>HashMap\<close> is an association list with distinct keys whose order
  stands for the map's unspecified iteration order.
\<close>

section \<open>Collections of rewrite rules\<close>

named_theorems parse_simps "equations of the parser's scanning steps"
named_theorems conn_simps "definitions that only rearrange connection state"

section \<open>Bytes\<close>

type_synonym bytes = string

abbreviation byte :: "char \<Rightarrow> nat" where
  "byte c \<equiv> of_char c"

abbreviation NUL :: char where "NUL \<equiv> CHR 0x00"
abbreviation LF :: char where "LF \<equiv> CHR 0x0A"
abbreviation CR :: char where "CR \<equiv> CHR 0x0D"
abbreviation COLON :: char where "COLON \<equiv> CHR 0x3A"
abbreviation BACKSLASH :: char where "BACKSLASH \<equiv> CHR 0x5C"

lemma byte_less_256: "byte c < 256"
  by (cases c) (auto simp: of_bool_def)

lemma byte_eq_iff: "byte c = byte d \<longleftrightarrow> c = d"
  by (rule of_char_eq_iff)

section \<open>Fallible results\<close>

text \<open>\<^verbatim>\<open>Result<T, E>\<close> with the error on the left.\<close>

type_synonym ('e, 'a) result = "'e + 'a"

lemma map_sum_Inr_iff [simp]: "map_sum f g x = Inr y \<longleftrightarrow> (\<exists>z. x = Inr z \<and> y = g z)"
  by (cases x) auto

lemma map_sum_Inl_iff [simp]: "map_sum f g x = Inl e \<longleftrightarrow> (\<exists>z. x = Inl z \<and> e = f z)"
  by (cases x) auto

section \<open>Machine-size arithmetic\<close>

text \<open>\<^verbatim>\<open>usize\<close> and \<^verbatim>\<open>u64\<close> on the 64-bit targets the crate builds for.\<close>

definition usize_limit :: nat where
  "usize_limit = 2 ^ 64"

definition checked_add :: "nat \<Rightarrow> nat \<Rightarrow> nat option" where
  "checked_add a b = (if a + b < usize_limit then Some (a + b) else None)"

lemma checked_add_Some [simp]:
  "checked_add a b = Some c \<longleftrightarrow> c = a + b \<and> a + b < usize_limit"
  by (auto simp: checked_add_def)

section \<open>Searching a slice\<close>

text \<open>\<^verbatim>\<open>Iterator::position\<close>: the index of the first element that satisfies a predicate.\<close>

primrec position :: "('a \<Rightarrow> bool) \<Rightarrow> 'a list \<Rightarrow> nat option" where
  "position P [] = None"
| "position P (x # xs) = (if P x then Some 0 else map_option Suc (position P xs))"

lemma position_None: "position P xs = None \<longleftrightarrow> (\<forall>x\<in>set xs. \<not> P x)"
  by (induction xs) auto

lemma position_SomeD:
  "position P xs = Some i \<Longrightarrow> i < length xs \<and> P (xs ! i) \<and> (\<forall>x\<in>set (take i xs). \<not> P x)"
  by (induction xs arbitrary: i) (auto split: if_splits)

lemma position_less: "position P xs = Some i \<Longrightarrow> i < length xs"
  by (blast dest: position_SomeD)

lemma position_append:
  "position P (xs @ ys) =
     (case position P xs of Some i \<Rightarrow> Some i
      | None \<Rightarrow> map_option ((+) (length xs)) (position P ys))"
  by (induction xs) (cases "position P ys"; auto split: option.splits)+

lemma position_append_Some: "position P xs = Some i \<Longrightarrow> position P (xs @ ys) = Some i"
  by (simp add: position_append)

lemma position_first [parse_simps]:
  "\<forall>x\<in>set xs. \<not> P x \<Longrightarrow> P y \<Longrightarrow> position P (xs @ y # ys) = Some (length xs)"
  by (simp add: position_append position_None [THEN iffD2])

lemma position_split:
  assumes "position P xs = Some i"
  shows "xs = take i xs @ xs ! i # drop (Suc i) xs"
  using position_less [OF assms] by (simp add: id_take_nth_drop [symmetric])

lemma find_SomeD: "List.find P xs = Some x \<Longrightarrow> x \<in> set xs \<and> P x"
  by (induction xs) (auto split: if_splits)

section \<open>Hash maps\<close>

type_synonym ('k, 'v) hmap = "('k \<times> 'v) list"

abbreviation hm_ok :: "('k, 'v) hmap \<Rightarrow> bool" where
  "hm_ok m \<equiv> distinct (map fst m)"

abbreviation hm_get :: "('k, 'v) hmap \<Rightarrow> 'k \<Rightarrow> 'v option" where
  "hm_get m \<equiv> map_of m"

abbreviation hm_insert :: "'k \<Rightarrow> 'v \<Rightarrow> ('k, 'v) hmap \<Rightarrow> ('k, 'v) hmap" where
  "hm_insert \<equiv> AList.update"

abbreviation hm_remove :: "'k \<Rightarrow> ('k, 'v) hmap \<Rightarrow> ('k, 'v) hmap" where
  "hm_remove \<equiv> AList.delete"

lemma hm_get_insert [simp]: "hm_get (hm_insert k v m) = (hm_get m)(k \<mapsto> v)"
  by (rule update_conv')

lemma hm_get_remove [simp]: "hm_get (hm_remove k m) = (hm_get m)(k := None)"
  by (rule delete_conv')

lemma hm_ok_insert [simp]: "hm_ok m \<Longrightarrow> hm_ok (hm_insert k v m)"
  by (simp add: distinct_update)

lemma hm_ok_remove [simp]: "hm_ok m \<Longrightarrow> hm_ok (hm_remove k m)"
  by (simp add: distinct_delete)

lemma hm_ok_filter [simp]: "hm_ok m \<Longrightarrow> hm_ok (filter P m)"
  by (simp add: distinct_map_filter)

end
