(* ===== verification/Stomp_Strings.thy ===== *)
theory Stomp_Strings
  imports Stomp_Prelude
begin

text \<open>
  The parts of Rust's \<^verbatim>\<open>str\<close>, \<^verbatim>\<open>char\<close> and integer parsing the crate uses, over strings
  as UTF-8 bytes: well-formedness (\<^verbatim>\<open>from_utf8\<close>), the split into characters (\<^verbatim>\<open>chars\<close>),
  ASCII and Unicode case folding, trimming, substring search, slicing with its
  character-boundary panic, lossy decoding, and decimal numbers.
\<close>

section \<open>UTF-8\<close>

definition cont_byte :: "char \<Rightarrow> bool" where
  "cont_byte c \<longleftrightarrow> 0x80 \<le> byte c \<and> byte c < 0xC0"

text \<open>The second byte of a three-byte and of a four-byte sequence, by its first byte.\<close>

definition second_of_3 :: "char \<Rightarrow> char \<Rightarrow> bool" where
  "second_of_3 a b \<longleftrightarrow>
     (if byte a = 0xE0 then 0xA0 \<le> byte b \<and> byte b < 0xC0
      else if byte a = 0xED then 0x80 \<le> byte b \<and> byte b < 0xA0
      else cont_byte b)"

definition second_of_4 :: "char \<Rightarrow> char \<Rightarrow> bool" where
  "second_of_4 a b \<longleftrightarrow>
     (if byte a = 0xF0 then 0x90 \<le> byte b \<and> byte b < 0xC0
      else if byte a = 0xF4 then 0x80 \<le> byte b \<and> byte b < 0x90
      else cont_byte b)"

text \<open>The length a first byte announces (0: it begins no sequence).\<close>

definition utf8_lead :: "char \<Rightarrow> nat" where
  "utf8_lead a =
     (if byte a < 0x80 then 1
      else if byte a < 0xC2 then 0
      else if byte a < 0xE0 then 2
      else if byte a < 0xF0 then 3
      else if byte a < 0xF5 then 4
      else 0)"

text \<open>Whether a first byte and the bytes after it are one well-formed sequence.\<close>

fun utf8_seq :: "char \<Rightarrow> bytes \<Rightarrow> bool" where
  "utf8_seq a [] = (utf8_lead a = 1)"
| "utf8_seq a [b] = (utf8_lead a = 2 \<and> cont_byte b)"
| "utf8_seq a [b, c] = (utf8_lead a = 3 \<and> second_of_3 a b \<and> cont_byte c)"
| "utf8_seq a [b, c, d] = (utf8_lead a = 4 \<and> second_of_4 a b \<and> cont_byte c \<and> cont_byte d)"
| "utf8_seq a _ = False"

text \<open>The width in bytes of the well-formed sequence a byte string begins with.\<close>

definition utf8_width :: "bytes \<Rightarrow> nat option" where
  "utf8_width s =
     (case s of
        [] \<Rightarrow> None
      | a # r \<Rightarrow>
          if 0 < utf8_lead a \<and> utf8_seq a (take (utf8_lead a - 1) r)
          then Some (utf8_lead a) else None)"

lemma utf8_seq_length: "utf8_seq a r \<Longrightarrow> utf8_lead a = Suc (length r)"
  by (induction a r rule: utf8_seq.induct) auto

lemma utf8_width_SomeD:
  assumes "utf8_width s = Some n"
  shows "\<exists>a t r. s = a # t @ r \<and> utf8_seq a t \<and> n = Suc (length t)"
proof -
  obtain a r where s: "s = a # r" and pos: "0 < utf8_lead a"
    and ok: "utf8_seq a (take (utf8_lead a - 1) r)" and n: "n = utf8_lead a"
    using assms by (auto simp: utf8_width_def split: list.splits if_splits)
  then have "s = a # take (utf8_lead a - 1) r @ drop (utf8_lead a - 1) r"
    by simp
  with ok n utf8_seq_length [OF ok] show ?thesis by metis
qed

lemma utf8_widthI: "utf8_seq a t \<Longrightarrow> utf8_width (a # t @ r) = Some (Suc (length t))"
  by (simp add: utf8_width_def utf8_seq_length)

lemma utf8_width_bounds: "utf8_width s = Some n \<Longrightarrow> 0 < n \<and> n \<le> length s"
  by (auto dest!: utf8_width_SomeD)

lemma utf8_width_append: "utf8_width s = Some n \<Longrightarrow> utf8_width (s @ t) = Some n"
  by (auto dest!: utf8_width_SomeD simp: utf8_widthI)

lemma utf8_width_take: "utf8_width s = Some n \<Longrightarrow> utf8_width (take n s) = Some n"
  using utf8_widthI [where r = "[]"] by (fastforce dest!: utf8_width_SomeD)

lemma second_high:
  "second_of_3 a b \<Longrightarrow> 0x80 \<le> byte b" "second_of_4 a b \<Longrightarrow> 0x80 \<le> byte b"
  by (auto simp: second_of_3_def second_of_4_def cont_byte_def split: if_splits)

lemma utf8_lead_high: "utf8_lead a = Suc (Suc n) \<Longrightarrow> 0x80 \<le> byte a"
  by (auto simp: utf8_lead_def split: if_splits)

lemma utf8_seq_high:
  "utf8_seq a t \<Longrightarrow> t \<noteq> [] \<Longrightarrow> c \<in> set (a # t) \<Longrightarrow> 0x80 \<le> byte c"
proof (induction a t rule: utf8_seq.induct)
  case (2 a b)
  then show ?case using utf8_lead_high [of a 0] by (auto simp: cont_byte_def)
next
  case (3 a b c)
  then show ?case using utf8_lead_high [of a 1] second_high by (auto simp: cont_byte_def)
next
  case (4 a b c d)
  then show ?case using utf8_lead_high [of a 2] second_high by (auto simp: cont_byte_def)
qed auto

text \<open>A sequence of more than one byte holds no ASCII byte.\<close>

lemma utf8_width_high:
  assumes "utf8_width s = Some n" and "n \<noteq> 1" and "c \<in> set (take n s)"
  shows "0x80 \<le> byte c"
proof -
  obtain a t r where "s = a # t @ r" "utf8_seq a t" "n = Suc (length t)"
    using utf8_width_SomeD [OF assms(1)] by blast
  with assms(2,3) show ?thesis by (intro utf8_seq_high [of a t c]) auto
qed

lemma utf8_width_1: "utf8_width s = Some 1 \<Longrightarrow> \<exists>c r. s = c # r \<and> byte c < 0x80"
  by (auto dest!: utf8_width_SomeD simp: utf8_lead_def split: if_splits)

function utf8_valid :: "bytes \<Rightarrow> bool" where
  "utf8_valid s =
     (if s = [] then True
      else case utf8_width s of None \<Rightarrow> False | Some n \<Rightarrow> utf8_valid (drop n s))"
  by pat_completeness auto
termination
  by (relation "measure length") (auto dest: utf8_width_bounds)

declare utf8_valid.simps [simp del]

text \<open>\<^verbatim>\<open>str::chars\<close>: each character as its bytes.\<close>

function chars :: "string \<Rightarrow> string list" where
  "chars s =
     (if s = [] then []
      else case utf8_width s of None \<Rightarrow> [] | Some n \<Rightarrow> take n s # chars (drop n s))"
  by pat_completeness auto
termination
  by (relation "measure length") (auto dest: utf8_width_bounds)

declare chars.simps [simp del]

lemma utf8_valid_Nil [simp]: "utf8_valid []"
  by (simp add: utf8_valid.simps)

lemma chars_Nil [simp]: "chars [] = []"
  by (simp add: chars.simps)

lemma utf8_valid_step:
  "utf8_width s = Some n \<Longrightarrow> utf8_valid s = utf8_valid (drop n s)"
  by (subst utf8_valid.simps) (auto dest: utf8_width_bounds)

lemma chars_step: "utf8_width s = Some n \<Longrightarrow> chars s = take n s # chars (drop n s)"
  by (subst chars.simps) (auto dest: utf8_width_bounds)

lemma utf8_valid_ConsD:
  "utf8_valid s \<Longrightarrow> s \<noteq> [] \<Longrightarrow> \<exists>n. utf8_width s = Some n \<and> utf8_valid (drop n s)"
  by (subst (asm) utf8_valid.simps) (auto split: option.splits)

text \<open>Induction over the characters of a valid string.\<close>

lemma utf8_induct [consumes 1, case_names Nil Char]:
  assumes "utf8_valid s" and "P []"
    and "\<And>s n. utf8_width s = Some n \<Longrightarrow> utf8_valid (drop n s) \<Longrightarrow> P (drop n s) \<Longrightarrow> P s"
  shows "P s"
  using assms(1)
proof (induction "length s" arbitrary: s rule: less_induct)
  case less
  show ?case
  proof (cases "s = []")
    case True
    then show ?thesis using assms(2) by simp
  next
    case False
    then obtain n where n: "utf8_width s = Some n" "utf8_valid (drop n s)"
      using less.prems utf8_valid_ConsD by blast
    then have "length (drop n s) < length s"
      using utf8_width_bounds [OF n(1)] by (auto simp: length_drop)
    then show ?thesis using n less.hyps assms(3) by blast
  qed
qed

lemma concat_chars: "utf8_valid s \<Longrightarrow> concat (chars s) = s"
  by (induction s rule: utf8_induct) (simp_all add: chars_step)

lemma utf8_valid_append: "utf8_valid s \<Longrightarrow> utf8_valid t \<Longrightarrow> utf8_valid (s @ t)"
proof (induction s rule: utf8_induct)
  case (Char s n)
  then have "drop n (s @ t) = drop n s @ t"
    using utf8_width_bounds by fastforce
  then show ?case
    using Char utf8_valid_step [OF utf8_width_append [OF Char(1)]] by simp
qed simp

lemma chars_append: "utf8_valid s \<Longrightarrow> chars (s @ t) = chars s @ chars t"
proof (induction s rule: utf8_induct)
  case (Char s n)
  note w = utf8_width_append [OF Char.hyps(1)]
  have "drop n (s @ t) = drop n s @ t" "take n (s @ t) = take n s"
    using utf8_width_bounds [OF Char.hyps(1)] by simp_all
  then show ?case using chars_step [OF Char.hyps(1)] chars_step [OF w] Char.IH by simp
qed simp

lemma ascii_width: "byte c < 0x80 \<Longrightarrow> utf8_width (c # s) = Some 1"
  by (simp add: utf8_width_def utf8_lead_def)

lemma utf8_valid_ascii_Cons [simp]: "byte c < 0x80 \<Longrightarrow> utf8_valid (c # s) = utf8_valid s"
  using utf8_valid_step [OF ascii_width] by simp

lemma chars_ascii_Cons [simp]: "byte c < 0x80 \<Longrightarrow> chars (c # s) = [c] # chars s"
  using chars_step [OF ascii_width] by simp

definition is_ascii :: "string \<Rightarrow> bool" where
  "is_ascii s \<longleftrightarrow> list_all (\<lambda>c. byte c < 0x80) s"

lemma is_ascii_valid: "is_ascii s \<Longrightarrow> utf8_valid s"
  by (induction s) (auto simp: is_ascii_def)

lemma chars_ascii: "is_ascii s \<Longrightarrow> chars s = map (\<lambda>c. [c]) s"
  by (induction s) (auto simp: is_ascii_def)

text \<open>\<^verbatim>\<open>String::from_utf8\<close> and \<^verbatim>\<open>str::from_utf8\<close>: the same bytes, or an error.\<close>

definition from_utf8 :: "bytes \<Rightarrow> string option" where
  "from_utf8 b = (if utf8_valid b then Some b else None)"

section \<open>Characters and code points\<close>

fun code_point :: "string \<Rightarrow> nat" where
  "code_point [a] = byte a"
| "code_point [a, b] = (byte a mod 32) * 64 + byte b mod 64"
| "code_point [a, b, c] = (byte a mod 16) * 4096 + (byte b mod 64) * 64 + byte c mod 64"
| "code_point [a, b, c, d] =
     (byte a mod 8) * 262144 + (byte b mod 64) * 4096 + (byte c mod 64) * 64 + byte d mod 64"
| "code_point _ = 0"

definition encode_char :: "nat \<Rightarrow> string" where
  "encode_char n =
     (if n < 0x80 then [char_of n]
      else if n < 0x800 then [char_of (0xC0 + n div 64), char_of (0x80 + n mod 64)]
      else if n < 0x10000 then
        [char_of (0xE0 + n div 4096), char_of (0x80 + (n div 64) mod 64), char_of (0x80 + n mod 64)]
      else
        [char_of (0xF0 + n div 262144), char_of (0x80 + (n div 4096) mod 64),
         char_of (0x80 + (n div 64) mod 64), char_of (0x80 + n mod 64)])"

text \<open>\<^verbatim>\<open>char::is_whitespace\<close>: the Unicode property White_Space.\<close>

definition whitespace_cp :: "nat \<Rightarrow> bool" where
  "whitespace_cp n \<longleftrightarrow>
     (9 \<le> n \<and> n \<le> 13) \<or> n = 0x20 \<or> n = 0x85 \<or> n = 0xA0 \<or> n = 0x1680 \<or>
     (0x2000 \<le> n \<and> n \<le> 0x200A) \<or> n = 0x2028 \<or> n = 0x2029 \<or> n = 0x202F \<or>
     n = 0x205F \<or> n = 0x3000"

definition is_whitespace :: "string \<Rightarrow> bool" where
  "is_whitespace c = whitespace_cp (code_point c)"

definition trim :: "string \<Rightarrow> string" where
  "trim s =
     concat (rev (dropWhile is_whitespace (rev (dropWhile is_whitespace (chars s)))))"

section \<open>Letter case\<close>

definition ascii_lower :: "char \<Rightarrow> char" where
  "ascii_lower c = (if 0x41 \<le> byte c \<and> byte c \<le> 0x5A then char_of (byte c + 32) else c)"

text \<open>\<^verbatim>\<open>eq_ignore_ascii_case\<close>, of byte slices and of strings alike.\<close>

definition eq_ignore_ascii_case :: "bytes \<Rightarrow> bytes \<Rightarrow> bool" where
  "eq_ignore_ascii_case a b \<longleftrightarrow> map ascii_lower a = map ascii_lower b"

text \<open>
  The simple lowercase mappings of the Unicode character database outside ASCII, as
  runs \<open>(first, last, stride, offset)\<close>. U+0130 maps to two code points and is handled in
  \<open>lower_cp\<close>. The context rule that turns a final capital sigma into U+03C2 instead of
  U+03C3 is left out: both are two-byte non-ASCII characters, and the crate only compares
  the lowered text with ASCII text and measures offsets in it.
\<close>

definition lower_runs :: "(nat \<times> nat \<times> nat \<times> int) list" where
  "lower_runs =
     [(192, 214, 1, 32), (216, 222, 1, 32), (256, 302, 2, 1), (306, 310, 2, 1), (313, 327, 2, 1),
      (330, 374, 2, 1), (376, 376, 1, -121), (377, 381, 2, 1), (385, 385, 1, 210),
      (386, 388, 2, 1), (390, 390, 1, 206), (391, 391, 1, 1), (393, 394, 1, 205),
      (395, 395, 1, 1), (398, 398, 1, 79), (399, 399, 1, 202), (400, 400, 1, 203),
      (401, 401, 1, 1), (403, 403, 1, 205), (404, 404, 1, 207), (406, 406, 1, 211),
      (407, 407, 1, 209), (408, 408, 1, 1), (412, 412, 1, 211), (413, 413, 1, 213),
      (415, 415, 1, 214), (416, 420, 2, 1), (422, 422, 1, 218), (423, 423, 1, 1),
      (425, 425, 1, 218), (428, 428, 1, 1), (430, 430, 1, 218), (431, 431, 1, 1),
      (433, 434, 1, 217), (435, 437, 2, 1), (439, 439, 1, 219), (440, 440, 1, 1),
      (444, 444, 1, 1), (452, 452, 1, 2), (453, 453, 1, 1), (455, 455, 1, 2), (456, 456, 1, 1),
      (458, 458, 1, 2), (459, 475, 2, 1), (478, 494, 2, 1), (497, 497, 1, 2), (498, 500, 2, 1),
      (502, 502, 1, -97), (503, 503, 1, -56), (504, 542, 2, 1), (544, 544, 1, -130),
      (546, 562, 2, 1), (570, 570, 1, 10795), (571, 571, 1, 1), (573, 573, 1, -163),
      (574, 574, 1, 10792), (577, 577, 1, 1), (579, 579, 1, -195), (580, 580, 1, 69),
      (581, 581, 1, 71), (582, 590, 2, 1), (880, 882, 2, 1), (886, 886, 1, 1),
      (895, 895, 1, 116), (902, 902, 1, 38), (904, 906, 1, 37), (908, 908, 1, 64),
      (910, 911, 1, 63), (913, 929, 1, 32), (931, 939, 1, 32), (975, 975, 1, 8),
      (984, 1006, 2, 1), (1012, 1012, 1, -60), (1015, 1015, 1, 1), (1017, 1017, 1, -7),
      (1018, 1018, 1, 1), (1021, 1023, 1, -130), (1024, 1039, 1, 80), (1040, 1071, 1, 32),
      (1120, 1152, 2, 1), (1162, 1214, 2, 1), (1216, 1216, 1, 15), (1217, 1229, 2, 1),
      (1232, 1326, 2, 1), (1329, 1366, 1, 48), (4256, 4293, 1, 7264), (4295, 4295, 1, 7264),
      (4301, 4301, 1, 7264), (5024, 5103, 1, 38864), (5104, 5109, 1, 8), (7312, 7354, 1, -3008),
      (7357, 7359, 1, -3008), (7680, 7828, 2, 1), (7838, 7838, 1, -7615), (7840, 7934, 2, 1),
      (7944, 7951, 1, -8), (7960, 7965, 1, -8), (7976, 7983, 1, -8), (7992, 7999, 1, -8),
      (8008, 8013, 1, -8), (8025, 8031, 2, -8), (8040, 8047, 1, -8), (8072, 8079, 1, -8),
      (8088, 8095, 1, -8), (8104, 8111, 1, -8), (8120, 8121, 1, -8), (8122, 8123, 1, -74),
      (8124, 8124, 1, -9), (8136, 8139, 1, -86), (8140, 8140, 1, -9), (8152, 8153, 1, -8),
      (8154, 8155, 1, -100), (8168, 8169, 1, -8), (8170, 8171, 1, -112), (8172, 8172, 1, -7),
      (8184, 8185, 1, -128), (8186, 8187, 1, -126), (8188, 8188, 1, -9), (8486, 8486, 1, -7517),
      (8490, 8490, 1, -8383), (8491, 8491, 1, -8262), (8498, 8498, 1, 28), (8544, 8559, 1, 16),
      (8579, 8579, 1, 1), (9398, 9423, 1, 26), (11264, 11311, 1, 48), (11360, 11360, 1, 1),
      (11362, 11362, 1, -10743), (11363, 11363, 1, -3814), (11364, 11364, 1, -10727),
      (11367, 11371, 2, 1), (11373, 11373, 1, -10780), (11374, 11374, 1, -10749),
      (11375, 11375, 1, -10783), (11376, 11376, 1, -10782), (11378, 11378, 1, 1),
      (11381, 11381, 1, 1), (11390, 11391, 1, -10815), (11392, 11490, 2, 1),
      (11499, 11501, 2, 1), (11506, 11506, 1, 1), (42560, 42604, 2, 1), (42624, 42650, 2, 1),
      (42786, 42798, 2, 1), (42802, 42862, 2, 1), (42873, 42875, 2, 1),
      (42877, 42877, 1, -35332), (42878, 42886, 2, 1), (42891, 42891, 1, 1),
      (42893, 42893, 1, -42280), (42896, 42898, 2, 1), (42902, 42920, 2, 1),
      (42922, 42922, 1, -42308), (42923, 42923, 1, -42319), (42924, 42924, 1, -42315),
      (42925, 42925, 1, -42305), (42926, 42926, 1, -42308), (42928, 42928, 1, -42258),
      (42929, 42929, 1, -42282), (42930, 42930, 1, -42261), (42931, 42931, 1, 928),
      (42932, 42946, 2, 1), (42948, 42948, 1, -48), (42949, 42949, 1, -42307),
      (42950, 42950, 1, -35384), (42951, 42953, 2, 1), (42960, 42960, 1, 1),
      (42966, 42968, 2, 1), (42997, 42997, 1, 1), (65313, 65338, 1, 32), (66560, 66599, 1, 40),
      (66736, 66771, 1, 40), (66928, 66938, 1, 39), (66940, 66954, 1, 39), (66956, 66962, 1, 39),
      (66964, 66965, 1, 39), (68736, 68786, 1, 64), (71840, 71871, 1, 32), (93760, 93791, 1, 32),
      (125184, 125217, 1, 34)]"

definition lower_cp :: "nat \<Rightarrow> nat list" where
  "lower_cp n =
     (if n = 0x130 then [0x69, 0x307]
      else case List.find (\<lambda>(a, b, st, d). a \<le> n \<and> n \<le> b \<and> (n - a) mod st = 0) lower_runs of
        Some (a, b, st, d) \<Rightarrow> [nat (int n + d)]
      | None \<Rightarrow> [n])"

definition lower_char :: "string \<Rightarrow> string" where
  "lower_char p =
     (case p of [c] \<Rightarrow> [ascii_lower c]
      | _ \<Rightarrow> concat (map encode_char (lower_cp (code_point p))))"

text \<open>\<^verbatim>\<open>str::to_lowercase\<close>.\<close>

definition to_lowercase :: "string \<Rightarrow> string" where
  "to_lowercase s = concat (map lower_char (chars s))"

section \<open>Searching and slicing\<close>

definition starts_with :: "string \<Rightarrow> string \<Rightarrow> bool" where
  "starts_with s p = prefix p s"

text \<open>\<^verbatim>\<open>str::find(&str)\<close>: the byte offset of the first occurrence.\<close>

fun str_find :: "string \<Rightarrow> string \<Rightarrow> nat option" where
  "str_find p [] = (if p = [] then Some 0 else None)"
| "str_find p (c # s) = (if prefix p (c # s) then Some 0 else map_option Suc (str_find p s))"

text \<open>\<^verbatim>\<open>str::find(|c| ..)\<close>: the byte offset of the first character that satisfies a test.\<close>

primrec find_piece :: "(string \<Rightarrow> bool) \<Rightarrow> string list \<Rightarrow> nat option" where
  "find_piece P [] = None"
| "find_piece P (p # ps) = (if P p then Some 0 else map_option ((+) (length p)) (find_piece P ps))"

definition char_find :: "(string \<Rightarrow> bool) \<Rightarrow> string \<Rightarrow> nat option" where
  "char_find P s = find_piece P (chars s)"

text \<open>\<^verbatim>\<open>is_char_boundary\<close>, and the slice \<^verbatim>\<open>&s[i..]\<close>, which panics (\<^term>\<open>None\<close>) elsewhere.\<close>

definition is_char_boundary :: "string \<Rightarrow> nat \<Rightarrow> bool" where
  "is_char_boundary s i \<longleftrightarrow> i = 0 \<or> i = length s \<or> (i < length s \<and> \<not> cont_byte (s ! i))"

definition slice_from :: "string \<Rightarrow> nat \<Rightarrow> string option" where
  "slice_from s i = (if is_char_boundary s i then Some (drop i s) else None)"

text \<open>\<^verbatim>\<open>str::split(char)\<close> and \<^verbatim>\<open>str::splitn\<close>, for an ASCII separator.\<close>

fun split_on :: "char \<Rightarrow> string \<Rightarrow> string list" where
  "split_on d [] = [[]]"
| "split_on d (c # s) =
     (if c = d then [] # split_on d s
      else case split_on d s of [] \<Rightarrow> [[c]] | w # ws \<Rightarrow> (c # w) # ws)"

fun splitn :: "nat \<Rightarrow> char \<Rightarrow> string \<Rightarrow> string list" where
  "splitn 0 d s = []"
| "splitn (Suc 0) d s = [s]"
| "splitn (Suc (Suc n)) d s =
     (case position (\<lambda>c. c = d) s of
        None \<Rightarrow> [s]
      | Some i \<Rightarrow> take i s # splitn (Suc n) d (drop (Suc i) s))"

section \<open>Lossy decoding\<close>

text \<open>
  \<^verbatim>\<open>String::from_utf8_lossy\<close> replaces each maximal prefix of an ill-formed sequence by
  U+FFFD; \<open>utf8_bad_len\<close> is that prefix's length.
\<close>

definition utf8_bad_len :: "bytes \<Rightarrow> nat" where
  "utf8_bad_len s =
     (case s of
        a # b # c # _ \<Rightarrow>
          if utf8_lead a = 3 \<and> second_of_3 a b then 2
          else if utf8_lead a = 4 \<and> second_of_4 a b then (if cont_byte c then 3 else 2)
          else 1
      | [a, b] \<Rightarrow>
          if utf8_lead a = 3 \<and> second_of_3 a b \<or> utf8_lead a = 4 \<and> second_of_4 a b then 2 else 1
      | _ \<Rightarrow> 1)"

lemma utf8_bad_len_pos: "0 < utf8_bad_len s"
  by (auto simp: utf8_bad_len_def split: list.splits)

function from_utf8_lossy :: "bytes \<Rightarrow> string" where
  "from_utf8_lossy s =
     (if s = [] then []
      else case utf8_width s of
        Some n \<Rightarrow> take n s @ from_utf8_lossy (drop n s)
      | None \<Rightarrow> encode_char 0xFFFD @ from_utf8_lossy (drop (utf8_bad_len s) s))"
  by pat_completeness auto
termination
  by (relation "measure length") (auto dest: utf8_width_bounds simp: utf8_bad_len_pos)

declare from_utf8_lossy.simps [simp del]

section \<open>Decimal numbers\<close>

definition digit_char :: "nat \<Rightarrow> char" where
  "digit_char d = char_of (0x30 + d)"

definition digit_val :: "char \<Rightarrow> nat option" where
  "digit_val c = (if 0x30 \<le> byte c \<and> byte c \<le> 0x39 then Some (byte c - 0x30) else None)"

text \<open>\<^verbatim>\<open>to_string\<close> of an unsigned integer.\<close>

fun show_nat :: "nat \<Rightarrow> string" where
  "show_nat n = (if n < 10 then [digit_char n] else show_nat (n div 10) @ [digit_char (n mod 10)])"

declare show_nat.simps [simp del]

text \<open>
  \<^verbatim>\<open>str::parse\<close> for the unsigned types: at least one digit after an optional \<^verbatim>\<open>+\<close>, digits
  only, and the value below the type's bound (checked digit by digit).
\<close>

fun parse_digits :: "nat \<Rightarrow> nat \<Rightarrow> string \<Rightarrow> nat option" where
  "parse_digits bound acc [] = Some acc"
| "parse_digits bound acc (c # s) =
     (case digit_val c of
        None \<Rightarrow> None
      | Some d \<Rightarrow> if acc * 10 + d < bound then parse_digits bound (acc * 10 + d) s else None)"

definition parse_unsigned :: "nat \<Rightarrow> string \<Rightarrow> nat option" where
  "parse_unsigned bound s =
     (case s of
        [] \<Rightarrow> None
      | c # r \<Rightarrow> if c = CHR ''+'' then (if r = [] then None else parse_digits bound 0 r)
                else parse_digits bound 0 s)"

definition u64_limit :: nat where
  "u64_limit = 2 ^ 64"

definition u32_limit :: nat where
  "u32_limit = 2 ^ 32"

section \<open>Facts about numbers in text\<close>

lemma byte_char_of: "n < 256 \<Longrightarrow> byte (char_of n) = n"
  by simp

lemma byte_digit_char [simp]: "d < 10 \<Longrightarrow> byte (digit_char d) = 0x30 + d"
  by (simp add: digit_char_def)

lemma digit_val_digit_char [simp]: "d < 10 \<Longrightarrow> digit_val (digit_char d) = Some d"
  by (simp add: digit_val_def)

lemma parse_digits_snoc:
  "parse_digits bound acc (s @ [c]) =
     (case parse_digits bound acc s of
        None \<Rightarrow> None
      | Some m \<Rightarrow> (case digit_val c of
          None \<Rightarrow> None
        | Some d \<Rightarrow> if m * 10 + d < bound then Some (m * 10 + d) else None))"
  by (induction bound acc s rule: parse_digits.induct) (auto split: option.splits)

lemma parse_digits_show: "n < bound \<Longrightarrow> parse_digits bound 0 (show_nat n) = Some n"
proof (induction n rule: show_nat.induct)
  case (1 n)
  show ?case
  proof (cases "n < 10")
    case True
    then show ?thesis using 1 by (subst show_nat.simps) simp
  next
    case False
    then have "parse_digits bound 0 (show_nat (n div 10)) = Some (n div 10)"
      using 1 by simp
    with False show ?thesis
      using 1(2) by (subst show_nat.simps) (simp add: parse_digits_snoc)
  qed
qed

lemma show_nat_digits: "c \<in> set (show_nat n) \<Longrightarrow> \<exists>d<10. c = digit_char d"
proof (induction n rule: show_nat.induct)
  case (1 n)
  have "show_nat n = (if n < 10 then [digit_char n] else show_nat (n div 10) @ [digit_char (n mod 10)])"
    by (rule show_nat.simps)
  moreover have "\<exists>d<10. digit_char (n mod 10) = digit_char d"
    by (rule exI [of _ "n mod 10"]) simp
  ultimately show ?case using 1 by (auto split: if_splits)
qed

lemma show_nat_byte: "c \<in> set (show_nat n) \<Longrightarrow> 0x30 \<le> byte c \<and> byte c \<le> 0x39"
  using show_nat_digits by fastforce

lemma show_nat_not_Nil [simp]: "show_nat n \<noteq> []"
  by (subst show_nat.simps) simp

lemma is_ascii_show_nat [simp]: "is_ascii (show_nat n)"
  using show_nat_byte by (fastforce simp: is_ascii_def list_all_iff)

text \<open>Printing a number and parsing it back.\<close>

lemma parse_unsigned_show: "n < bound \<Longrightarrow> parse_unsigned bound (show_nat n) = Some n"
proof -
  assume n: "n < bound"
  obtain c r where cr: "show_nat n = c # r" by (cases "show_nat n") auto
  then have "0x30 \<le> byte c" using show_nat_byte [of c n] by simp
  then have "c \<noteq> CHR ''+''" by auto
  with cr show ?thesis
    using parse_digits_show [OF n] by (simp add: parse_unsigned_def)
qed

lemma show_nat_inj: "show_nat m = show_nat n \<Longrightarrow> m = n"
  by (metis parse_unsigned_show less_add_Suc1 less_add_Suc2 option.inject)

text \<open>A string of ASCII characters none of which is white space is left alone by \<open>trim\<close>.\<close>

lemma trim_ascii:
  assumes "is_ascii s" and "\<forall>c\<in>set s. \<not> whitespace_cp (byte c)"
  shows "trim s = s"
proof -
  have keep: "dropWhile is_whitespace ps = ps" if "\<forall>p\<in>set ps. \<not> is_whitespace p" for ps
    using that by (cases ps) auto
  have "chars s = map (\<lambda>c. [c]) s" using assms(1) by (rule chars_ascii)
  moreover have "\<forall>p\<in>set (map (\<lambda>c. [c]) s). \<not> is_whitespace p"
    using assms(2) by (simp add: is_whitespace_def)
  moreover have "concat (map (\<lambda>c. [c]) s) = s" by (induction s) auto
  ultimately show ?thesis by (simp add: trim_def keep)
qed

lemma trim_show_nat [simp]: "trim (show_nat n) = show_nat n"
proof (rule trim_ascii)
  show "\<forall>c\<in>set (show_nat n). \<not> whitespace_cp (byte c)"
    using show_nat_byte by (fastforce simp: whitespace_cp_def)
qed simp

lemma parse_unsigned_less: "parse_unsigned bound s = Some n \<Longrightarrow> n < bound"
proof -
  have *: "n < bound" if "parse_digits bound acc t = Some n" "acc < bound" for acc t
    using that by (induction bound acc t rule: parse_digits.induct) (auto split: option.splits if_splits)
  have **: "n < bound" if "parse_digits bound 0 t = Some n" "t \<noteq> []" for t
    using that * by (cases t) (auto split: option.splits if_splits)
  assume p: "parse_unsigned bound s = Some n"
  then obtain t where "parse_digits bound 0 t = Some n" and "t \<noteq> []"
    by (cases s) (auto simp: parse_unsigned_def simp del: parse_digits.simps split: if_splits)
  then show ?thesis by (rule **)
qed

section \<open>Facts about letter case\<close>

lemma eq_ignore_ascii_case_refl [simp]: "eq_ignore_ascii_case a a"
  by (simp add: eq_ignore_ascii_case_def)

lemma eq_ignore_ascii_case_sym: "eq_ignore_ascii_case a b \<Longrightarrow> eq_ignore_ascii_case b a"
  by (simp add: eq_ignore_ascii_case_def)

lemma eq_ignore_ascii_case_length: "eq_ignore_ascii_case a b \<Longrightarrow> length a = length b"
  unfolding eq_ignore_ascii_case_def by (rule map_eq_imp_length_eq)

lemma byte_ascii_lower: "byte (ascii_lower c) < 0x80 \<longleftrightarrow> byte c < 0x80"
  by (auto simp: ascii_lower_def)

lemma to_lowercase_ascii: "is_ascii s \<Longrightarrow> to_lowercase s = map ascii_lower s"
  by (induction s) (auto simp: to_lowercase_def chars_ascii lower_char_def is_ascii_def)

text \<open>
  Apart from U+212A (the Kelvin sign, which lowers to \<^verbatim>\<open>k\<close>), a non-ASCII character lowers
  to text that begins with or consists of non-ASCII characters; U+0130 lowers to an ASCII
  \<^verbatim>\<open>i\<close> followed by a non-ASCII combining mark.
\<close>

lemma lower_runs_high:
  "list_all (\<lambda>(a, b, st, d). 0x80 \<le> int a + d \<and> 0x80 \<le> a \<or> (a, b) = (0x212A, 0x212A)) lower_runs"
  by (simp add: lower_runs_def)

lemma lower_cp_high:
  assumes "0x80 \<le> n" and "n \<noteq> 0x212A" and "m = last (lower_cp n)"
  shows "lower_cp n \<noteq> [] \<and> 0x80 \<le> m"
proof (cases "n = 0x130")
  case True
  then show ?thesis using assms(3) by (simp add: lower_cp_def)
next
  case False
  show ?thesis
  proof (cases "List.find (\<lambda>(a, b, st, d). a \<le> n \<and> n \<le> b \<and> (n - a) mod st = 0) lower_runs")
    case None
    then show ?thesis using False assms by (simp add: lower_cp_def)
  next
    case (Some e)
    then obtain a b st d where e: "e = (a, b, st, d)" "(a, b, st, d) \<in> set lower_runs"
      and ab: "a \<le> n" "n \<le> b"
      by (cases e) (auto dest!: find_SomeD)
    have "0x80 \<le> int a + d"
      using e(2) ab assms(2) lower_runs_high by (fastforce simp: list_all_iff)
    then have "0x80 \<le> nat (int n + d)" using ab by linarith
    then show ?thesis using False Some e(1) assms(3) by (simp add: lower_cp_def)
  qed
qed

lemma encode_char_high: "0x80 \<le> m \<Longrightarrow> \<exists>c\<in>set (encode_char m). 0x80 \<le> byte c"
proof -
  assume "0x80 \<le> m"
  then have "char_of (0x80 + m mod 64) \<in> set (encode_char m)"
    by (simp add: encode_char_def)
  moreover have "0x80 \<le> byte (char_of (0x80 + m mod 64))" by simp
  ultimately show ?thesis by blast
qed

lemma utf8_lead_range:
  "utf8_lead a = 2 \<Longrightarrow> 0xC2 \<le> byte a \<and> byte a < 0xE0"
  "utf8_lead a = 3 \<Longrightarrow> 0xE0 \<le> byte a \<and> byte a < 0xF0"
  "utf8_lead a = 4 \<Longrightarrow> 0xF0 \<le> byte a \<and> byte a < 0xF5"
  by (simp_all add: utf8_lead_def split: if_split_asm)

lemma utf8_lead_1: "utf8_lead a = 1 \<Longrightarrow> byte a < 0x80"
  by (simp add: utf8_lead_def split: if_split_asm)

lemma mod_window:
  fixes n :: nat
  assumes "k * m \<le> n" and "n < k * m + m"
  shows "n mod m = n - k * m"
proof -
  have "n mod m = (n - k * m + k * m) mod m" using assms(1) by simp
  also have "\<dots> = (n - k * m) mod m" by (rule mod_mult_self1)
  also have "\<dots> = n - k * m" using assms by (intro mod_less) linarith
  finally show ?thesis .
qed

lemma mod_facts:
  fixes n :: nat
  shows "0xC2 \<le> n \<Longrightarrow> n < 0xE0 \<Longrightarrow> 2 \<le> n mod 32"
    and "0xA0 \<le> n \<Longrightarrow> n < 0xC0 \<Longrightarrow> 2 \<le> n mod 64"
    and "0x90 \<le> n \<Longrightarrow> n < 0xC0 \<Longrightarrow> 2 \<le> n mod 64"
    and "0xE0 < n \<Longrightarrow> n < 0xF0 \<Longrightarrow> 1 \<le> n mod 16"
    and "0xF0 < n \<Longrightarrow> n < 0xF5 \<Longrightarrow> 1 \<le> n mod 8"
  using mod_window [of 6 32 n] mod_window [of 2 64 n] mod_window [of 14 16 n]
    mod_window [of 30 8 n] by simp_all

lemma code_point_high:
  assumes "utf8_seq a t" and "t \<noteq> []"
  shows "0x80 \<le> code_point (a # t)"
  using assms
proof (induction a t rule: utf8_seq.induct)
  case (2 a b)
  then have "2 \<le> byte a mod 32" by (simp add: utf8_lead_range mod_facts)
  then show ?case by simp
next
  case (3 a b c)
  then have a: "0xE0 \<le> byte a \<and> byte a < 0xF0" by (simp add: utf8_lead_range)
  have "2 \<le> byte b mod 64 \<or> 1 \<le> byte a mod 16"
  proof (cases "byte a = 0xE0")
    case True
    then show ?thesis using 3 mod_facts(2) by (simp add: second_of_3_def)
  next
    case False
    then show ?thesis using a mod_facts(4) [of "byte a"] by simp
  qed
  then show ?case by (simp only: code_point.simps) linarith
next
  case (4 a b c d)
  then have a: "0xF0 \<le> byte a \<and> byte a < 0xF5" by (simp add: utf8_lead_range)
  have "2 \<le> byte b mod 64 \<or> 1 \<le> byte a mod 8"
  proof (cases "byte a = 0xF0")
    case True
    then show ?thesis using 4 mod_facts(3) by (simp add: second_of_4_def)
  next
    case False
    then show ?thesis using a mod_facts(5) [of "byte a"] by simp
  qed
  then show ?case by (simp only: code_point.simps) linarith
qed auto

lemma lower_char_high:
  assumes "utf8_seq a t" and "t \<noteq> []"
  shows "\<exists>c\<in>set (lower_char (a # t)). 0x80 \<le> byte c \<or> c = CHR ''k''"
proof -
  let ?n = "code_point (a # t)"
  have low: "lower_char (a # t) = concat (map encode_char (lower_cp ?n))"
    using assms(2) by (simp add: lower_char_def split: list.split)
  show ?thesis
  proof (cases "?n = 0x212A")
    case True
    have "lower_cp 0x212A = [0x6B]" by (simp add: lower_cp_def lower_runs_def)
    moreover have "encode_char 0x6B = ''k''" by code_simp
    ultimately show ?thesis using True low by simp
  next
    case False
    have high: "lower_cp ?n \<noteq> [] \<and> 0x80 \<le> last (lower_cp ?n)"
      using lower_cp_high [OF code_point_high [OF assms] False refl] .
    then obtain c where "c \<in> set (encode_char (last (lower_cp ?n)))" "0x80 \<le> byte c"
      using encode_char_high by blast
    then show ?thesis using low high last_in_set by fastforce
  qed
qed

text \<open>
  Comparing a Unicode-lowered string with ASCII text that has no \<^verbatim>\<open>k\<close> is comparing the
  string with that text ignoring ASCII case.
\<close>

lemma to_lowercase_ends_ascii:
  assumes "utf8_valid s" and "\<forall>c\<in>set (to_lowercase s). byte c < 0x80 \<and> c \<noteq> CHR ''k''"
  shows "is_ascii s"
  using assms
proof (induction s rule: utf8_induct)
  case (Char s n)
  obtain a t r where s: "s = a # t @ r" and seq: "utf8_seq a t" and n: "n = Suc (length t)"
    using utf8_width_SomeD [OF Char.hyps(1)] by blast
  have "chars s = (a # t) # chars r"
    using chars_step [OF Char.hyps(1)] unfolding s n by simp
  then have low: "to_lowercase s = lower_char (a # t) @ to_lowercase r"
    by (simp add: to_lowercase_def)
  have "t = []"
  proof (rule ccontr)
    assume "t \<noteq> []"
    then obtain c where c: "c \<in> set (lower_char (a # t))" "0x80 \<le> byte c \<or> c = CHR ''k''"
      using lower_char_high [OF seq] by blast
    then have "byte c < 0x80 \<and> c \<noteq> CHR ''k''"
      using Char.prems unfolding low by simp
    with c(2) show False by linarith
  qed
  moreover have "drop n s = r" using s n by simp
  then have "is_ascii r" using Char.IH Char.prems unfolding low by simp
  ultimately show ?case
    using s seq utf8_lead_1 [of a] by (simp add: is_ascii_def)
qed (simp add: is_ascii_def)

lemma to_lowercase_eq_ascii:
  assumes "utf8_valid s" and "is_ascii p" and "CHR ''k'' \<notin> set p"
  shows "to_lowercase s = p \<longleftrightarrow> map ascii_lower s = p"
proof (cases "is_ascii s")
  case True
  then show ?thesis by (simp add: to_lowercase_ascii)
next
  case False
  then have "to_lowercase s \<noteq> p"
    using to_lowercase_ends_ascii [OF assms(1)] assms(2,3) by (fastforce simp: is_ascii_def list_all_iff)
  moreover have "map ascii_lower s \<noteq> p"
    using False assms(2) by (fastforce simp: is_ascii_def list_all_iff byte_ascii_lower)
  ultimately show ?thesis by simp
qed

section \<open>Facts about lossy decoding and slicing\<close>

lemma from_utf8_lossy_Nil [simp]: "from_utf8_lossy [] = []"
  by (simp add: from_utf8_lossy.simps)

lemma from_utf8_lossy_valid: "utf8_valid s \<Longrightarrow> from_utf8_lossy s = s"
proof (induction s rule: utf8_induct)
  case (Char s n)
  then have "s \<noteq> []" using utf8_width_bounds by fastforce
  then show ?case using Char by (subst from_utf8_lossy.simps) simp
qed simp

lemma slice_from_0 [simp]: "slice_from s 0 = Some s"
  by (simp add: slice_from_def is_char_boundary_def)

end
