(* ===== verification/Stomp_Frame.thy ===== *)
theory Stomp_Frame
  imports Stomp_Strings
begin

text \<open>
  The frame of \<^verbatim>\<open>src/frame.rs\<close>: its record, the builder methods, the case-insensitive
  first-match header lookup and the display form.
\<close>

record frame =
  command :: string
  headers :: "(string \<times> string) list"
  body :: bytes

definition frame_new :: "string \<Rightarrow> frame" where
  "frame_new c = \<lparr>command = c, headers = [], body = []\<rparr>"

definition with_header :: "string \<Rightarrow> string \<Rightarrow> frame \<Rightarrow> frame" where
  "with_header k v f = f\<lparr>headers := headers f @ [(k, v)]\<rparr>"

definition set_body :: "bytes \<Rightarrow> frame \<Rightarrow> frame" where
  "set_body b f = f\<lparr>body := b\<rparr>"

definition with_receipt :: "string \<Rightarrow> frame \<Rightarrow> frame" where
  "with_receipt rid f = with_header ''receipt'' rid f"

fun find_header :: "string \<Rightarrow> (string \<times> string) list \<Rightarrow> string option" where
  "find_header key [] = None"
| "find_header key ((name, value) # hs) =
     (if eq_ignore_ascii_case name key then Some value else find_header key hs)"

definition get_header :: "frame \<Rightarrow> string \<Rightarrow> string option" where
  "get_header f key = find_header key (headers f)"

definition display_frame :: "frame \<Rightarrow> string" where
  "display_frame f =
     ''Command: '' @ command f @ [LF] @
     concat (map (\<lambda>(k, v). k @ '': '' @ v @ [LF]) (headers f)) @
     ''Body ('' @ show_nat (length (body f)) @ '' bytes)'' @ [LF]"

lemmas frame_builders = frame_new_def with_header_def set_body_def with_receipt_def

text \<open>Every part of a frame that Rust's types make a \<^verbatim>\<open>String\<close> is valid UTF-8.\<close>

definition frame_valid :: "frame \<Rightarrow> bool" where
  "frame_valid f \<longleftrightarrow>
     utf8_valid (command f) \<and> list_all (\<lambda>(k, v). utf8_valid k \<and> utf8_valid v) (headers f)"

section \<open>Lookup\<close>

lemma find_header_append:
  "find_header key (hs @ hs') =
     (case find_header key hs of Some v \<Rightarrow> Some v | None \<Rightarrow> find_header key hs')"
  by (induction key hs rule: find_header.induct) auto

lemma find_header_None:
  "find_header key hs = None \<longleftrightarrow> (\<forall>(k, v)\<in>set hs. \<not> eq_ignore_ascii_case k key)"
  by (induction key hs rule: find_header.induct) auto

lemma find_header_SomeD:
  "find_header key hs = Some v \<Longrightarrow>
     \<exists>i<length hs. eq_ignore_ascii_case (fst (hs ! i)) key \<and> snd (hs ! i) = v \<and>
       (\<forall>j<i. \<not> eq_ignore_ascii_case (fst (hs ! j)) key)"
proof (induction key hs rule: find_header.induct)
  case (2 key k w hs)
  show ?case
  proof (cases "eq_ignore_ascii_case k key")
    case True
    with 2 show ?thesis by (intro exI [of _ 0]) auto
  next
    case False
    with 2 obtain i where "i < length hs" "eq_ignore_ascii_case (fst (hs ! i)) key"
      "snd (hs ! i) = v" "\<forall>j<i. \<not> eq_ignore_ascii_case (fst (hs ! j)) key"
      by auto
    with False show ?thesis
      by (intro exI [of _ "Suc i"]) (auto simp: nth_Cons split: nat.splits)
  qed
qed simp

lemma get_header_with_header:
  "get_header (with_header k v f) key =
     (case get_header f key of Some w \<Rightarrow> Some w
      | None \<Rightarrow> if eq_ignore_ascii_case k key then Some v else None)"
  by (simp add: get_header_def with_header_def find_header_append split: option.split)

lemma get_header_new [simp]: "get_header (frame_new c) key = None"
  by (simp add: get_header_def frame_new_def)

lemma get_header_set_body [simp]: "get_header (set_body b f) key = get_header f key"
  by (simp add: get_header_def set_body_def)

lemma command_builders [simp]:
  "command (frame_new c) = c" "command (with_header k v f) = command f"
  "command (set_body b f) = command f" "command (with_receipt r f) = command f"
  by (simp_all add: frame_builders)

end
