(* ===== verification/Stomp_Parser.thy ===== *)
theory Stomp_Parser
  imports Stomp_Frame
begin

text \<open>
  The slice parser of \<^verbatim>\<open>src/parser.rs\<close>: header unescaping, the content-length header, and
  \<^verbatim>\<open>parse_frame_slice_bounded\<close> with its position arithmetic. A result \<open>Inr None\<close> asks for
  more bytes; \<open>Inr (Some (command, headers, body, consumed))\<close> is a complete frame.
\<close>

datatype parse_error =
    IncompleteEscape
  | InvalidEscape char
  | ContentLengthNotUtf8
  | EmptyContentLength
  | InvalidContentLength string
  | BodyTooLarge nat nat
  | MalformedHeaderLine bytes
  | ContentLengthTooLarge nat nat
  | ContentLengthOverflow
  | MissingNul

section \<open>Unescaping\<close>

fun unescape_header_value :: "bytes \<Rightarrow> (parse_error, bytes) result" where
  "unescape_header_value [] = Inr []"
| "unescape_header_value (c # s) =
     (if c = BACKSLASH then
        (case s of
           [] \<Rightarrow> Inl IncompleteEscape
         | d # t \<Rightarrow>
             (case (if d = BACKSLASH then Some BACKSLASH
                    else if d = CHR ''n'' then Some LF
                    else if d = CHR ''r'' then Some CR
                    else if d = CHR ''c'' then Some COLON
                    else None) of
                None \<Rightarrow> Inl (InvalidEscape d)
              | Some e \<Rightarrow> map_sum id ((#) e) (unescape_header_value t)))
      else map_sum id ((#) c) (unescape_header_value s))"

section \<open>Content length\<close>

fun get_content_length :: "(bytes \<times> bytes) list \<Rightarrow> (parse_error, nat option) result" where
  "get_content_length [] = Inr None"
| "get_content_length ((k, v) # hs) =
     (if eq_ignore_ascii_case k ''content-length'' then
        (case from_utf8 v of
           None \<Rightarrow> Inl ContentLengthNotUtf8
         | Some s \<Rightarrow>
             if trim s = [] then Inl EmptyContentLength
             else case parse_unsigned usize_limit (trim s) of
               Some n \<Rightarrow> Inr (Some n)
             | None \<Rightarrow> Inl (InvalidContentLength (trim s)))
      else get_content_length hs)"

definition DEFAULT_MAX_FRAME_SIZE :: nat where
  "DEFAULT_MAX_FRAME_SIZE = 16 * 1024 * 1024"

section \<open>The frame parser\<close>

type_synonym parsed = "bytes \<times> (bytes \<times> bytes) list \<times> bytes option \<times> nat"

definition skip_lf :: "bytes \<Rightarrow> nat" where
  "skip_lf input = length (takeWhile (\<lambda>b. b = LF) input)"

definition find_byte :: "char \<Rightarrow> bytes \<Rightarrow> nat \<Rightarrow> nat option" where
  "find_byte c input pos = position (\<lambda>b. b = c) (drop pos input)"

definition subslice :: "bytes \<Rightarrow> nat \<Rightarrow> nat \<Rightarrow> bytes" where
  "subslice input pos n = take n (drop pos input)"

definition strip_cr :: "bytes \<Rightarrow> bytes" where
  "strip_cr line = (if line \<noteq> [] \<and> last line = CR then butlast line else line)"

definition skip_trailing_lf :: "bytes \<Rightarrow> nat \<Rightarrow> nat" where
  "skip_trailing_lf input pos = (if pos < length input \<and> input ! pos = LF then pos + 1 else pos)"

definition nul_body ::
  "bytes \<Rightarrow> nat \<Rightarrow> nat \<Rightarrow> bytes \<Rightarrow> (bytes \<times> bytes) list \<Rightarrow> (parse_error, parsed option) result" where
  "nul_body input pos lim cmd hs =
     (case find_byte NUL input pos of
        Some r \<Rightarrow>
          if r > lim then Inl (BodyTooLarge r lim)
          else
            let body = subslice input pos r;
                pos = skip_trailing_lf input (pos + (r + 1))
            in Inr (Some (cmd, hs, if body = [] then None else Some body, pos))
      | None \<Rightarrow> Inr None)"

definition length_body ::
  "bytes \<Rightarrow> nat \<Rightarrow> nat \<Rightarrow> bytes \<Rightarrow> (bytes \<times> bytes) list \<Rightarrow> nat \<Rightarrow>
   (parse_error, parsed option) result" where
  "length_body input pos lim cmd hs n =
     (if n > lim then Inl (ContentLengthTooLarge n lim)
      else case Option.bind (checked_add pos n) (\<lambda>m. checked_add m 1) of
        None \<Rightarrow> Inl ContentLengthOverflow
      | Some needed \<Rightarrow>
          if needed > length input then Inr None
          else
            let body = subslice input pos n;
                pos = pos + n
            in if pos \<ge> length input \<or> input ! pos \<noteq> NUL then Inl MissingNul
               else Inr (Some (cmd, hs, Some body, skip_trailing_lf input (pos + 1))))"

function parse_headers ::
  "bytes \<Rightarrow> nat \<Rightarrow> (bytes \<times> bytes) list \<Rightarrow>
   (parse_error, ((bytes \<times> bytes) list \<times> nat) option) result" where
  "parse_headers input pos hs =
     (if pos \<ge> length input then Inr None
      else if input ! pos = LF then Inr (Some (hs, pos + 1))
      else case find_byte LF input pos of
        None \<Rightarrow> Inr None
      | Some r \<Rightarrow>
          let line = strip_cr (subslice input pos r)
          in case position (\<lambda>b. b = COLON) line of
               None \<Rightarrow> Inl (MalformedHeaderLine line)
             | Some c \<Rightarrow>
                 parse_headers input (pos + (r + 1)) (hs @ [(take c line, drop (c + 1) line)]))"
  by pat_completeness auto
termination
  by (relation "measure (\<lambda>(input, pos, hs). length input - pos)") auto

declare parse_headers.simps [simp del]

definition parse_frame_slice_bounded ::
  "bytes \<Rightarrow> nat \<Rightarrow> (parse_error, parsed option) result" where
  "parse_frame_slice_bounded input lim =
     (let pos = skip_lf input
      in case find_byte LF input pos of
           None \<Rightarrow> nul_body input pos lim [] []
         | Some r \<Rightarrow>
             let cmd = strip_cr (subslice input pos r)
             in case parse_headers input (pos + (r + 1)) [] of
                  Inl e \<Rightarrow> Inl e
                | Inr None \<Rightarrow> Inr None
                | Inr (Some (hs, pos)) \<Rightarrow>
                    (case get_content_length hs of
                       Inl e \<Rightarrow> Inl e
                     | Inr (Some n) \<Rightarrow> length_body input pos lim cmd hs n
                     | Inr None \<Rightarrow> nul_body input pos lim cmd hs))"

definition parse_frame_slice :: "bytes \<Rightarrow> (parse_error, parsed option) result" where
  "parse_frame_slice input = parse_frame_slice_bounded input DEFAULT_MAX_FRAME_SIZE"

section \<open>Scanning\<close>

lemma find_byte_SomeD:
  assumes "find_byte c input pos = Some r"
  shows "pos + r < length input" and "input ! (pos + r) = c" and "c \<notin> set (subslice input pos r)"
  using position_SomeD [OF assms [unfolded find_byte_def]] by (auto simp: subslice_def)

lemma find_byte_append:
  assumes "find_byte c p pos = Some r"
  shows "find_byte c (p @ x) pos = Some r"
proof -
  have "pos < length p" using find_byte_SomeD(1) [OF assms] by simp
  then show ?thesis
    using assms by (simp add: find_byte_def position_append_Some)
qed

lemma slice_append [parse_simps]: "pos + n \<le> length p \<Longrightarrow> subslice (p @ x) pos n = subslice p pos n"
  by (simp add: subslice_def)

lemma length_slice [simp]: "pos + n \<le> length input \<Longrightarrow> length (subslice input pos n) = n"
  by (simp add: subslice_def)

lemma skip_lf_le: "skip_lf input \<le> length input"
  by (simp add: skip_lf_def length_takeWhile_le)

lemma skip_lf_append: "skip_lf p < length p \<Longrightarrow> skip_lf (p @ x) = skip_lf p"
  unfolding skip_lf_def by (metis less_irrefl takeWhile_append takeWhile_eq_all_conv)

lemma skip_lf_0: "s = [] \<or> hd s \<noteq> LF \<Longrightarrow> skip_lf s = 0"
  by (cases s) (auto simp: skip_lf_def)

lemma skip_trailing_lf_bounds:
  "pos \<le> length input \<Longrightarrow> pos \<le> skip_trailing_lf input pos \<and> skip_trailing_lf input pos \<le> length input"
  by (simp add: skip_trailing_lf_def)

text \<open>
  The optional line feed after a frame is swallowed only if it is already in the buffer:
  with more bytes the frame's end may move by one.
\<close>

definition late_lf :: "bytes \<Rightarrow> nat \<Rightarrow> bytes \<Rightarrow> nat" where
  "late_lf p n x = (if n = length p \<and> last p = NUL \<and> x \<noteq> [] \<and> hd x = LF then n + 1 else n)"

lemma skip_trailing_lf_append:
  assumes "pos < length p" and "p ! pos = NUL"
  shows "skip_trailing_lf (p @ x) (Suc pos) = late_lf p (skip_trailing_lf p (Suc pos)) x"
proof (cases "Suc pos = length p")
  case True
  then have "last p = NUL" using assms by (metis diff_Suc_1 last_conv_nth length_0_conv nat.distinct(1))
  with True show ?thesis
    by (auto simp: skip_trailing_lf_def late_lf_def nth_append hd_conv_nth)
next
  case False
  then have lt: "Suc pos < length p" using assms(1) by simp
  have "last p = LF" if "Suc (Suc pos) = length p" "p ! Suc pos = LF"
    using that by (metis diff_Suc_1 last_conv_nth length_0_conv nat.distinct(1))
  with lt show ?thesis
    by (auto simp: skip_trailing_lf_def late_lf_def nth_append)
qed

section \<open>The header loop\<close>

lemma parse_headers_bounds:
  "parse_headers input pos hs = Inr (Some (hs', q)) \<Longrightarrow> pos < q \<and> q \<le> length input"
proof (induction input pos hs rule: parse_headers.induct)
  case (1 input pos hs)
  show ?case
    using "1.prems" "1.IH"
    by (subst (asm) parse_headers.simps)
      (fastforce simp: Let_def split: if_splits option.splits)
qed

lemma parse_headers_append:
  assumes "parse_headers p pos hs \<noteq> Inr None"
  shows "parse_headers (p @ x) pos hs = parse_headers p pos hs"
  using assms
proof (induction p pos hs rule: parse_headers.induct)
  case (1 p pos hs)
  have lt: "pos < length p"
    using "1.prems" by (subst (asm) parse_headers.simps) (simp split: if_splits)
  show ?case
  proof (cases "p ! pos = LF")
    case True
    then show ?thesis
      using lt by (simp add: parse_headers.simps [of _ pos] nth_append)
  next
    case False
    then obtain r where r: "find_byte LF p pos = Some r"
      using "1.prems" lt by (subst (asm) parse_headers.simps) (auto split: option.splits)
    then have line: "subslice (p @ x) pos r = subslice p pos r"
      using find_byte_SomeD(1) [OF r] by (simp add: parse_simps)
    show ?thesis
      using "1.IH" "1.prems" lt False r find_byte_append [OF r, of x] line
      by (simp add: parse_headers.simps [of _ pos] nth_append Let_def split: option.splits)
  qed
qed

section \<open>Bodies\<close>

lemma nul_body_SomeD:
  assumes "nul_body input pos lim cmd hs = Inr (Some (c, h, b, n))"
  shows "pos < n \<and> n \<le> length input \<and> c = cmd \<and> h = hs \<and>
    (\<forall>bs. b = Some bs \<longrightarrow> length bs \<le> lim)"
proof -
  obtain r where r: "find_byte NUL input pos = Some r" and le: "r \<le> lim"
    and eqs: "c = cmd" "h = hs" "n = skip_trailing_lf input (pos + (r + 1))"
      "b = (if subslice input pos r = [] then None else Some (subslice input pos r))"
    using assms by (auto simp: nul_body_def Let_def split: option.splits if_splits)
  then show ?thesis
    using find_byte_SomeD(1) [OF r] skip_trailing_lf_bounds [of "pos + (r + 1)" input] by auto
qed

lemma frame_end:
  "Option.bind (checked_add pos n) (\<lambda>m. checked_add m k) =
     (if pos + n + k < usize_limit then Some (pos + n + k) else None)"
  by (simp add: checked_add_def)

lemma length_body_SomeD:
  assumes "length_body input pos lim cmd hs k = Inr (Some (c, h, b, n))"
  shows "pos < n \<and> n \<le> length input \<and> c = cmd \<and> h = hs \<and>
    b = Some (subslice input pos k) \<and> length (subslice input pos k) = k \<and> k \<le> lim"
  using assms skip_trailing_lf_bounds [of "pos + k + 1" input]
  by (auto simp: length_body_def Let_def frame_end split: if_splits option.splits)

lemma nul_body_append:
  "nul_body p pos lim cmd hs = Inr (Some (c, h, b, n)) \<Longrightarrow>
     nul_body (p @ x) pos lim cmd hs = Inr (Some (c, h, b, late_lf p n x))"
  "nul_body p pos lim cmd hs = Inl e \<Longrightarrow> nul_body (p @ x) pos lim cmd hs = Inl e"
proof -
  have *: "find_byte NUL (p @ x) pos = Some r \<and> subslice (p @ x) pos r = subslice p pos r \<and>
      skip_trailing_lf (p @ x) (Suc (pos + r)) = late_lf p (skip_trailing_lf p (Suc (pos + r))) x"
    if "find_byte NUL p pos = Some r" for r
    using find_byte_SomeD [OF that] find_byte_append [OF that]
    by (simp add: slice_append skip_trailing_lf_append)
  show "nul_body p pos lim cmd hs = Inr (Some (c, h, b, n)) \<Longrightarrow>
     nul_body (p @ x) pos lim cmd hs = Inr (Some (c, h, b, late_lf p n x))"
    by (auto simp: nul_body_def Let_def * split: option.splits if_splits)
  show "nul_body p pos lim cmd hs = Inl e \<Longrightarrow> nul_body (p @ x) pos lim cmd hs = Inl e"
    by (auto simp: nul_body_def Let_def * split: option.splits if_splits)
qed

lemma length_body_append:
  "length_body p pos lim cmd hs k = Inr (Some (c, h, b, n)) \<Longrightarrow>
     length_body (p @ x) pos lim cmd hs k = Inr (Some (c, h, b, late_lf p n x))"
  "length_body p pos lim cmd hs k = Inl e \<Longrightarrow> length_body (p @ x) pos lim cmd hs k = Inl e"
  by (auto simp: length_body_def Let_def slice_append nth_append skip_trailing_lf_append
      frame_end split: if_splits option.splits)

section \<open>Whole frames\<close>

lemma parse_SomeD:
  assumes "parse_frame_slice_bounded input lim = Inr (Some (c, h, b, n))"
  shows "0 < n \<and> n \<le> length input \<and> (\<forall>bs. b = Some bs \<longrightarrow> length bs \<le> lim)"
  using assms
  by (auto simp: parse_frame_slice_bounded_def Let_def
      dest!: nul_body_SomeD length_body_SomeD split: option.splits sum.splits)

text \<open>
  Once the command line is complete, a decision of the parser (a frame or an error) does
  not change when more bytes arrive, except for the optional trailing line feed.
\<close>

lemma parse_append_frame:
  assumes "parse_frame_slice_bounded p lim = Inr (Some (c, h, b, n))"
    and "find_byte LF p (skip_lf p) \<noteq> None"
  shows "parse_frame_slice_bounded (p @ x) lim = Inr (Some (c, h, b, late_lf p n x))"
proof -
  obtain r where r: "find_byte LF p (skip_lf p) = Some r" using assms(2) by blast
  have skip: "skip_lf (p @ x) = skip_lf p"
    using find_byte_SomeD(1) [OF r] by (simp add: skip_lf_append)
  have cmd: "subslice (p @ x) (skip_lf p) r = subslice p (skip_lf p) r"
    using find_byte_SomeD(1) [OF r] by (simp add: parse_simps)
  obtain hs q where hs: "parse_headers p (skip_lf p + (r + 1)) [] = Inr (Some (hs, q))"
    using assms(1) r by (auto simp: parse_frame_slice_bounded_def Let_def split: sum.splits option.splits)
  then have hs': "parse_headers (p @ x) (skip_lf p + (r + 1)) [] = Inr (Some (hs, q))"
    using parse_headers_append [of p "skip_lf p + (r + 1)" "[]" x] by simp
  show ?thesis
    using assms(1) r find_byte_append [OF r, of x] skip cmd hs hs'
    by (auto simp: parse_frame_slice_bounded_def Let_def
        intro: nul_body_append length_body_append split: sum.splits option.splits)
qed

lemma parse_append_error:
  assumes "parse_frame_slice_bounded p lim = Inl e"
    and "find_byte LF p (skip_lf p) \<noteq> None"
  shows "parse_frame_slice_bounded (p @ x) lim = Inl e"
proof -
  obtain r where r: "find_byte LF p (skip_lf p) = Some r" using assms(2) by blast
  have skip: "skip_lf (p @ x) = skip_lf p"
    using find_byte_SomeD(1) [OF r] by (simp add: skip_lf_append)
  have cmd: "subslice (p @ x) (skip_lf p) r = subslice p (skip_lf p) r"
    using find_byte_SomeD(1) [OF r] by (simp add: parse_simps)
  have hs: "parse_headers (p @ x) (skip_lf p + (r + 1)) [] = parse_headers p (skip_lf p + (r + 1)) []"
    using assms(1) r
    by (intro parse_headers_append) (auto simp: parse_frame_slice_bounded_def Let_def)
  show ?thesis
    using assms(1) r find_byte_append [OF r, of x] skip cmd hs
    by (auto simp: parse_frame_slice_bounded_def Let_def
        intro: nul_body_append length_body_append split: sum.splits option.splits)
qed

section \<open>Properties\<close>

text \<open>
  C27. Once the command line is complete, the parser's decision is final: whatever bytes arrive
  later, a frame stays the same frame (its end moves by one only when the first late byte is the
  optional line feed after it), and a protocol error stays the same error.
\<close>

theorem parser_decision_final:
  assumes "find_byte LF p (skip_lf p) \<noteq> None"
  shows "case parse_frame_slice_bounded p lim of
      Inl e \<Rightarrow> parse_frame_slice_bounded (p @ x) lim = Inl e
    | Inr None \<Rightarrow> True
    | Inr (Some (c, h, b, n)) \<Rightarrow>
        0 < n \<and> n \<le> length p \<and> parse_frame_slice_bounded (p @ x) lim = Inr (Some (c, h, b, late_lf p n x))"
proof (cases "parse_frame_slice_bounded p lim")
  case (Inl e)
  with parse_append_error [OF Inl assms] show ?thesis by simp
next
  case (Inr r)
  then show ?thesis
    using parse_append_frame [OF _ assms] parse_SomeD by (cases r) auto
qed

theorem parser_decision_final_witness:
  "parse_frame_slice_bounded (''MESSAGE'' @ [LF, LF, CHR ''x'', NUL] @ [LF, CHR ''A'']) 100 =
     Inr (Some (''MESSAGE'', [], Some ''x'', 12))"
proof -
  let ?p = "''MESSAGE'' @ [LF, LF, CHR ''x'', NUL]"
  have found: "find_byte LF ?p (skip_lf ?p) \<noteq> None" by code_simp
  have here: "parse_frame_slice_bounded ?p 100 = Inr (Some (''MESSAGE'', [], Some ''x'', 11))" by code_simp
  have "late_lf ?p 11 [LF, CHR ''A''] = 12" by code_simp
  then show ?thesis
    using parser_decision_final [OF found, where lim = 100 and x = "[LF, CHR ''A'']"] here by simp
qed

end
