(* ===== verification/Stomp_Codec.thy ===== *)
theory Stomp_Codec
  imports Stomp_Parser
begin

text \<open>
  The codec of \<^verbatim>\<open>src/codec.rs\<close>: header escaping, \<^verbatim>\<open>StompCodec::decode\<close> on the read buffer and
  \<^verbatim>\<open>StompCodec::encode\<close> into the write buffer. The facts: decoding inverts encoding, a strict
  prefix of an encoded frame asks for more bytes, how the stream is cut into reads does not
  matter, and the buffer is bounded by the maximum frame size.
\<close>

datatype stomp_item = Frame frame | Heartbeat

datatype codec_error =
    FrameSizeExceeded nat nat
  | BufferExceeded nat
  | CommandNotUtf8
  | KeyEscape parse_error
  | KeyNotUtf8
  | ValueEscape parse_error
  | ValueNotUtf8
  | ParseError parse_error

section \<open>Escaping\<close>

definition escape_char :: "string \<Rightarrow> string" where
  "escape_char ch =
     (if ch = [BACKSLASH] then [BACKSLASH, BACKSLASH]
      else if ch = [CR] then [BACKSLASH, CHR ''r'']
      else if ch = [LF] then [BACKSLASH, CHR ''n'']
      else if ch = [COLON] then [BACKSLASH, CHR ''c'']
      else ch)"

definition escape_header_value :: "string \<Rightarrow> string" where
  "escape_header_value input = concat (map escape_char (chars input))"

section \<open>Decoding\<close>

fun decode_headers ::
  "(bytes \<times> bytes) list \<Rightarrow> (codec_error, (string \<times> string) list) result" where
  "decode_headers [] = Inr []"
| "decode_headers ((k, v) # hs) =
     (case unescape_header_value k of
        Inl e \<Rightarrow> Inl (KeyEscape e)
      | Inr k' \<Rightarrow>
     (case from_utf8 k' of
        None \<Rightarrow> Inl KeyNotUtf8
      | Some ks \<Rightarrow>
     (case unescape_header_value v of
        Inl e \<Rightarrow> Inl (ValueEscape e)
      | Inr v' \<Rightarrow>
     (case from_utf8 v' of
        None \<Rightarrow> Inl ValueNotUtf8
      | Some vs \<Rightarrow> map_sum id ((#) (ks, vs)) (decode_headers hs)))))"

text \<open>The owned frame built from the parser's pieces.\<close>

definition build_frame ::
  "bytes \<Rightarrow> (bytes \<times> bytes) list \<Rightarrow> bytes option \<Rightarrow> (codec_error, frame) result" where
  "build_frame cmd hs bd =
     (case from_utf8 cmd of
        None \<Rightarrow> Inl CommandNotUtf8
      | Some c \<Rightarrow>
          (case decode_headers hs of
             Inl e \<Rightarrow> Inl e
           | Inr hdrs \<Rightarrow>
               Inr \<lparr>command = c, headers = hdrs, body = (case bd of None \<Rightarrow> [] | Some b \<Rightarrow> b)\<rparr>))"

definition decode_frame ::
  "nat \<Rightarrow> bytes \<Rightarrow> (codec_error, stomp_item option) result \<times> bytes" where
  "decode_frame lim src =
     (case parse_frame_slice_bounded src lim of
        Inr (Some (cmd, hs, bd, consumed)) \<Rightarrow>
          if consumed > lim then (Inl (FrameSizeExceeded consumed lim), src)
          else (map_sum id (\<lambda>f. Some (Frame f)) (build_frame cmd hs bd), drop consumed src)
      | Inr None \<Rightarrow>
          if length src > lim then (Inl (BufferExceeded lim), src) else (Inr None, src)
      | Inl e \<Rightarrow> (Inl (ParseError e), src))"

text \<open>
  \<^verbatim>\<open>StompCodec::decode\<close> with the codec's \<^verbatim>\<open>max_frame_size\<close>: the item (if any) and the buffer
  left behind.
\<close>

definition decode ::
  "nat \<Rightarrow> bytes \<Rightarrow> (codec_error, stomp_item option) result \<times> bytes" where
  "decode lim src =
     (case src of
        [] \<Rightarrow> decode_frame lim src
      | a # r \<Rightarrow>
          if a = LF then (Inr (Some Heartbeat), r)
          else if a = CR then
            (case r of
               [] \<Rightarrow> (Inr None, src)
             | b # r' \<Rightarrow> if b = LF then (Inr (Some Heartbeat), r') else decode_frame lim src)
          else decode_frame lim src)"

text \<open>The codec itself: the bound of its decoder, the argument \<open>lim\<close> above.\<close>

record stomp_codec =
  codec_max_frame_size :: nat

definition codec_with_max_frame_size :: "nat \<Rightarrow> stomp_codec" where
  "codec_with_max_frame_size n = \<lparr>codec_max_frame_size = n\<rparr>"

definition codec_new :: stomp_codec where
  "codec_new = \<lparr>codec_max_frame_size = DEFAULT_MAX_FRAME_SIZE\<rparr>"

definition codec_default :: stomp_codec where
  "codec_default = codec_new"

section \<open>Encoding\<close>

definition has_content_length :: "(string \<times> string) list \<Rightarrow> bool" where
  "has_content_length hs = list_ex (\<lambda>(k, _). to_lowercase k = ''content-length'') hs"

definition wire_headers :: "frame \<Rightarrow> (string \<times> string) list" where
  "wire_headers f =
     (if \<not> has_content_length (headers f) \<and> (NUL \<in> set (body f) \<or> from_utf8 (body f) = None)
      then headers f @ [(''content-length'', show_nat (length (body f)))]
      else headers f)"

definition encode_header :: "string \<times> string \<Rightarrow> bytes" where
  "encode_header h =
     (case h of (k, v) \<Rightarrow> escape_header_value k @ [COLON] @ escape_header_value v @ [LF])"

definition encode :: "stomp_item \<Rightarrow> bytes \<Rightarrow> bytes" where
  "encode item dst =
     (case item of
        Heartbeat \<Rightarrow> dst @ [LF]
      | Frame f \<Rightarrow>
          dst @ command f @ [LF] @ concat (map encode_header (wire_headers f)) @ [LF] @
          body f @ [NUL])"

section \<open>Escaped text\<close>

text \<open>Escaping works on characters; since the four escaped ones are ASCII it is byte-wise.\<close>

definition escape_byte :: "char \<Rightarrow> string" where
  "escape_byte c =
     (if c = BACKSLASH then [BACKSLASH, BACKSLASH]
      else if c = CR then [BACKSLASH, CHR ''r'']
      else if c = LF then [BACKSLASH, CHR ''n'']
      else if c = COLON then [BACKSLASH, CHR ''c'']
      else [c])"

lemma escape_byte_high: "0x80 \<le> byte c \<Longrightarrow> escape_byte c = [c]"
  by (auto simp: escape_byte_def)

lemma concat_escape_high: "\<forall>c\<in>set s. 0x80 \<le> byte c \<Longrightarrow> concat (map escape_byte s) = s"
  by (induction s) (auto simp: escape_byte_high)

lemma escape_char_seq:
  assumes "utf8_seq a t"
  shows "escape_char (a # t) = concat (map escape_byte (a # t))"
proof (cases "t = []")
  case True
  then show ?thesis by (simp add: escape_char_def escape_byte_def)
next
  case False
  then have "\<forall>c\<in>set (a # t). 0x80 \<le> byte c"
    using utf8_seq_high [OF assms] by blast
  then show ?thesis
    using False concat_escape_high [of "a # t"] by (simp add: escape_char_def)
qed

lemma escape_bytewise: "utf8_valid s \<Longrightarrow> escape_header_value s = concat (map escape_byte s)"
proof (induction s rule: utf8_induct)
  case (Char s n)
  obtain a t r where s: "s = a # t @ r" and seq: "utf8_seq a t" and n: "n = Suc (length t)"
    using utf8_width_SomeD [OF Char.hyps(1)] by blast
  have "chars s = (a # t) # chars r"
    using chars_step [OF Char.hyps(1)] unfolding s n by simp
  moreover have "drop n s = r" using s n by simp
  ultimately show ?case
    using Char.IH escape_char_seq [OF seq] s by (simp add: escape_header_value_def)
qed (simp add: escape_header_value_def)

lemma unescape_escape_byte:
  "unescape_header_value (escape_byte c @ r) = map_sum id ((#) c) (unescape_header_value r)"
  by (simp add: escape_byte_def)

lemma unescape_escape_bytes: "unescape_header_value (concat (map escape_byte s)) = Inr s"
  by (induction s) (simp_all add: unescape_escape_byte)

lemma unescape_escape: "utf8_valid s \<Longrightarrow> unescape_header_value (escape_header_value s) = Inr s"
  by (simp add: escape_bytewise unescape_escape_bytes)

lemma escape_byte_no_sep: "c \<in> set (escape_byte d) \<Longrightarrow> c \<noteq> LF \<and> c \<noteq> CR \<and> c \<noteq> COLON"
  by (auto simp: escape_byte_def split: if_splits)

lemma escape_no_sep:
  "utf8_valid s \<Longrightarrow> c \<in> set (escape_header_value s) \<Longrightarrow> c \<noteq> LF \<and> c \<noteq> CR \<and> c \<noteq> COLON"
  by (auto simp: escape_bytewise dest: escape_byte_no_sep)

text \<open>Escaping never makes a header name look like \<^verbatim>\<open>content-length\<close>, nor hides one that is.\<close>

definition plain :: "string \<Rightarrow> bool" where
  "plain s \<longleftrightarrow> BACKSLASH \<notin> set s \<and> CR \<notin> set s \<and> LF \<notin> set s \<and> COLON \<notin> set s"

lemma escape_plain: "plain s \<Longrightarrow> concat (map escape_byte s) = s"
  by (induction s) (auto simp: plain_def escape_byte_def)

lemma escape_not_plain: "\<not> plain s \<Longrightarrow> BACKSLASH \<in> set (concat (map escape_byte s))"
  by (induction s) (auto simp: plain_def escape_byte_def)

lemma byte_of_ascii_lower:
  "byte (ascii_lower d) = (if 0x41 \<le> byte d \<and> byte d \<le> 0x5A then byte d + 32 else byte d)"
  by (simp add: ascii_lower_def)

lemma ascii_lower_special:
  assumes "byte c < 0x41 \<or> (0x5A < byte c \<and> byte c < 0x61)"
  shows "ascii_lower d = c \<longleftrightarrow> d = c"
proof -
  have "byte (ascii_lower d) = byte c \<longleftrightarrow> byte d = byte c"
    using assms unfolding byte_of_ascii_lower by presburger
  then show ?thesis by (simp only: byte_eq_iff)
qed

lemma special_in_lower:
  assumes "byte c < 0x41 \<or> (0x5A < byte c \<and> byte c < 0x61)"
  shows "c \<in> ascii_lower ` A \<longleftrightarrow> c \<in> A"
  by (metis image_iff ascii_lower_special [OF assms])

lemma plain_lower: "plain (map ascii_lower s) = plain s"
  unfolding plain_def set_map by (simp add: special_in_lower)

lemma eq_ignore_ascii_case_escape:
  assumes "utf8_valid k" and "plain key"
  shows "eq_ignore_ascii_case (escape_header_value k) key = eq_ignore_ascii_case k key"
proof (cases "plain k")
  case True
  then show ?thesis using assms(1) by (simp add: escape_bytewise escape_plain)
next
  case False
  then have "\<not> plain (escape_header_value k)"
    using escape_not_plain [of k] assms(1) by (simp add: escape_bytewise plain_def)
  with False assms(2) show ?thesis
    using plain_lower by (metis eq_ignore_ascii_case_def)
qed

section \<open>Header lines\<close>

text \<open>
  What the header loop needs from an escaping: the text it writes holds none of the bytes
  that delimit a line.
\<close>

locale header_text =
  fixes esc :: "string \<Rightarrow> bytes" and ok :: "string \<Rightarrow> bool"
  assumes no_sep: "ok s \<Longrightarrow> c \<in> set (esc s) \<Longrightarrow> c \<noteq> LF \<and> c \<noteq> CR \<and> c \<noteq> COLON"
begin

lemma line_scan:
  assumes "ok k" and "ok v"
  shows "position (\<lambda>b. b = LF) (esc k @ COLON # esc v @ LF # rest) =
      Some (length (esc k) + 1 + length (esc v))"
    and "strip_cr (esc k @ COLON # esc v) = esc k @ COLON # esc v"
    and "position (\<lambda>b. b = COLON) (esc k @ COLON # esc v) = Some (length (esc k))"
proof -
  have "\<forall>b\<in>set (esc k @ COLON # esc v). b \<noteq> LF"
    using no_sep [OF assms(1)] no_sep [OF assms(2)] by auto
  from position_first [where P = "\<lambda>b. b = LF", OF this, of LF rest]
  show "position (\<lambda>b. b = LF) (esc k @ COLON # esc v @ LF # rest) =
      Some (length (esc k) + 1 + length (esc v))" by simp
  have "last (esc k @ COLON # esc v) \<noteq> CR"
    using no_sep [OF assms(2)] last_in_set [of "esc v"] by (cases "esc v = []") auto
  then show "strip_cr (esc k @ COLON # esc v) = esc k @ COLON # esc v"
    by (simp add: strip_cr_def)
  show "position (\<lambda>b. b = COLON) (esc k @ COLON # esc v) = Some (length (esc k))"
    by (rule position_first) (use no_sep [OF assms(1)] in auto)
qed

lemma parse_headers_lines:
  assumes "\<forall>(k, v)\<in>set hs. ok k \<and> ok v"
  shows "parse_headers
      (pre @ concat (map (\<lambda>(k, v). esc k @ COLON # esc v @ [LF]) hs) @ LF # rest) (length pre) acc =
    Inr (Some (acc @ map (\<lambda>(k, v). (esc k, esc v)) hs,
      length pre + length (concat (map (\<lambda>(k, v). esc k @ COLON # esc v @ [LF]) hs)) + 1))"
  using assms
proof (induction hs arbitrary: pre acc)
  case Nil
  then show ?case by (subst parse_headers.simps) (simp add: nth_append)
next
  case (Cons h hs)
  obtain k v where h: "h = (k, v)" and ok: "ok k" "ok v" using Cons.prems by (cases h) auto
  let ?line = "esc k @ COLON # esc v"
  let ?tail = "concat (map (\<lambda>(k, v). esc k @ COLON # esc v @ [LF]) hs) @ LF # rest"
  let ?input = "pre @ ?line @ LF # ?tail"
  have hd: "?input ! length pre \<noteq> LF"
    using no_sep [OF ok(1)] by (cases "esc k") (auto simp: nth_append)
  have find: "find_byte LF ?input (length pre) = Some (length ?line)"
    using line_scan(1) [OF ok, of ?tail] by (simp add: find_byte_def)
  have line: "strip_cr (subslice ?input (length pre) (length ?line)) = ?line"
    using line_scan(2) [OF ok] by (simp add: subslice_def)
  have "parse_headers ?input (length pre) acc =
      parse_headers ?input (length pre + (length ?line + 1)) (acc @ [(esc k, esc v)])"
    using hd find line line_scan(3) [OF ok]
    by (subst parse_headers.simps) (simp add: Let_def)
  also have "\<dots> = parse_headers ((pre @ ?line @ [LF]) @ ?tail) (length (pre @ ?line @ [LF]))
      (acc @ [(esc k, esc v)])"
    by simp
  finally show ?case
    using Cons.IH [of "pre @ ?line @ [LF]" "acc @ [(esc k, esc v)]"] Cons.prems h by simp
qed

end

interpretation esc: header_text escape_header_value utf8_valid
  by unfold_locales (rule escape_no_sep)

section \<open>Encoded frames\<close>

text \<open>
  The frames that survive the wire: a command that is one non-empty line without NUL or a
  trailing CR, and a caller's \<^verbatim>\<open>content-length\<close>, if any, that is the body's length.
  Headers and body are arbitrary.
\<close>

definition wire_safe :: "frame \<Rightarrow> bool" where
  "wire_safe f \<longleftrightarrow>
     frame_valid f \<and> command f \<noteq> [] \<and> LF \<notin> set (command f) \<and> NUL \<notin> set (command f) \<and>
     last (command f) \<noteq> CR \<and>
     (case find_header ''content-length'' (headers f) of
        None \<Rightarrow> True
      | Some v \<Rightarrow>
          parse_unsigned usize_limit (trim (escape_header_value v)) = Some (length (body f)))"

text \<open>What the receiver decodes: the frame with the \<^verbatim>\<open>content-length\<close> the encoder added.\<close>

definition sent_frame :: "frame \<Rightarrow> frame" where
  "sent_frame f = f\<lparr>headers := wire_headers f\<rparr>"

abbreviation escape_pair :: "string \<times> string \<Rightarrow> bytes \<times> bytes" where
  "escape_pair h \<equiv> (case h of (k, v) \<Rightarrow> (escape_header_value k, escape_header_value v))"

definition trail :: "bytes \<Rightarrow> nat" where
  "trail rest = (if rest \<noteq> [] \<and> hd rest = LF then 1 else 0)"

lemma utf8_valid_seq: "utf8_seq a t \<Longrightarrow> utf8_valid (a # t)"
  using utf8_widthI [of a t "[]"] utf8_valid_step [of "a # t" "Suc (length t)"] by simp

lemma utf8_valid_escape_char: "utf8_seq a t \<Longrightarrow> utf8_valid (escape_char (a # t))"
  by (auto simp: escape_char_def utf8_valid_seq)

lemma utf8_valid_escape: "utf8_valid s \<Longrightarrow> utf8_valid (escape_header_value s)"
proof (induction s rule: utf8_induct)
  case (Char s n)
  obtain a t r where s: "s = a # t @ r" and seq: "utf8_seq a t" and n: "n = Suc (length t)"
    using utf8_width_SomeD [OF Char.hyps(1)] by blast
  have "chars s = (a # t) # chars r"
    using chars_step [OF Char.hyps(1)] unfolding s n by simp
  then have "escape_header_value s = escape_char (a # t) @ escape_header_value r"
    by (simp add: escape_header_value_def)
  moreover have "drop n s = r" using s n by simp
  ultimately show ?case
    using Char.IH utf8_valid_escape_char [OF seq] by (simp add: utf8_valid_append)
qed (simp add: escape_header_value_def)

lemma content_length_name:
  "map ascii_lower ''content-length'' = ''content-length''" "plain ''content-length''"
  "is_ascii ''content-length''" "CHR ''k'' \<notin> set ''content-length''"
  by (simp_all add: ascii_lower_def plain_def is_ascii_def)

lemma has_content_length_iff:
  assumes "list_all (\<lambda>(k, v). utf8_valid k \<and> utf8_valid v) hs"
  shows "has_content_length hs \<longleftrightarrow> find_header ''content-length'' hs \<noteq> None"
  using assms
proof (induction hs)
  case (Cons h hs)
  then show ?case
    using to_lowercase_eq_ascii [OF _ content_length_name(3,4), of "fst h"]
    by (cases h) (simp add: has_content_length_def eq_ignore_ascii_case_def content_length_name(1)
        del: list.map(2))
qed (simp add: has_content_length_def)

lemma get_content_length_escaped:
  assumes "list_all (\<lambda>(k, v). utf8_valid k \<and> utf8_valid v) hs"
  shows "get_content_length (map escape_pair hs) =
    (case find_header ''content-length'' hs of
       None \<Rightarrow> Inr None
     | Some v \<Rightarrow>
         let s = trim (escape_header_value v) in
         if s = [] then Inl EmptyContentLength
         else case parse_unsigned usize_limit s of
           Some n \<Rightarrow> Inr (Some n) | None \<Rightarrow> Inl (InvalidContentLength s))"
  using assms
proof (induction hs)
  case (Cons h hs)
  then show ?case
    using eq_ignore_ascii_case_escape [OF _ content_length_name(2), of "fst h"]
    by (cases h) (simp add: from_utf8_def utf8_valid_escape Let_def)
qed simp

lemma decode_headers_escaped:
  "list_all (\<lambda>(k, v). utf8_valid k \<and> utf8_valid v) hs \<Longrightarrow>
     decode_headers (map escape_pair hs) = Inr hs"
  by (induction hs) (auto simp: unescape_escape from_utf8_def)

lemma wire_headers_valid:
  "frame_valid f \<Longrightarrow> list_all (\<lambda>(k, v). utf8_valid k \<and> utf8_valid v) (wire_headers f)"
  by (auto simp: wire_headers_def frame_valid_def is_ascii_valid content_length_name)

lemma sent_frame_valid: "frame_valid f \<Longrightarrow> frame_valid (sent_frame f)"
  using wire_headers_valid [of f] by (simp add: sent_frame_def frame_valid_def)

lemma skip_trailing_lf_at:
  "skip_trailing_lf (pre @ rest) (length pre) = length pre + trail rest"
  by (cases rest) (auto simp: skip_trailing_lf_def trail_def nth_append)

lemma nul_body_at:
  assumes "NUL \<notin> set b" and "length b \<le> lim"
  shows "nul_body (pre @ b @ NUL # rest) (length pre) lim cmd hs =
    Inr (Some (cmd, hs, if b = [] then None else Some b, length pre + length b + 1 + trail rest))"
proof -
  have "position (\<lambda>x. x = NUL) (b @ NUL # rest) = Some (length b)"
    using assms(1) by (intro position_first) auto
  moreover have "skip_trailing_lf (pre @ b @ NUL # rest) (length pre + (length b + 1)) =
      length pre + length b + 1 + trail rest"
    using skip_trailing_lf_at [of "pre @ b @ [NUL]" rest] by simp
  ultimately show ?thesis
    using assms(2) by (simp add: nul_body_def find_byte_def subslice_def)
qed

lemma length_body_at:
  assumes "length b \<le> lim" and "length pre + length b + 1 < usize_limit"
  shows "length_body (pre @ b @ NUL # rest) (length pre) lim cmd hs (length b) =
    Inr (Some (cmd, hs, Some b, length pre + length b + 1 + trail rest))"
proof -
  have "skip_trailing_lf (pre @ b @ NUL # rest) (length pre + length b + 1) =
      length pre + length b + 1 + trail rest"
    using skip_trailing_lf_at [of "pre @ b @ [NUL]" rest] by simp
  then show ?thesis
    using assms by (simp add: length_body_def frame_end subslice_def nth_append Let_def)
qed

section \<open>Decoding inverts encoding\<close>

lemma encode_Frame:
  "encode (Frame f) [] = command f @ LF # concat (map encode_header (wire_headers f)) @
     LF # body f @ [NUL]"
  by (simp add: encode_def)

lemma encode_append: "encode item dst = dst @ encode item []"
  by (cases item) (simp_all add: encode_def)

lemma encode_header_pair:
  "encode_header = (\<lambda>(k, v). escape_header_value k @ COLON # escape_header_value v @ [LF])"
  by (auto simp: encode_header_def)

text \<open>The body the parser returns, as an option, for an encoded body.\<close>

definition body_opt :: "bytes option \<Rightarrow> bytes" where
  "body_opt bd = (case bd of None \<Rightarrow> [] | Some b \<Rightarrow> b)"

lemma wire_headers_content_length:
  assumes "wire_safe f" and "length (body f) < usize_limit"
  shows "get_content_length (map escape_pair (wire_headers f)) = Inr (Some (length (body f))) \<or>
    (get_content_length (map escape_pair (wire_headers f)) = Inr None \<and> NUL \<notin> set (body f))"
proof -
  have valid: "list_all (\<lambda>(k, v). utf8_valid k \<and> utf8_valid v) (wire_headers f)"
    "list_all (\<lambda>(k, v). utf8_valid k \<and> utf8_valid v) (headers f)"
    using assms(1) wire_headers_valid by (auto simp: wire_safe_def frame_valid_def)
  show ?thesis
  proof (cases "find_header ''content-length'' (headers f)")
    case (Some v)
    then have w: "wire_headers f = headers f"
      using has_content_length_iff [OF valid(2)] by (simp add: wire_headers_def)
    have p: "parse_unsigned usize_limit (trim (escape_header_value v)) = Some (length (body f))"
      using assms(1) Some by (simp add: wire_safe_def)
    then have "trim (escape_header_value v) \<noteq> []"
      by (auto simp: parse_unsigned_def)
    with p show ?thesis
      using get_content_length_escaped [OF valid(1)] Some w by (simp add: Let_def)
  next
    case None
    let ?n = "show_nat (length (body f))"
    show ?thesis
    proof (cases "NUL \<in> set (body f) \<or> from_utf8 (body f) = None")
      case True
      then have "wire_headers f = headers f @ [(''content-length'', ?n)]"
        using None has_content_length_iff [OF valid(2)] by (simp add: wire_headers_def)
      then have found: "find_header ''content-length'' (wire_headers f) = Some ?n"
        using None by (simp add: find_header_append)
      have "plain ?n"
        using show_nat_byte [of _ "length (body f)"] by (fastforce simp: plain_def)
      then have "escape_header_value ?n = ?n"
        by (simp add: escape_bytewise is_ascii_valid escape_plain)
      with found show ?thesis
        using get_content_length_escaped [OF valid(1)] parse_unsigned_show [OF assms(2)]
        by (simp add: Let_def)
    next
      case False
      then have "wire_headers f = headers f" by (auto simp: wire_headers_def)
      then show ?thesis
        using get_content_length_escaped [OF valid(1)] None False by simp
    qed
  qed
qed

lemma parse_encoded:
  assumes "wire_safe f" and "length (encode (Frame f) []) \<le> lim" and "lim < usize_limit"
  shows "\<exists>bd. parse_frame_slice_bounded (encode (Frame f) [] @ rest) lim =
      Inr (Some (command f, map escape_pair (wire_headers f), bd,
        length (encode (Frame f) []) + trail rest)) \<and> body_opt bd = body f"
proof -
  let ?c = "command f" and ?b = "body f" and ?hs = "wire_headers f"
  let ?H = "concat (map encode_header ?hs)"
  let ?input = "encode (Frame f) [] @ rest"
  let ?pre = "?c @ LF # ?H @ [LF]"
  have input: "?input = ?c @ LF # ?H @ LF # ?b @ NUL # rest"
    "?input = ?pre @ ?b @ NUL # rest"
    by (simp_all add: encode_Frame)
  have len: "length (encode (Frame f) []) = length ?pre + length ?b + 1"
    by (simp add: encode_Frame)
  have c: "?c \<noteq> []" "LF \<notin> set ?c" "last ?c \<noteq> CR"
    using assms(1) by (simp_all add: wire_safe_def)
  then have "hd ?c \<noteq> LF" by (metis hd_in_set)
  then have skip: "skip_lf ?input = 0"
    unfolding input(1) using c(1) by (intro skip_lf_0) simp
  have find: "find_byte LF ?input 0 = Some (length ?c)"
    unfolding input(1) find_byte_def using c(2) by (auto intro!: position_first)
  have cmd: "strip_cr (subslice ?input 0 (length ?c)) = ?c"
    unfolding input(1) using c(3) by (simp add: subslice_def strip_cr_def)
  have "\<forall>(k, v)\<in>set ?hs. utf8_valid k \<and> utf8_valid v"
    using wire_headers_valid assms(1) by (auto simp: wire_safe_def list_all_iff)
  from esc.parse_headers_lines [OF this, of "?c @ [LF]" "?b @ NUL # rest" "[]"]
  obtain q where q: "q = length ?pre"
    and hdrs: "parse_headers ?input (length ?c + 1) [] = Inr (Some (map escape_pair ?hs, q))"
    unfolding input(1) by (simp add: encode_header_pair)
  have b: "length ?b \<le> lim" "length ?b < usize_limit" "length ?pre + length ?b + 1 < usize_limit"
    using assms(2,3) len by simp_all
  have parse: "parse_frame_slice_bounded ?input lim =
      (case get_content_length (map escape_pair ?hs) of
         Inl e \<Rightarrow> Inl e
       | Inr (Some n) \<Rightarrow> length_body ?input q lim ?c (map escape_pair ?hs) n
       | Inr None \<Rightarrow> nul_body ?input q lim ?c (map escape_pair ?hs))"
    using skip find cmd hdrs by (simp add: parse_frame_slice_bounded_def Let_def)
  from wire_headers_content_length [OF assms(1) b(2)] show ?thesis
  proof
    assume cl: "get_content_length (map escape_pair ?hs) = Inr (Some (length ?b))"
    show ?thesis
      using parse cl length_body_at [OF b(1,3), of rest ?c "map escape_pair ?hs"]
      unfolding input(2) len q by (simp add: body_opt_def)
  next
    assume cl: "get_content_length (map escape_pair ?hs) = Inr None \<and> NUL \<notin> set ?b"
    then show ?thesis
      using parse nul_body_at [OF _ b(1), of ?pre rest ?c "map escape_pair ?hs"]
      unfolding input(2) len q by (simp add: body_opt_def)
  qed
qed

lemma decode_not_heartbeat:
  assumes "src \<noteq> []" and "hd src \<noteq> LF" and "hd src = CR \<Longrightarrow> tl src \<noteq> [] \<and> hd (tl src) \<noteq> LF"
  shows "decode lim src = decode_frame lim src"
  using assms by (auto simp: decode_def split: list.splits)

lemma decode_encoded:
  assumes "wire_safe f" and "length (encode (Frame f) []) + trail rest \<le> lim"
    and "lim < usize_limit"
  shows "decode lim (encode (Frame f) [] @ rest) =
    (Inr (Some (Frame (sent_frame f))), drop (trail rest) rest)"
proof -
  let ?E = "encode (Frame f) []"
  obtain bd where parse: "parse_frame_slice_bounded (?E @ rest) lim =
      Inr (Some (command f, map escape_pair (wire_headers f), bd, length ?E + trail rest))"
    and bd: "body_opt bd = body f"
    using parse_encoded [OF assms(1) _ assms(3)] assms(2) by fastforce
  have valid: "frame_valid f" using assms(1) by (simp add: wire_safe_def)
  have "build_frame (command f) (map escape_pair (wire_headers f)) bd = Inr (sent_frame f)"
    using bd valid decode_headers_escaped [OF wire_headers_valid [OF valid]]
    by (simp add: build_frame_def from_utf8_def frame_valid_def sent_frame_def body_opt_def)
  then have frame: "decode_frame lim (?E @ rest) =
      (Inr (Some (Frame (sent_frame f))), drop (trail rest) rest)"
    using parse assms(2) by (simp add: decode_frame_def)
  have c: "command f \<noteq> []" "LF \<notin> set (command f)" "last (command f) \<noteq> CR"
    using assms(1) by (simp_all add: wire_safe_def)
  have "decode lim (?E @ rest) = decode_frame lim (?E @ rest)"
  proof (rule decode_not_heartbeat)
    show "hd (?E @ rest) = CR \<Longrightarrow> tl (?E @ rest) \<noteq> [] \<and> hd (tl (?E @ rest)) \<noteq> LF"
      using c by (cases "command f"; cases "tl (command f)") (auto simp: encode_Frame)
  qed (use c in \<open>cases "command f"; auto simp: encode_Frame\<close>)+
  with frame show ?thesis by simp
qed

section \<open>Progress and bounds\<close>

lemma decode_cases:
  obtains (lf) r where "src = LF # r" "decode lim src = (Inr (Some Heartbeat), r)"
  | (crlf) r where "src = CR # LF # r" "decode lim src = (Inr (Some Heartbeat), r)"
  | (cr) "src = [CR]" "decode lim src = (Inr None, src)"
  | (frame) "decode lim src = decode_frame lim src"
proof (cases src)
  case Nil
  then show ?thesis by (intro frame) (simp add: decode_def)
next
  case (Cons a r)
  show ?thesis
  proof (cases "a = LF")
    case True
    with Cons show ?thesis by (intro lf) (simp_all add: decode_def)
  next
    case False
    show ?thesis
    proof (cases "a = CR")
      case CR: True
      show ?thesis
      proof (cases r)
        case Nil
        with Cons CR show ?thesis by (intro cr) (simp_all add: decode_def)
      next
        case (Cons b r')
        with \<open>src = a # r\<close> CR False show ?thesis
          by (cases "b = LF") (auto simp: decode_def intro: crlf frame)
      qed
    next
      case nCR: False
      with Cons False show ?thesis by (intro frame) (simp add: decode_def)
    qed
  qed
qed

lemma decode_frame_ItemD:
  assumes "decode_frame lim src = (Inr (Some item), r)"
  shows "\<exists>cmd hs bd n f. parse_frame_slice_bounded src lim = Inr (Some (cmd, hs, bd, n)) \<and>
    n \<le> lim \<and> r = drop n src \<and> build_frame cmd hs bd = Inr f \<and> item = Frame f"
  using assms
  by (auto simp: decode_frame_def split: sum.splits option.splits if_splits)

lemma decode_frame_NoneD:
  "decode_frame lim src = (Inr None, r) \<Longrightarrow>
     r = src \<and> length src \<le> lim \<and> parse_frame_slice_bounded src lim = Inr None"
  by (auto simp: decode_frame_def split: sum.splits option.splits if_splits)

lemma decode_item_progress:
  assumes "decode lim src = (Inr (Some item), r)"
  shows "\<exists>n. 0 < n \<and> n \<le> length src \<and> r = drop n src"
  using assms
proof (cases rule: decode_cases [where src = src and lim = lim])
  case frame
  with assms show ?thesis
    by (fastforce dest!: decode_frame_ItemD dest: parse_SomeD)
next
  case (crlf q)
  with assms show ?thesis by (intro exI [of _ 2]) auto
qed (use assms in \<open>auto intro!: exI [of _ 1]\<close>)

lemma decode_wait:
  assumes "decode lim src = (Inr None, r)"
  shows "r = src \<and> (length src \<le> lim \<or> src = [CR])"
  using assms
  by (cases rule: decode_cases [where src = src and lim = lim])
    (auto dest: decode_frame_NoneD)

lemma build_frame_body: "build_frame cmd hs bd = Inr f \<Longrightarrow> body f = body_opt bd"
  by (auto simp: build_frame_def body_opt_def split: option.splits sum.splits)

lemma decode_frame_bounds:
  "case decode_frame lim src of
     (Inr None, r) \<Rightarrow> r = src \<and> (length src \<le> lim \<or> src = [CR])
   | (Inr (Some item), r) \<Rightarrow>
       \<exists>n. 0 < n \<and> n \<le> length src \<and> r = drop n src \<and>
         (case item of Heartbeat \<Rightarrow> n \<le> 2 | Frame f \<Rightarrow> n \<le> lim \<and> length (body f) \<le> lim)
   | (Inl e, r) \<Rightarrow> \<exists>n. r = drop n src"
proof (cases "parse_frame_slice_bounded src lim")
  case (Inl e)
  then show ?thesis by (auto simp: decode_frame_def intro!: exI [of _ 0])
next
  case (Inr res)
  show ?thesis
  proof (cases res)
    case None
    with Inr show ?thesis by (auto simp: decode_frame_def intro!: exI [of _ 0])
  next
    case (Some q)
    obtain c h b n where q: "q = (c, h, b, n)" by (cases q)
    have parse: "parse_frame_slice_bounded src lim = Inr (Some (c, h, b, n))"
      using Inr Some q by simp
    note bounds = parse_SomeD [OF parse]
    have body: "length (body_opt b) \<le> lim" using bounds by (auto simp: body_opt_def split: option.split)
    show ?thesis
    proof (cases "build_frame c h b")
      case (Inl e)
      with parse show ?thesis
        by (auto simp: decode_frame_def intro: exI [of _ 0] exI [of _ n])
    next
      case (Inr f)
      with parse bounds body build_frame_body [OF Inr] show ?thesis
        by (cases "lim < n") (auto simp: decode_frame_def intro: exI [of _ 0] exI [of _ n])
    qed
  qed
qed

section \<open>Reading a stream in pieces\<close>

text \<open>
  The reader calls the decoder until it asks for more bytes; then the next read is
  appended to what is left. \<open>drain\<close> is one such run over a buffer (its fuel bounds the
  number of items), \<open>feed\<close> the whole sequence of reads.
\<close>

fun drain ::
  "(bytes \<Rightarrow> ('e, 'i option) result \<times> bytes) \<Rightarrow> nat \<Rightarrow> bytes \<Rightarrow> 'i list \<times> ('e, bytes) result" where
  "drain dec 0 buf = ([], Inr buf)"
| "drain dec (Suc n) buf =
     (case dec buf of
        (Inl e, _) \<Rightarrow> ([], Inl e)
      | (Inr None, b) \<Rightarrow> ([], Inr b)
      | (Inr (Some i), b) \<Rightarrow> (case drain dec n b of (is, r) \<Rightarrow> (i # is, r)))"

fun feed ::
  "(bytes \<Rightarrow> ('e, 'i option) result \<times> bytes) \<Rightarrow> bytes \<Rightarrow> bytes list \<Rightarrow>
   'i list \<times> ('e, bytes) result" where
  "feed dec buf [] = ([], Inr buf)"
| "feed dec buf (c # cs) =
     (case drain dec (Suc (length (buf @ c))) (buf @ c) of
        (is, Inl e) \<Rightarrow> (is, Inl e)
      | (is, Inr b) \<Rightarrow> (case feed dec b cs of (is', r) \<Rightarrow> (is @ is', r)))"

text \<open>
  The contract of a framing codec towards the reader: an encoded value followed by
  anything that does not begin with a line feed decodes to its image and leaves the rest,
  and a strict prefix of an encoding asks for more.
\<close>

locale framing =
  fixes enc :: "'a \<Rightarrow> bytes" and dec :: "bytes \<Rightarrow> ('e, 'i option) result \<times> bytes"
    and ok :: "'a \<Rightarrow> bool" and img :: "'a \<Rightarrow> 'i"
  assumes enc_start: "ok a \<Longrightarrow> enc a \<noteq> [] \<and> hd (enc a) \<noteq> LF"
    and dec_enc: "ok a \<Longrightarrow> rest = [] \<or> hd rest \<noteq> LF \<Longrightarrow> dec (enc a @ rest) = (Inr (Some (img a)), rest)"
    and dec_prefix: "ok a \<Longrightarrow> strict_prefix p (enc a) \<Longrightarrow> dec p = (Inr None, p)"
    and dec_Nil: "dec [] = (Inr None, [])"
begin

abbreviation stream :: "'a list \<Rightarrow> bytes" where
  "stream as \<equiv> concat (map enc as)"

lemma stream_start: "list_all ok as \<Longrightarrow> stream as = [] \<or> hd (stream as) \<noteq> LF"
  by (cases as) (auto dest: enc_start)

lemma length_stream: "list_all ok as \<Longrightarrow> length as \<le> length (stream as)"
proof (induction as)
  case (Cons a as)
  then have "0 < length (enc a)" using enc_start by auto
  with Cons show ?case by (simp del: length_greater_0_conv)
qed simp

lemma prefix_start: "ok a \<Longrightarrow> strict_prefix p (enc a) \<Longrightarrow> p = [] \<or> hd p \<noteq> LF"
  using enc_start [of a] by (metis hd_append2 prefix_def strict_prefix_def)

lemma drain_stream:
  assumes "list_all ok as" and "p = [] \<or> (\<exists>a. ok a \<and> strict_prefix p (enc a))"
    and "length as < n"
  shows "drain dec n (stream as @ p) = (map img as, Inr p)"
  using assms
proof (induction as arbitrary: n)
  case Nil
  then obtain m where "n = Suc m" by (cases n) auto
  with Nil show ?case using dec_prefix dec_Nil by auto
next
  case (Cons a as)
  then obtain m where n: "n = Suc m" and m: "length as < m" by (cases n) auto
  have p: "p = [] \<or> hd p \<noteq> LF"
    using Cons.prems(2) prefix_start by blast
  have "stream as @ p = [] \<or> hd (stream as @ p) \<noteq> LF"
    using stream_start [of as] p Cons.prems(1) by (auto simp: hd_append)
  then have "dec (enc a @ (stream as @ p)) = (Inr (Some (img a)), stream as @ p)"
    using Cons.prems(1) by (intro dec_enc) auto
  then show ?case
    using Cons.IH [of m] Cons.prems n m by simp
qed

text \<open>A prefix of a stream is some whole encodings and a strict prefix of the next one.\<close>

lemma prefix_stream:
  assumes "prefix b (stream as)"
  obtains as1 as2 p where "as = as1 @ as2" "b = stream as1 @ p"
    "p = [] \<or> (as2 \<noteq> [] \<and> strict_prefix p (enc (hd as2)))"
  using assms
proof (induction as arbitrary: b thesis)
  case Nil
  then show ?case by simp
next
  case (Cons a as)
  show ?case
  proof (cases "prefix (enc a) b")
    case True
    then obtain b' where b': "b = enc a @ b'" by (auto simp: prefix_def)
    then have "prefix b' (stream as)" using Cons.prems(2) by simp
    then obtain as1 as2 p where "as = as1 @ as2" "b' = stream as1 @ p"
      "p = [] \<or> (as2 \<noteq> [] \<and> strict_prefix p (enc (hd as2)))"
      using Cons.IH by blast
    then show ?thesis
      using b' by (intro Cons.prems(1) [of "a # as1" as2 p]) simp_all
  next
    case False
    then have "strict_prefix b (enc a)"
      using Cons.prems(2) by (auto simp: prefix_append strict_prefix_def prefix_def append_eq_append_conv2)
    then show ?thesis
      by (intro Cons.prems(1) [of "[]" "a # as" b]) simp_all
  qed
qed

lemma feed_stream:
  assumes "list_all ok as" and "buf @ concat chunks = stream as"
    and "buf = [] \<or> (as \<noteq> [] \<and> strict_prefix buf (enc (hd as)))"
  shows "feed dec buf chunks = (map img as, Inr [])"
  using assms
proof (induction chunks arbitrary: buf as)
  case Nil
  have "as = []"
  proof (rule ccontr)
    assume "as \<noteq> []"
    then obtain a bs where as: "as = a # bs" by (cases as) auto
    then have "length (enc a) \<le> length buf" using Nil(2) by simp
    moreover have "0 < length (enc a)" using enc_start [of a] Nil(1) as by simp
    ultimately show False
      using Nil(3) as prefix_length_less by fastforce
  qed
  with Nil show ?case by simp
next
  case (Cons c cs)
  then have "prefix (buf @ c) (stream as)" by (simp add: prefix_def) metis
  then obtain as1 as2 p where as: "as = as1 @ as2" and b: "buf @ c = stream as1 @ p"
    and p: "p = [] \<or> (as2 \<noteq> [] \<and> strict_prefix p (enc (hd as2)))"
    by (rule prefix_stream)
  have ok: "list_all ok as1" "list_all ok as2" using Cons.prems(1) as by simp_all
  have "length as1 < Suc (length (buf @ c))"
    using length_stream [OF ok(1)] b by (simp add: less_Suc_eq_le)
  moreover have "p = [] \<or> (\<exists>a. ok a \<and> strict_prefix p (enc a))"
    using p ok(2) by (cases as2) auto
  ultimately have drain: "drain dec (Suc (length (buf @ c))) (buf @ c) = (map img as1, Inr p)"
    unfolding b using ok(1) by (intro drain_stream)
  have "(buf @ c) @ concat cs = stream as1 @ stream as2"
    using Cons.prems(2) as by simp
  then have "p @ concat cs = stream as2" unfolding b by simp
  then have "feed dec p cs = (map img as2, Inr [])"
    using ok(2) p by (intro Cons.IH)
  then show ?case using drain as by simp
qed

end

section \<open>The codec is a framing\<close>

lemma parse_no_command_line:
  assumes "LF \<notin> set p" and "NUL \<notin> set p"
  shows "parse_frame_slice_bounded p lim = Inr None"
proof -
  have skip: "skip_lf p = 0"
    using assms(1) by (intro skip_lf_0) (metis hd_in_set)
  have "find_byte LF p 0 = None" "find_byte NUL p 0 = None"
    using assms by (auto simp: find_byte_def position_None)
  with skip show ?thesis by (simp add: parse_frame_slice_bounded_def nul_body_def)
qed

lemma parse_prefix_waits:
  assumes "wire_safe f" and "strict_prefix p (encode (Frame f) [])"
    and "length (encode (Frame f) []) \<le> lim" and "lim < usize_limit"
  shows "parse_frame_slice_bounded p lim = Inr None"
proof -
  let ?E = "encode (Frame f) []"
  obtain x where x: "?E = p @ x" "x \<noteq> []"
    using assms(2) by (auto simp: strict_prefix_def prefix_def)
  show ?thesis
  proof (cases "find_byte LF p (skip_lf p)")
    case None
    have c: "command f \<noteq> []" "LF \<notin> set (command f)" "NUL \<notin> set (command f)"
      using assms(1) by (simp_all add: wire_safe_def)
    have "p = [] \<or> hd p \<noteq> LF"
      using x c by (cases p; cases "command f") (auto simp: encode_Frame)
    then have "skip_lf p = 0" by (intro skip_lf_0) auto
    then have "LF \<notin> set p"
      using None by (auto simp: find_byte_def position_None)
    then have "prefix p (command f)"
      using x(1) by (auto simp: encode_Frame prefix_def append_eq_append_conv2 Cons_eq_append_conv)
    then have "NUL \<notin> set p"
      using c(3) by (auto dest: set_mono_prefix)
    with \<open>LF \<notin> set p\<close> show ?thesis by (rule parse_no_command_line)
  next
    case (Some r)
    then have found: "find_byte LF p (skip_lf p) \<noteq> None" by simp
    obtain bd where whole: "parse_frame_slice_bounded (p @ x) lim =
        Inr (Some (command f, map escape_pair (wire_headers f), bd, length ?E))"
      using parse_encoded [OF assms(1,3,4), of "[]"] x by (auto simp: trail_def)
    show ?thesis
    proof (cases "parse_frame_slice_bounded p lim")
      case (Inl e)
      then show ?thesis using parse_append_error [OF Inl found, of x] whole by simp
    next
      case (Inr res)
      show ?thesis
      proof (cases res)
        case None
        with Inr show ?thesis by simp
      next
        case (Some q)
        then obtain c h b n where q: "parse_frame_slice_bounded p lim = Inr (Some (c, h, b, n))"
          using Inr by (cases q) auto
        have "late_lf p n x = length ?E"
          using parse_append_frame [OF q found, of x] whole by simp
        moreover have "n \<le> length p" using parse_SomeD [OF q] by simp
        moreover have "last ?E = NUL" by (simp add: encode_Frame)
        ultimately show ?thesis
          using x by (cases x) (auto simp: late_lf_def split: if_splits)
      qed
    qed
  qed
qed

lemma decode_prefix_waits:
  assumes "wire_safe f" and "strict_prefix p (encode (Frame f) [])"
    and "length (encode (Frame f) []) \<le> lim" and "lim < usize_limit"
  shows "decode lim p = (Inr None, p)"
proof -
  have "length p \<le> lim" using assms(2,3) prefix_length_less by fastforce
  then have frame: "decode_frame lim p = (Inr None, p)"
    using parse_prefix_waits [OF assms] by (simp add: decode_frame_def)
  obtain x where x: "encode (Frame f) [] = p @ x"
    using assms(2) by (auto simp: strict_prefix_def prefix_def)
  have c: "command f \<noteq> []" "LF \<notin> set (command f)" "last (command f) \<noteq> CR"
    using assms(1) by (simp_all add: wire_safe_def)
  show ?thesis
  proof (cases rule: decode_cases [where src = p and lim = lim])
    case (lf r)
    then show ?thesis using x c by (cases "command f") (auto simp: encode_Frame)
  next
    case (crlf r)
    then show ?thesis
      using x c by (cases "command f"; cases "tl (command f)") (auto simp: encode_Frame)
  qed (use frame in auto)
qed

definition sendable :: "nat \<Rightarrow> frame \<Rightarrow> bool" where
  "sendable lim f \<longleftrightarrow> wire_safe f \<and> length (encode (Frame f) []) \<le> lim \<and> lim < usize_limit"

interpretation codec: framing "\<lambda>f. encode (Frame f) []" "decode lim" "sendable lim"
  "\<lambda>f. Frame (sent_frame f)" for lim
proof unfold_locales
  fix a rest
  assume a: "sendable lim a"
  then have c: "command a \<noteq> []" "LF \<notin> set (command a)"
    by (simp_all add: sendable_def wire_safe_def)
  then have "hd (command a) \<noteq> LF" by (metis hd_in_set)
  with c show "encode (Frame a) [] \<noteq> [] \<and> hd (encode (Frame a) []) \<noteq> LF"
    by (simp add: encode_Frame)
  assume "rest = [] \<or> hd rest \<noteq> LF"
  then have "trail rest = 0" by (auto simp: trail_def)
  with a show "decode lim (encode (Frame a) [] @ rest) = (Inr (Some (Frame (sent_frame a))), rest)"
    using decode_encoded [of a rest lim] by (simp add: sendable_def)
next
  fix a p
  assume "sendable lim a" and "strict_prefix p (encode (Frame a) [])"
  then show "decode lim p = (Inr None, p)"
    using decode_prefix_waits [of a p lim] by (simp add: sendable_def)
next
  show "decode lim [] = (Inr None, [])"
    by (simp add: decode_def decode_frame_def parse_no_command_line)
qed

section \<open>Properties\<close>

text \<open>
  Escaping a header text and unescaping it gives the text back, for every text, and the
  escaped form holds none of the bytes that delimit header lines (LF, CR, colon).
\<close>

theorem escape_roundtrip:
  assumes "utf8_valid s"
  shows "unescape_header_value (escape_header_value s) = Inr s \<and>
    set (escape_header_value s) \<inter> {LF, CR, COLON} = {}"
  using unescape_escape [OF assms] escape_no_sep [OF assms] by auto

theorem escape_roundtrip_witness:
  "unescape_header_value (escape_header_value ''a:b'') = Inr ''a:b'' \<and>
   set (escape_header_value ''a:b'') \<inter> {LF, CR, COLON} = {}"
  by (rule escape_roundtrip) code_simp

text \<open>
  A frame that is written and read back: decoding its encoding, whatever bytes follow, yields
  the frame (with the \<^verbatim>\<open>content-length\<close> header the encoder added when the body needs one) and
  leaves exactly the following bytes, less one optional line feed; decoding any strict prefix of
  the encoding asks for more bytes and consumes nothing.
\<close>

theorem encoded_frame_decodes:
  assumes "wire_safe f" and "length (encode (Frame f) []) + trail rest \<le> lim"
    and "lim < usize_limit"
  shows "decode lim (encode (Frame f) [] @ rest) =
      (Inr (Some (Frame (sent_frame f))), drop (trail rest) rest) \<and>
    (strict_prefix p (encode (Frame f) []) \<longrightarrow> decode lim p = (Inr None, p))"
  using decode_encoded [OF assms] decode_prefix_waits [OF assms(1) _ _ assms(3)] assms(2) by simp

definition demo_frame :: frame where
  "demo_frame = \<lparr>command = ''SEND'', headers = [(''destination'', ''/queue/a:b'')], body = [NUL, CHR ''x'']\<rparr>"

lemma sendable_demo: "sendable 1000 demo_frame"
  unfolding sendable_def by code_simp

theorem encoded_frame_decodes_witness:
  "decode 1000 (encode (Frame demo_frame) [] @ [LF, CHR ''A'']) =
     (Inr (Some (Frame (sent_frame demo_frame))), ''A'') \<and>
   strict_prefix ''SEND'' (encode (Frame demo_frame) []) \<and> decode 1000 ''SEND'' = (Inr None, ''SEND'')"
proof -
  have p: "strict_prefix ''SEND'' (encode (Frame demo_frame) [])"
    by (simp add: strict_prefix_def prefix_def encode_def demo_frame_def)
  have "decode 1000 (encode (Frame demo_frame) [] @ [LF, CHR ''A'']) =
      (Inr (Some (Frame (sent_frame demo_frame))), drop (trail [LF, CHR ''A'']) [LF, CHR ''A'']) \<and>
    (strict_prefix ''SEND'' (encode (Frame demo_frame) []) \<longrightarrow> decode 1000 ''SEND'' = (Inr None, ''SEND''))"
    by (rule encoded_frame_decodes) code_simp+
  then show ?thesis using p by (simp add: trail_def)
qed

text \<open>
  C8. How the stream is cut into reads does not matter. Take frames that the wire can carry: the
  command is one non-empty line without NUL or a trailing CR, all text is valid UTF-8, a \<^verbatim>\<open>content-length\<close>
  given by the caller is the body's length, and the encoding fits the decoder's maximum.
  Feeding the decoder their encodings, split anywhere (inside a header, between the bytes of an
  escape, into empty reads), yields one frame for each, in order, and leaves an empty buffer. Command and body
  are those that were sent; so are the headers, but for the \<^verbatim>\<open>content-length\<close> that the encoder appends
  when the caller gave none and the body holds NUL or is not UTF-8.
\<close>

theorem chunked_stream_decodes:
  assumes "list_all (sendable lim) fs"
    and "concat chunks = concat (map (\<lambda>f. encode (Frame f) []) fs)"
  shows "\<exists>gs. feed (decode lim) [] chunks = (map Frame gs, Inr []) \<and>
    list_all2 (\<lambda>f g. command g = command f \<and> body g = body f \<and>
      headers g = headers f @
        (if (\<forall>(k, _)\<in>set (headers f). to_lowercase k \<noteq> ''content-length'') \<and>
            (NUL \<in> set (body f) \<or> from_utf8 (body f) = None)
         then [(''content-length'', show_nat (length (body f)))] else [])) fs gs"
proof (intro exI conjI)
  show "feed (decode lim) [] chunks = (map Frame (map sent_frame fs), Inr [])"
    using codec.feed_stream [where as = fs and buf = "[]" and chunks = chunks and lim = lim] assms by (simp add: comp_def)
  have "(\<forall>(k, _)\<in>set hs. to_lowercase k \<noteq> ''content-length'') \<longleftrightarrow> \<not> has_content_length hs" for hs
    by (auto simp: has_content_length_def list_ex_iff)
  then show "list_all2 (\<lambda>f g. command g = command f \<and> body g = body f \<and>
      headers g = headers f @
        (if (\<forall>(k, _)\<in>set (headers f). to_lowercase k \<noteq> ''content-length'') \<and>
            (NUL \<in> set (body f) \<or> from_utf8 (body f) = None)
         then [(''content-length'', show_nat (length (body f)))] else [])) fs (map sent_frame fs)"
    by (simp add: list_all2_map2 list.rel_refl sent_frame_def wire_headers_def)
qed

theorem chunked_stream_decodes_witness:
  "let s = encode (Frame demo_frame) [] @ encode (Frame demo_frame) [] in
   \<exists>g h. feed (decode 1000) [] [take 7 s, [], drop 7 s] = ([Frame g, Frame h], Inr []) \<and>
     body g = body demo_frame \<and> body h = body demo_frame"
proof -
  let ?s = "encode (Frame demo_frame) [] @ encode (Frame demo_frame) []"
  have "list_all (sendable 1000) [demo_frame, demo_frame]" by (simp only: list.pred_inject sendable_demo simp_thms)
  moreover have "concat [take 7 ?s, [], drop 7 ?s] = concat (map (\<lambda>f. encode (Frame f) []) [demo_frame, demo_frame])"
    by (simp only: concat.simps append_take_drop_id append_Nil append_Nil2 list.map)
  ultimately obtain gs where gs: "feed (decode 1000) [] [take 7 ?s, [], drop 7 ?s] = (map Frame gs, Inr [])"
    "list_all2 (\<lambda>f g. command g = command f \<and> body g = body f \<and> headers g = headers f @
      (if (\<forall>(k, _)\<in>set (headers f). to_lowercase k \<noteq> ''content-length'') \<and>
          (NUL \<in> set (body f) \<or> from_utf8 (body f) = None)
       then [(''content-length'', show_nat (length (body f)))] else [])) [demo_frame, demo_frame] gs"
    using chunked_stream_decodes by blast
  from gs(2) have "list_all2 (\<lambda>f g. body g = body f) [demo_frame, demo_frame] gs"
    by (rule list_all2_mono) blast
  then obtain g h where "gs = [g, h]" "body g = body demo_frame" "body h = body demo_frame"
    by (auto simp only: list_all2_Cons1 list_all2_Nil)
  with gs(1) show ?thesis
    unfolding Let_def by (simp only: list.map) blast
qed

text \<open>
  C26. What one call of the decoder may do to its buffer. Asking for more bytes leaves the buffer as
  it is, and then it holds at most the maximum frame size (or a lone CR); an item consumes at
  least one byte and no more than there are; a decoded frame took at most the maximum frame size
  from the wire and so did its body.
\<close>

theorem decode_buffer_bounds:
  "case decode lim src of
     (Inr None, r) \<Rightarrow> r = src \<and> (length src \<le> lim \<or> src = [CR])
   | (Inr (Some item), r) \<Rightarrow>
       \<exists>n. 0 < n \<and> n \<le> length src \<and> r = drop n src \<and>
         (case item of Heartbeat \<Rightarrow> n \<le> 2 | Frame f \<Rightarrow> n \<le> lim \<and> length (body f) \<le> lim)
   | (Inl e, r) \<Rightarrow> \<exists>n. r = drop n src"
proof (cases rule: decode_cases [where src = src and lim = lim])
  case (crlf r)
  then show ?thesis by (auto intro!: exI [of _ 2])
next
  case frame
  show ?thesis
    unfolding frame by (rule decode_frame_bounds)
qed (auto intro!: exI [of _ 1])

end
