(* ===== verification/Stomp_Errors.thy ===== *)
theory Stomp_Errors
  imports Stomp_Codec
begin

text \<open>
  The error values of \<^verbatim>\<open>src/connection.rs\<close>: \<^verbatim>\<open>ServerError\<close>, \<^verbatim>\<open>ReceivedFrame\<close>, \<^verbatim>\<open>ConnError\<close>,
  and the two functions that mine an ERROR frame for the subscription it is about
  (\<^verbatim>\<open>extract_destination_from_error\<close> and \<^verbatim>\<open>extract_subscription_id_from_error\<close>).
  Slicing a string off a character boundary panics in Rust: the functions that slice
  return an option whose \<open>None\<close> is that panic.
\<close>

section \<open>Server errors\<close>

record server_error =
  err_message :: string
  err_body :: "string option"
  err_receipt_id :: "string option"
  err_frame :: frame

definition unwrap_or :: "'a \<Rightarrow> 'a option \<Rightarrow> 'a" where
  "unwrap_or d x = (case x of Some y \<Rightarrow> y | None \<Rightarrow> d)"

lemma unwrap_or_simps [simp]: "unwrap_or d None = d" "unwrap_or d (Some y) = y"
  by (simp_all add: unwrap_or_def)

definition server_error_from_frame :: "frame \<Rightarrow> server_error" where
  "server_error_from_frame f =
     \<lparr>err_message = unwrap_or ''unknown error'' (get_header f ''message''),
      err_body = (if body f = [] then None else from_utf8 (body f)),
      err_receipt_id = get_header f ''receipt-id'',
      err_frame = f\<rparr>"

definition display_server_error :: "server_error \<Rightarrow> string" where
  "display_server_error e =
     ''STOMP server error: '' @ err_message e @
     (case err_body e of Some b \<Rightarrow> '' - '' @ b | None \<Rightarrow> [])"

datatype received_frame = Received frame | ReceivedError server_error

fun is_error :: "received_frame \<Rightarrow> bool" where
  "is_error (ReceivedError _) = True"
| "is_error (Received _) = False"

fun is_frame :: "received_frame \<Rightarrow> bool" where
  "is_frame (Received _) = True"
| "is_frame (ReceivedError _) = False"

fun into_frame :: "received_frame \<Rightarrow> frame option" where
  "into_frame (Received f) = Some f"
| "into_frame (ReceivedError _) = None"

fun into_error :: "received_frame \<Rightarrow> server_error option" where
  "into_error (Received _) = None"
| "into_error (ReceivedError e) = Some e"

text \<open>What \<^verbatim>\<open>next_frame\<close> makes of a frame taken from the inbound channel.\<close>

definition classify_inbound :: "frame \<Rightarrow> received_frame" where
  "classify_inbound f =
     (if command f = ''ERROR'' then ReceivedError (server_error_from_frame f) else Received f)"

section \<open>Connection errors\<close>

text \<open>
  \<^verbatim>\<open>std::io::Error\<close>: one the codec built, or one of the operating system with its kind and
  its text.
\<close>

datatype io_kind = ConnectionRefused | TimedOut | InvalidData | OtherKind

datatype io_error = CodecIo codec_error | OsError io_kind string

fun io_error_kind :: "io_error \<Rightarrow> io_kind" where
  "io_error_kind (CodecIo _) = InvalidData"
| "io_error_kind (OsError k _) = k"

datatype conn_error =
    Io io_error
  | Protocol string
  | ReceiptTimeout string
  | ServerRejected server_error
  | FrameRejected server_error
  | MissingAckId

text \<open>The \<^verbatim>\<open>#[error]\<close> texts; \<open>io_text\<close> is the text of an \<^verbatim>\<open>io::Error\<close>.\<close>

fun display_conn_error :: "(io_error \<Rightarrow> string) \<Rightarrow> conn_error \<Rightarrow> string" where
  "display_conn_error io_text (Io e) = ''io error: '' @ io_text e"
| "display_conn_error io_text (Protocol m) = ''protocol error: '' @ m"
| "display_conn_error io_text (ReceiptTimeout r) =
     ''receipt timeout: no RECEIPT received for '' @ [CHR 0x27] @ r @ [CHR 0x27] @ '' within timeout''"
| "display_conn_error io_text (ServerRejected e) =
     ''server rejected connection: '' @ display_server_error e"
| "display_conn_error io_text (FrameRejected e) = ''frame rejected: '' @ display_server_error e"
| "display_conn_error io_text MissingAckId =
     ''frame has no `ack` or `message-id` header to acknowledge''"

section \<open>Acknowledgement modes\<close>

datatype ack_mode = Auto | Client | ClientIndividual

fun ack_as_str :: "ack_mode \<Rightarrow> string" where
  "ack_as_str Auto = ''auto''"
| "ack_as_str Client = ''client''"
| "ack_as_str ClientIndividual = ''client-individual''"

section \<open>What an ERROR frame is about\<close>

definition token_end :: "string \<Rightarrow> bool" where
  "token_end c \<longleftrightarrow> is_whitespace c \<or> c = [CHR 0x2C] \<or> c = [CHR 0x22] \<or> c = [CHR 0x27]"

definition error_text :: "frame \<Rightarrow> string" where
  "error_text f = unwrap_or [] (get_header f ''message'') @ '' '' @ from_utf8_lossy (body f)"

definition destination_token :: "string \<Rightarrow> string \<Rightarrow> string option" where
  "destination_token text pre =
     (case str_find pre text of
        None \<Rightarrow> None
      | Some start \<Rightarrow>
          let rest = drop start text;
              stop = unwrap_or (length rest) (char_find token_end rest)
          in if stop > length pre then Some (take stop rest) else None)"

definition extract_destination_from_error :: "frame \<Rightarrow> string option" where
  "extract_destination_from_error f =
     (case get_header f ''destination'' of
        Some d \<Rightarrow> Some d
      | None \<Rightarrow>
          (case destination_token (error_text f) ''/topic/'' of
             Some d \<Rightarrow> Some d
           | None \<Rightarrow> destination_token (error_text f) ''/queue/''))"

text \<open>
  The index is found in the lower-cased text and used in the original one. The outer
  \<open>None\<close> is the panic of \<^verbatim>\<open>&text[idx + 13..]\<close>.
\<close>

definition extract_subscription_id_from_error :: "frame \<Rightarrow> string option option" where
  "extract_subscription_id_from_error f =
     (let text = error_text f
      in case str_find ''subscription '' (to_lowercase text) of
           None \<Rightarrow> Some None
         | Some idx \<Rightarrow>
             (case slice_from text (idx + 13) of
                None \<Rightarrow> None
              | Some rest \<Rightarrow>
                  let stop = unwrap_or (length rest) (char_find token_end rest)
                  in Some (if stop > 0 then Some (take stop rest) else None)))"

section \<open>Lemmas\<close>

lemma str_find_SomeD:
  "str_find p s = Some i \<Longrightarrow> i + length p \<le> length s \<and> prefix p (drop i s) \<and> (\<forall>j<i. \<not> prefix p (drop j s))"
proof (induction p s arbitrary: i rule: str_find.induct)
  case (2 p c s)
  show ?case
  proof (cases "prefix p (c # s)")
    case True
    with 2(2) show ?thesis by (auto dest: prefix_length_le)
  next
    case False
    with 2(2) obtain i' where "str_find p s = Some i'" "i = Suc i'" by auto
    with 2(1) [OF False, of i'] False show ?thesis by (auto simp: less_Suc_eq_0_disj)
  qed
qed (auto split: if_splits)

lemma str_find_None: "str_find p s = None \<Longrightarrow> \<not> prefix p (drop j s)"
proof (induction p s arbitrary: j rule: str_find.induct)
  case (2 p c s)
  then show ?case by (cases j) (auto split: if_splits)
qed (auto split: if_splits)

lemma find_piece_ascii:
  "unwrap_or (length s) (find_piece P (map (\<lambda>c. [c]) s)) = length (takeWhile (\<lambda>c. \<not> P [c]) s)"
proof (induction s)
  case (Cons c s)
  then show ?case by (cases "find_piece P (map (\<lambda>c. [c]) s)") auto
qed simp

lemma char_find_ascii:
  "is_ascii s \<Longrightarrow> unwrap_or (length s) (char_find P s) = length (takeWhile (\<lambda>c. \<not> P [c]) s)"
  by (simp add: char_find_def chars_ascii find_piece_ascii)

lemma is_ascii_drop: "is_ascii s \<Longrightarrow> is_ascii (drop i s)"
  by (auto simp: is_ascii_def list_all_iff dest: in_set_dropD)

lemma ascii_boundary:
  assumes "is_ascii s" and "i \<le> length s"
  shows "is_char_boundary s i"
proof (cases "i < length s")
  case True
  then have "byte (s ! i) < 0x80"
    using assms(1) by (simp add: is_ascii_def list_all_length)
  then show ?thesis
    using True by (simp add: is_char_boundary_def cont_byte_def)
qed (use assms in \<open>simp add: is_char_boundary_def\<close>)

text \<open>
  What the two searches mean: the first match, up to the first delimiter after it. For the
  subscription id the match ignores case, and the token must not be empty.
\<close>

definition token_of :: "string \<Rightarrow> string" where
  "token_of s = takeWhile (\<lambda>c. \<not> token_end [c]) s"

lemma take_stop: "is_ascii s \<Longrightarrow> take (unwrap_or (length s) (char_find token_end s)) s = token_of s"
  by (simp add: char_find_ascii token_of_def takeWhile_eq_take [symmetric])

lemma destination_token_ascii:
  assumes "is_ascii text" and "str_find pre text = Some i"
  shows "destination_token text pre =
     (let t = token_of (drop i text) in if length t > length pre then Some t else None)"
  using assms char_find_ascii [OF is_ascii_drop [OF assms(1)], of i token_end]
    take_stop [OF is_ascii_drop [OF assms(1)], of i]
  by (simp add: destination_token_def Let_def token_of_def)

text \<open>
  On ASCII text, looking for the subscription id of an ERROR frame never panics, and
  finds exactly the text between the first \<^verbatim>\<open>subscription\<close> (in any letter case, followed by a
  space) and the next delimiter, when there is any.
\<close>

theorem extract_subscription_id_ascii:
  assumes "is_ascii (error_text f)"
  shows "extract_subscription_id_from_error f =
    Some (case str_find ''subscription '' (map ascii_lower (error_text f)) of
            None \<Rightarrow> None
          | Some i \<Rightarrow>
              (let t = token_of (drop (i + 13) (error_text f)) in if t = [] then None else Some t))"
proof (cases "str_find ''subscription '' (map ascii_lower (error_text f))")
  case None
  then show ?thesis
    using assms by (simp add: extract_subscription_id_from_error_def to_lowercase_ascii)
next
  case (Some i)
  let ?t = "error_text f" and ?r = "drop (i + 13) (error_text f)"
  have "i + 13 \<le> length ?t"
    using str_find_SomeD [OF Some] by simp
  then have slice: "slice_from ?t (i + 13) = Some ?r"
    using ascii_boundary [OF assms] by (simp add: slice_from_def)
  have r: "is_ascii ?r" using assms by (rule is_ascii_drop)
  have stop: "(0 < unwrap_or (length ?r) (char_find token_end ?r)) = (token_of ?r \<noteq> [])"
    unfolding char_find_ascii [OF r] token_of_def by simp
  show ?thesis
    using Some slice stop take_stop [OF r] assms
    by (simp add: extract_subscription_id_from_error_def to_lowercase_ascii Let_def del: drop_drop)
qed

definition artemis_error :: frame where
  "artemis_error =
     with_header ''message'' ''AMQ339016 Error creating SUBSCRIPTION sub-7, denied''
       (frame_new ''ERROR'')"

lemma extract_subscription_id_ascii_witness:
  "extract_subscription_id_from_error artemis_error = Some (Some ''sub-7'')"
proof -
  have "is_ascii (error_text artemis_error)" by code_simp
  moreover have "(case str_find ''subscription '' (map ascii_lower (error_text artemis_error)) of
            None \<Rightarrow> None
          | Some i \<Rightarrow>
              (let t = token_of (drop (i + 13) (error_text artemis_error))
               in if t = [] then None else Some t)) = Some ''sub-7''" by code_simp
  ultimately show ?thesis using extract_subscription_id_ascii [of artemis_error] by simp
qed

text \<open>
  C38. Off ASCII the same search reads the wrong place, or panics. The index of the word
  \<^verbatim>\<open>subscription\<close> is found in the lower-cased text and used in the original one. When lower-casing makes
  what precedes the ASCII part \<open>r\<close> of the text longer by \<open>n\<close> bytes (by one for each dotted capital I),
  the id is read \<open>n\<close> bytes too late, and the search panics exactly when fewer than \<open>n\<close> bytes
  follow the word and its space.
\<close>

theorem extract_subscription_id_panics:
  assumes split: "error_text f = u @ r" and u: "utf8_valid u" and r: "is_ascii r"
    and longer: "length (to_lowercase u) = length u + n"
    and found: "str_find ''subscription '' (to_lowercase u @ map ascii_lower r) = Some (length (to_lowercase u) + i)"
  shows "extract_subscription_id_from_error f =
    (if length r < i + 13 + n then None
     else Some (let t = token_of (drop (i + 13 + n) r) in if t = [] then None else Some t))"
proof -
  have low: "to_lowercase (u @ r) = to_lowercase u @ map ascii_lower r"
    by (simp add: to_lowercase_def chars_append [OF u]) (simp add: to_lowercase_ascii [OF r, unfolded to_lowercase_def])
  let ?j = "length u + n + i + 13" and ?rest = "drop (i + 13 + n) r"
  have found: "str_find ''subscription '' (to_lowercase u @ map ascii_lower r) = Some (length u + n + i)"
    using found longer by simp
  show ?thesis
  proof (cases "length r < i + 13 + n")
    case True
    then have "slice_from (u @ r) ?j = None" by (simp add: slice_from_def is_char_boundary_def)
    then show ?thesis
      using True found by (simp add: extract_subscription_id_from_error_def split low Let_def)
  next
    case False
    have "is_char_boundary r (i + 13 + n)" using ascii_boundary [OF r] False by simp
    then have "is_char_boundary (u @ r) ?j"
      using False by (auto simp: is_char_boundary_def nth_append ac_simps)
    moreover have "drop ?j (u @ r) = ?rest" by (simp add: ac_simps)
    ultimately have "slice_from (u @ r) ?j = Some ?rest" by (simp add: slice_from_def)
    moreover have rest: "is_ascii ?rest" using r by (rule is_ascii_drop)
    moreover have "(0 < unwrap_or (length ?rest) (char_find token_end ?rest)) = (token_of ?rest \<noteq> [])"
      unfolding char_find_ascii [OF rest] token_of_def by simp
    ultimately show ?thesis
      using False found take_stop [OF rest]
      by (simp add: extract_subscription_id_from_error_def split low Let_def del: drop_drop)
  qed
qed

theorem extract_subscription_id_panics_witness:
  "let dotted = [CHR 0xC4, CHR 0xB0]; error = (\<lambda>m. with_header ''message'' m (frame_new ''ERROR'')) in
   extract_subscription_id_from_error (error (dotted @ dotted @ '' subscription '')) = None \<and>
   extract_subscription_id_from_error (error (dotted @ '' subscription 17 denied'')) = Some (Some ''7'')"
proof -
  let ?d = "[CHR 0xC4, CHR 0xB0]" and ?e = "\<lambda>m. with_header ''message'' m (frame_new ''ERROR'')"
  have split: "error_text (?e m) = m @ '' ''" for m
    by (simp add: error_text_def get_header_with_header frame_builders) code_simp
  have low: "to_lowercase ?d = [CHR ''i'', CHR 0xCC, CHR 0x87]"
    "to_lowercase (?d @ ?d) = [CHR ''i'', CHR 0xCC, CHR 0x87, CHR ''i'', CHR 0xCC, CHR 0x87]"
    by code_simp+
  have u: "utf8_valid ?d" "utf8_valid (?d @ ?d)" by code_simp+
  have r: "is_ascii ('' subscription '' @ '' '')" "is_ascii ('' subscription 17 denied'' @ '' '')" by code_simp+
  have "extract_subscription_id_from_error (?e ((?d @ ?d) @ '' subscription '')) = None"
    by (subst extract_subscription_id_panics [where u = "?d @ ?d" and n = 2 and i = 1, OF _ u(2) r(1)])
      (simp_all only: split append_assoc low(2), simp_all, code_simp)
  moreover have "extract_subscription_id_from_error (?e (?d @ '' subscription 17 denied'')) = Some (Some ''7'')"
    by (subst extract_subscription_id_panics [where u = ?d and n = 1 and i = 1, OF _ u(1) r(2)])
      (simp_all only: split append_assoc low(1), simp_all, code_simp+)
  ultimately show ?thesis by (simp add: Let_def)
qed

end
