(* ===== verification/Stomp_Heartbeat.thy ===== *)
theory Stomp_Heartbeat
  imports Stomp_Strings
begin

text \<open>
  Heartbeat configuration and negotiation from \<^verbatim>\<open>src/connection.rs\<close>: the \<^verbatim>\<open>Heartbeat\<close>
  struct and its header form, \<^verbatim>\<open>parse_heartbeat_header\<close>, \<^verbatim>\<open>negotiate_heartbeats\<close>, and the
  two timer checks of the I/O loop. A \<^verbatim>\<open>Duration\<close> is its nanoseconds.
\<close>

type_synonym duration = nat

definition from_millis :: "nat \<Rightarrow> duration" where
  "from_millis ms = ms * 1000000"

definition as_millis :: "duration \<Rightarrow> nat" where
  "as_millis d = d div 1000000"

definition from_secs :: "nat \<Rightarrow> duration" where
  "from_secs s = s * 1000000000"

lemma as_millis_from_millis [simp]: "as_millis (from_millis ms) = ms"
  by (simp add: as_millis_def from_millis_def)

section \<open>Configuration\<close>

record heartbeat =
  send_ms :: "32 word"
  receive_ms :: "32 word"

definition heartbeat_new :: "32 word \<Rightarrow> 32 word \<Rightarrow> heartbeat" where
  "heartbeat_new s r = \<lparr>send_ms = s, receive_ms = r\<rparr>"

definition heartbeat_disabled :: heartbeat where
  "heartbeat_disabled = heartbeat_new 0 0"

definition heartbeat_from_duration :: "duration \<Rightarrow> heartbeat" where
  "heartbeat_from_duration interval =
     (let ms = word_of_nat (min (as_millis interval) (u32_limit - 1))
      in heartbeat_new ms ms)"

definition heartbeat_default :: heartbeat where
  "heartbeat_default = heartbeat_new 10000 10000"

definition display_heartbeat :: "heartbeat \<Rightarrow> string" where
  "display_heartbeat hb =
     show_nat (unat (send_ms hb)) @ '','' @ show_nat (unat (receive_ms hb))"

definition NO_HEARTBEAT :: string where
  "NO_HEARTBEAT = ''0,0''"

definition DEFAULT_HEARTBEAT :: string where
  "DEFAULT_HEARTBEAT = ''10000,10000''"

section \<open>Negotiation\<close>

text \<open>One comma-separated field; missing and invalid ones count as 0.\<close>

definition heartbeat_field :: "string list \<Rightarrow> nat \<Rightarrow> nat" where
  "heartbeat_field parts i =
     (if i < length parts then
        (case parse_unsigned u64_limit (trim (parts ! i)) of Some n \<Rightarrow> n | None \<Rightarrow> 0)
      else 0)"

definition parse_heartbeat_header :: "string \<Rightarrow> nat \<times> nat" where
  "parse_heartbeat_header header =
     (let parts = split_on CHR '','' header
      in (heartbeat_field parts 0, heartbeat_field parts 1))"

definition negotiate_heartbeats ::
  "nat \<Rightarrow> nat \<Rightarrow> nat \<Rightarrow> nat \<Rightarrow> duration option \<times> duration option" where
  "negotiate_heartbeats client_out client_in server_out server_in =
     (let out_ms = max client_out server_in;
          in_ms = max client_in server_out
      in (if out_ms = 0 then None else Some (from_millis out_ms),
          if in_ms = 0 then None else Some (from_millis in_ms)))"

section \<open>The loop's timer checks\<close>

text \<open>
  Whether a tick of the send timer writes a heartbeat, and whether a wake-up of the
  watchdog gives the connection up. Times are milliseconds; the first subtraction is
  saturating, the doubling is a \<^verbatim>\<open>u64\<close> multiplication (which wraps in a release build).
\<close>

definition heartbeat_due :: "nat \<Rightarrow> nat \<Rightarrow> duration \<Rightarrow> bool" where
  "heartbeat_due now last_sent dur \<longleftrightarrow> as_millis dur \<le> now - last_sent"

definition watchdog_expired :: "nat \<Rightarrow> nat \<Rightarrow> duration \<Rightarrow> bool" where
  "watchdog_expired now last_received recv_dur \<longleftrightarrow>
     (as_millis recv_dur * 2) mod u64_limit < now - last_received"

text \<open>
  \<^verbatim>\<open>current_millis\<close>: the wall clock (\<^verbatim>\<open>SystemTime\<close>) since the epoch, 0 before it. Both checks compare
  two of its readings, so they follow the clock when it is set.
\<close>

definition current_millis :: "duration option \<Rightarrow> nat" where
  "current_millis since_epoch =
     (case since_epoch of Some d \<Rightarrow> as_millis d mod u64_limit | None \<Rightarrow> 0)"

section \<open>Lemmas\<close>

text \<open>
  A clock set forward by \<open>e\<close> milliseconds counts as so much silence; one set back stops the watchdog
  and withholds the heart-beats until it has caught up.
\<close>

lemma clock_set_forward:
  assumes "m + e < u64_limit"
  shows "watchdog_expired (current_millis (Some (from_millis (m + e))))
      (current_millis (Some (from_millis m))) d \<longleftrightarrow> (as_millis d * 2) mod u64_limit < e"
  using assms by (simp add: watchdog_expired_def current_millis_def)

lemma clock_set_back:
  assumes "m < u64_limit"
  shows "\<not> watchdog_expired (current_millis (Some (from_millis (m - e)))) (current_millis (Some (from_millis m))) d"
    and "0 < as_millis d \<Longrightarrow>
      \<not> heartbeat_due (current_millis (Some (from_millis (m - e)))) (current_millis (Some (from_millis m))) d"
  using assms by (simp_all add: watchdog_expired_def heartbeat_due_def current_millis_def)

lemma split_on_nonempty: "split_on d s \<noteq> []"
  by (induction s) (auto split: list.splits)

lemma split_on_no_sep: "d \<notin> set s \<Longrightarrow> split_on d s = [s]"
  by (induction s) auto

lemma split_on_append:
  "d \<notin> set s \<Longrightarrow> split_on d (s @ d # t) = s # split_on d t"
  by (induction s) auto

lemma comma_not_in_show_nat: "CHR '','' \<notin> set (show_nat n)"
  using show_nat_byte [of "CHR '',''" n] by auto

lemma parse_heartbeat_show:
  assumes "a < u64_limit" and "b < u64_limit"
  shows "parse_heartbeat_header (show_nat a @ '','' @ show_nat b) = (a, b)"
proof -
  have "split_on CHR '','' (show_nat a @ '','' @ show_nat b) = [show_nat a, show_nat b]"
    using split_on_append [OF comma_not_in_show_nat, of a "show_nat b"]
      split_on_no_sep [OF comma_not_in_show_nat, of b] by simp
  then show ?thesis
    using assms by (simp add: parse_heartbeat_header_def heartbeat_field_def parse_unsigned_show)
qed

lemma unat_u32_less: "unat (w :: 32 word) < u64_limit"
  by (rule less_trans [OF unsigned_less]) (simp add: u64_limit_def)

lemma heartbeat_field_bound: "heartbeat_field parts i < u64_limit"
  by (auto simp: heartbeat_field_def u64_limit_def dest: parse_unsigned_less split: option.split)

lemma from_millis_less_iff [simp]: "from_millis a \<le> from_millis b \<longleftrightarrow> a \<le> b"
  by (simp add: from_millis_def)

section \<open>Properties\<close>

text \<open>
  The heart-beat header this client writes is read back as the two intervals it was written
  from, for every pair of 32-bit intervals; a configuration made from a duration has both
  intervals equal to the duration's milliseconds, saturated at the largest 32-bit value.
\<close>

theorem heartbeat_header_roundtrip:
  "parse_heartbeat_header (display_heartbeat hb) = (unat (send_ms hb), unat (receive_ms hb)) \<and>
   parse_heartbeat_header (display_heartbeat (heartbeat_from_duration d)) =
     (min (as_millis d) (2 ^ 32 - 1), min (as_millis d) (2 ^ 32 - 1))"
proof -
  have read: "parse_heartbeat_header (display_heartbeat h) = (unat (send_ms h), unat (receive_ms h))" for h
    unfolding display_heartbeat_def by (rule parse_heartbeat_show) (rule unat_u32_less)+
  have "min (as_millis d) (2 ^ 32 - 1) < 2 ^ 32" by simp
  then have "unat (word_of_nat (min (as_millis d) (2 ^ 32 - 1)) :: 32 word) = min (as_millis d) (2 ^ 32 - 1)"
    by (simp only: unat_of_nat len_num0 len_num1 len_bit0 len_bit1) simp
  then show ?thesis
    by (simp add: read heartbeat_from_duration_def heartbeat_new_def u32_limit_def Let_def)
qed

text \<open>
  The two ends of a connection negotiate the same intervals: what one end will send is what
  the other expects to receive. The negotiated interval of a direction is the larger of the two
  demands, so neither end sends more often than it offered nor expects more than was offered,
  and a direction is off only when both ends ask for 0.
\<close>

theorem heartbeats_agree:
  "let client = negotiate_heartbeats cx cy sx sy; server = negotiate_heartbeats sx sy cx cy in
   fst client = snd server \<and> snd client = fst server \<and>
   (case fst client of
      None \<Rightarrow> cx = 0 \<and> sy = 0
    | Some d \<Rightarrow> from_millis cx \<le> d \<and> from_millis sy \<le> d \<and> d \<in> {from_millis cx, from_millis sy})"
  by (simp add: negotiate_heartbeats_def Let_def max_def)

text \<open>
  A header with 0 in one field does not switch that direction off as long as the other end
  names an interval: a client that configures "0" for sending still sends at the interval the
  server asks for.
\<close>

theorem one_sided_zero_stays_on:
  assumes "0 < sy"
  shows "fst (negotiate_heartbeats 0 cy sx sy) = Some (from_millis sy) \<and>
    snd (negotiate_heartbeats sx sy 0 cy) = Some (from_millis sy)"
  using assms by (simp add: negotiate_heartbeats_def Let_def)

theorem one_sided_zero_stays_on_witness:
  "fst (negotiate_heartbeats 0 0 0 10000) = Some (from_millis 10000) \<and>
   snd (negotiate_heartbeats 0 10000 0 0) = Some (from_millis 10000)"
  by (rule one_sided_zero_stays_on) simp

end
