(* ===== verification/Stomp_Options.thy ===== *)
theory Stomp_Options
  imports Stomp_Errors Stomp_Heartbeat
begin

text \<open>
  \<^verbatim>\<open>ConnectOptions\<close> and \<^verbatim>\<open>build_connect_frame\<close> of \<^verbatim>\<open>src/connection.rs\<close>, the wait for the
  broker's answer to CONNECT, and \<^verbatim>\<open>SubscriptionOptions\<close> of \<^verbatim>\<open>src/subscription.rs\<close>.
\<close>

section \<open>Connect options\<close>

text \<open>A channel handle is the address of the channel it refers to.\<close>

type_synonym chan_id = nat

record connect_options =
  co_accept_version :: "string option"
  co_client_id :: "string option"
  co_host :: "string option"
  co_headers :: "(string \<times> string) list"
  co_heartbeat_tx :: "chan_id option"
  co_disconnect_timeout :: "duration option"
  co_connect_timeout :: "duration option"
  co_max_frame_size :: "nat option"

definition connect_options_new :: connect_options where
  "connect_options_new =
     \<lparr>co_accept_version = None, co_client_id = None, co_host = None, co_headers = [],
      co_heartbeat_tx = None, co_disconnect_timeout = None, co_connect_timeout = None,
      co_max_frame_size = None\<rparr>"

definition opt_accept_version :: "string \<Rightarrow> connect_options \<Rightarrow> connect_options" where
  "opt_accept_version v opts = opts\<lparr>co_accept_version := Some v\<rparr>"

definition opt_client_id :: "string \<Rightarrow> connect_options \<Rightarrow> connect_options" where
  "opt_client_id i opts = opts\<lparr>co_client_id := Some i\<rparr>"

definition opt_host :: "string \<Rightarrow> connect_options \<Rightarrow> connect_options" where
  "opt_host h opts = opts\<lparr>co_host := Some h\<rparr>"

definition opt_header :: "string \<Rightarrow> string \<Rightarrow> connect_options \<Rightarrow> connect_options" where
  "opt_header k v opts = opts\<lparr>co_headers := co_headers opts @ [(k, v)]\<rparr>"

definition opt_disconnect_timeout :: "duration \<Rightarrow> connect_options \<Rightarrow> connect_options" where
  "opt_disconnect_timeout t opts = opts\<lparr>co_disconnect_timeout := Some t\<rparr>"

definition opt_connect_timeout :: "duration \<Rightarrow> connect_options \<Rightarrow> connect_options" where
  "opt_connect_timeout t opts = opts\<lparr>co_connect_timeout := Some t\<rparr>"

definition opt_max_frame_size :: "nat \<Rightarrow> connect_options \<Rightarrow> connect_options" where
  "opt_max_frame_size n opts = opts\<lparr>co_max_frame_size := Some n\<rparr>"

definition opt_heartbeat_notify :: "chan_id \<Rightarrow> connect_options \<Rightarrow> connect_options" where
  "opt_heartbeat_notify tx opts = opts\<lparr>co_heartbeat_tx := Some tx\<rparr>"

definition DEFAULT_DISCONNECT_TIMEOUT :: duration where
  "DEFAULT_DISCONNECT_TIMEOUT = from_secs 5"

text \<open>The owned values \<^verbatim>\<open>connect_with_options\<close> extracts from the options.\<close>

record connect_config =
  cfg_accept_version :: string
  cfg_host :: string
  cfg_client_id :: "string option"
  cfg_custom_headers :: "(string \<times> string) list"
  cfg_heartbeat_notify :: "chan_id option"
  cfg_connect_timeout :: "duration option"
  cfg_max_frame_size :: nat
  cfg_disconnect_timeout :: duration

definition connect_config_of :: "connect_options \<Rightarrow> connect_config" where
  "connect_config_of opts =
     \<lparr>cfg_accept_version = unwrap_or ''1.2'' (co_accept_version opts),
      cfg_host = unwrap_or ''/'' (co_host opts),
      cfg_client_id = co_client_id opts,
      cfg_custom_headers = co_headers opts,
      cfg_heartbeat_notify = co_heartbeat_tx opts,
      cfg_connect_timeout = co_connect_timeout opts,
      cfg_max_frame_size = unwrap_or DEFAULT_MAX_FRAME_SIZE (co_max_frame_size opts),
      cfg_disconnect_timeout = unwrap_or DEFAULT_DISCONNECT_TIMEOUT (co_disconnect_timeout opts)\<rparr>"

text \<open>The codec of every connection made with these options.\<close>

definition codec_of :: "connect_config \<Rightarrow> stomp_codec" where
  "codec_of cfg = codec_with_max_frame_size (cfg_max_frame_size cfg)"

lemma codec_of_default: "codec_of (connect_config_of connect_options_new) = codec_default"
  by (simp add: codec_of_def codec_with_max_frame_size_def connect_config_of_def connect_options_new_def
      codec_default_def codec_new_def unwrap_or_def)

section \<open>The CONNECT frame\<close>

definition reserved_headers :: "string list" where
  "reserved_headers =
     [''accept-version'', ''host'', ''login'', ''passcode'', ''heart-beat'', ''client-id'']"

fun add_custom_headers :: "(string \<times> string) list \<Rightarrow> frame \<Rightarrow> frame" where
  "add_custom_headers [] connect = connect"
| "add_custom_headers ((k, v) # hs) connect =
     add_custom_headers hs
       (if to_lowercase k \<notin> set reserved_headers then with_header k v connect else connect)"

definition build_connect_frame ::
  "string \<Rightarrow> string \<Rightarrow> string \<Rightarrow> string \<Rightarrow> string \<Rightarrow> string option \<Rightarrow>
   (string \<times> string) list \<Rightarrow> frame" where
  "build_connect_frame accept_version host login passcode hb client_id custom_headers =
     (let connect =
            with_header ''heart-beat'' hb
             (with_header ''passcode'' passcode
               (with_header ''login'' login
                 (with_header ''host'' host
                   (with_header ''accept-version'' accept_version (frame_new ''CONNECT'')))));
          connect =
            (case client_id of Some i \<Rightarrow> with_header ''client-id'' i connect | None \<Rightarrow> connect)
      in add_custom_headers custom_headers connect)"

section \<open>The answer to CONNECT\<close>

text \<open>
  One result of \<^verbatim>\<open>framed.next()\<close>: an item, an error of the codec or the socket, or the end of
  the stream. The wait is a function of the results in the order they come; \<open>None\<close> is a wait
  that has not been answered yet.
\<close>

datatype stream_event = StreamItem stomp_item | StreamError io_error | StreamEnd

fun await_connected_response :: "stream_event list \<Rightarrow> (conn_error, string) result option" where
  "await_connected_response [] = None"
| "await_connected_response (StreamItem (Frame f) # es) =
     (if command f = ''CONNECTED'' then
        Some (Inr (unwrap_or ''0,0'' (get_header f ''heart-beat'')))
      else if command f = ''ERROR'' then
        Some (Inl (ServerRejected (server_error_from_frame f)))
      else await_connected_response es)"
| "await_connected_response (StreamItem Heartbeat # es) = await_connected_response es"
| "await_connected_response (StreamError e # es) = Some (Inl (Io e))"
| "await_connected_response (StreamEnd # es) =
     Some (Inl (Protocol ''connection closed before CONNECTED received''))"

section \<open>Subscription options\<close>

record subscription_options =
  so_headers :: "(string \<times> string) list"
  so_channel_capacity :: "nat option"
  so_overflow_limit :: "nat option"

definition DEFAULT_CHANNEL_CAPACITY :: nat where
  "DEFAULT_CHANNEL_CAPACITY = 16"

definition DEFAULT_OVERFLOW_LIMIT :: nat where
  "DEFAULT_OVERFLOW_LIMIT = 1024"

definition subscription_options_new :: subscription_options where
  "subscription_options_new =
     \<lparr>so_headers = [], so_channel_capacity = None, so_overflow_limit = None\<rparr>"

definition sub_header :: "string \<Rightarrow> string \<Rightarrow> subscription_options \<Rightarrow> subscription_options" where
  "sub_header k v opts = opts\<lparr>so_headers := so_headers opts @ [(k, v)]\<rparr>"

definition sub_headers ::
  "(string \<times> string) list \<Rightarrow> subscription_options \<Rightarrow> subscription_options" where
  "sub_headers hs opts = opts\<lparr>so_headers := hs\<rparr>"

definition sub_channel_capacity :: "nat \<Rightarrow> subscription_options \<Rightarrow> subscription_options" where
  "sub_channel_capacity n opts = opts\<lparr>so_channel_capacity := Some n\<rparr>"

definition sub_overflow_limit :: "nat \<Rightarrow> subscription_options \<Rightarrow> subscription_options" where
  "sub_overflow_limit n opts = opts\<lparr>so_overflow_limit := Some n\<rparr>"

section \<open>Lemmas\<close>

lemma reserved_ascii: "list_all (\<lambda>h. is_ascii h \<and> map ascii_lower h = h) reserved_headers"
  by code_simp

lemma reserved_lowercase:
  assumes "h \<in> set reserved_headers" and "eq_ignore_ascii_case k h"
  shows "to_lowercase k = h"
proof -
  have h: "is_ascii h" "map ascii_lower h = h"
    using reserved_ascii assms(1) by (auto simp: list_all_iff)
  have lower: "map ascii_lower k = h"
    using assms(2) h(2) by (simp add: eq_ignore_ascii_case_def)
  moreover have "is_ascii (map ascii_lower k) = is_ascii k"
    by (simp add: is_ascii_def list_all_iff byte_ascii_lower)
  ultimately show ?thesis
    using h(1) by (simp add: to_lowercase_ascii)
qed

lemma add_custom_headers_eq:
  "add_custom_headers hs f =
     f\<lparr>headers := headers f @ filter (\<lambda>(k, _). to_lowercase k \<notin> set reserved_headers) hs\<rparr>"
  by (induction hs f rule: add_custom_headers.induct) (auto simp: with_header_def)

lemma find_header_filtered:
  "h \<in> set reserved_headers \<Longrightarrow>
   find_header h (filter (\<lambda>(k, _). to_lowercase k \<notin> set reserved_headers) hs) = None"
  using reserved_lowercase [of h] by (auto simp: find_header_None)

lemma reserved_exact:
  "list_all (\<lambda>a. list_all (\<lambda>b. eq_ignore_ascii_case a b = (a = b)) reserved_headers) reserved_headers"
  by code_simp

lemma find_header_reserved:
  "h \<in> set reserved_headers \<Longrightarrow> set (map fst hs) \<subseteq> set reserved_headers \<Longrightarrow>
   find_header h hs = map_of hs h"
  using reserved_exact by (induction hs) (auto simp: list_all_iff)

text \<open>
  The CONNECT frame carries the dedicated option under each reserved name, whatever
  custom headers were given, and the other custom headers follow in the order they were added.
\<close>

theorem build_connect_frame_reserved:
  "let f = build_connect_frame v h l p hb cid custom in
   command f = ''CONNECT'' \<and> body f = [] \<and>
   map (get_header f) reserved_headers = [Some v, Some h, Some l, Some p, Some hb, cid] \<and>
   (\<exists>own. headers f = own @ filter (\<lambda>(k, _). to_lowercase k \<notin> set reserved_headers) custom \<and>
          set (map fst own) \<subseteq> set reserved_headers)"
proof -
  let ?rest = "filter (\<lambda>(k, _). to_lowercase k \<notin> set reserved_headers) custom"
  obtain own where own_def: "own = [(''accept-version'', v), (''host'', h), (''login'', l),
     (''passcode'', p), (''heart-beat'', hb)] @
     (case cid of Some i \<Rightarrow> [(''client-id'', i)] | None \<Rightarrow> [])"
    by blast
  have f: "build_connect_frame v h l p hb cid custom =
      \<lparr>command = ''CONNECT'', headers = own @ ?rest, body = []\<rparr>"
    by (cases cid)
      (simp_all add: own_def build_connect_frame_def add_custom_headers_eq frame_builders)
  have sub: "set (map fst own) \<subseteq> set reserved_headers"
    by (cases cid) (simp_all add: own_def reserved_headers_def)
  have "map (\<lambda>r. find_header r (own @ ?rest)) reserved_headers = map (map_of own) reserved_headers"
    by (intro map_cong refl)
      (simp only: find_header_append find_header_filtered find_header_reserved [OF _ sub],
        simp split: option.split)
  also have "map (map_of own) reserved_headers = [Some v, Some h, Some l, Some p, Some hb, cid]"
    unfolding reserved_headers_def own_def by (cases cid) simp_all
  finally have "map (get_header (build_connect_frame v h l p hb cid custom)) reserved_headers =
      [Some v, Some h, Some l, Some p, Some hb, cid]"
    unfolding f get_header_def by (simp only: frame.simps)
  then show ?thesis
    unfolding Let_def by (intro conjI exI [of _ own] sub; simp only: f frame.simps)
qed

end
