(* ===== verification/Stomp_Delivery.thy ===== *)
theory Stomp_Delivery
  imports Stomp_Options
begin

text \<open>
  Delivering MESSAGE frames to one subscriber (\<^verbatim>\<open>src/connection.rs\<close>): the overflow queue, the
  registry entry, \<^verbatim>\<open>drain_overflow\<close>, \<^verbatim>\<open>park\<close>, \<^verbatim>\<open>deliver_and_keep\<close>, the wake list and
  \<^verbatim>\<open>forward_inbound\<close>.

  The bounded channels are tokio's: \<^verbatim>\<open>try_send\<close> is a parameter \<open>ts\<close> of the model over an
  abstract channel state, and the locale \<open>mpsc_channel\<close> states what its documentation
  promises. The facts: no frame is lost or reordered between the broker and a live
  subscriber's channel, the overflow queue never exceeds its limit, and the loop that doubles
  the warning threshold ends.
\<close>

section \<open>The channel interface\<close>

text \<open>The result of \<^verbatim>\<open>Sender::try_send\<close>; an error hands the message back.\<close>

datatype 'm try_send_result = Sent | Full 'm | Closed 'm

type_synonym ('c, 'm) try_send = "'c \<Rightarrow> 'm \<Rightarrow> 'm try_send_result \<times> 'c"

locale mpsc_channel =
  fixes ts :: "'c \<Rightarrow> 'm \<Rightarrow> 'm try_send_result \<times> 'c"
    and queued :: "'c \<Rightarrow> 'm list"
    and rx_closed :: "'c \<Rightarrow> bool"
  assumes ts_Sent: "ts c f = (Sent, c') \<Longrightarrow>
      queued c' = queued c @ [f] \<and> \<not> rx_closed c \<and> \<not> rx_closed c'"
    and ts_Full: "ts c f = (Full g, c') \<Longrightarrow> g = f \<and> c' = c \<and> \<not> rx_closed c"
    and ts_Closed: "ts c f = (Closed g, c') \<Longrightarrow> g = f \<and> c' = c \<and> rx_closed c"

text \<open>The channel behind a subscription, and the inbound channel, carry frames.\<close>

locale frame_channel = mpsc_channel ts queued rx_closed
  for ts :: "'c \<Rightarrow> frame \<Rightarrow> frame try_send_result \<times> 'c"
    and queued :: "'c \<Rightarrow> frame list"
    and rx_closed :: "'c \<Rightarrow> bool"

section \<open>Overflow queues and registry entries\<close>

record overflow =
  ov_queue :: "frame list"
  ov_limit :: nat
  ov_capacity :: nat
  ov_warned :: bool
  ov_warn_at :: nat

definition overflow_new :: "nat \<Rightarrow> nat \<Rightarrow> overflow" where
  "overflow_new limit capacity =
     \<lparr>ov_queue = [], ov_limit = limit, ov_capacity = max capacity 1, ov_warned = False,
      ov_warn_at = 0\<rparr>"

definition reset_warnings :: "overflow \<Rightarrow> overflow" where
  "reset_warnings ov = ov\<lparr>ov_warned := False, ov_warn_at := 0\<rparr>"

definition overflow_default :: overflow where
  "overflow_default = overflow_new DEFAULT_OVERFLOW_LIMIT DEFAULT_CHANNEL_CAPACITY"

text \<open>Why a subscription ended; a \<^verbatim>\<open>OnceLock\<close> is a cell of a store, by its address.\<close>

datatype subscription_end =
    Abandoned string
  | Overflowed_at nat
  | Unsubscribed
  | ConnectionClosed

type_synonym cell_id = nat
type_synonym cells = "cell_id \<Rightarrow> subscription_end option"

record sub_entry =
  sub_id :: string
  sub_sender :: chan_id
  sub_ack :: ack_mode
  sub_hdrs :: "(string \<times> string) list"
  sub_overflow :: overflow
  sub_ended :: cell_id

definition end_subscription :: "sub_entry \<Rightarrow> subscription_end \<Rightarrow> cells \<Rightarrow> cells" where
  "end_subscription e why cells =
     (case cells (sub_ended e) of
        None \<Rightarrow> cells(sub_ended e := Some why)
      | Some _ \<Rightarrow> cells)"

type_synonym subscriptions = "(string, sub_entry list) hmap"

datatype delivery = Taken | DeadReceiver | Overflowed

section \<open>Delivering\<close>

text \<open>The \<^verbatim>\<open>while let\<close> loop of \<^verbatim>\<open>drain_overflow\<close> on the queue and the channel.\<close>

fun drain_queue :: "('c, frame) try_send \<Rightarrow> frame list \<Rightarrow> 'c \<Rightarrow> bool \<times> frame list \<times> 'c" where
  "drain_queue ts [] c = (True, [], c)"
| "drain_queue ts (parked # q) c =
     (case ts c parked of
        (Sent, c') \<Rightarrow> drain_queue ts q c'
      | (Full parked', c') \<Rightarrow> (True, parked' # q, c')
      | (Closed _, c') \<Rightarrow> (False, [], c'))"

definition drain_overflow :: "('c, frame) try_send \<Rightarrow> sub_entry \<Rightarrow> 'c \<Rightarrow> bool \<times> sub_entry \<times> 'c" where
  "drain_overflow ts e c =
     (case drain_queue ts (ov_queue (sub_overflow e)) c of
        (alive, q, c') \<Rightarrow>
          let ov = (sub_overflow e)\<lparr>ov_queue := q\<rparr>;
              ov = (if alive \<and> q = [] then reset_warnings ov else ov)
          in (alive, e\<lparr>sub_overflow := ov\<rparr>, c'))"

text \<open>
  The doubling of \<^verbatim>\<open>warn_at\<close> past the depth, on a \<^verbatim>\<open>usize\<close> that wraps; \<open>None\<close> is a loop that
  does not end.
\<close>

partial_function (option) warn_loop :: "nat \<Rightarrow> nat \<Rightarrow> nat option" where
  "warn_loop w depth =
     (if w \<le> depth then warn_loop (w * 2 mod usize_limit) depth else Some w)"

definition park :: "sub_entry \<Rightarrow> frame \<Rightarrow> (bool \<times> sub_entry) option" where
  "park e f =
     (let ov = sub_overflow e
      in if length (ov_queue ov) \<ge> ov_limit ov then Some (False, e)
         else
           let ov = ov\<lparr>ov_queue := ov_queue ov @ [f]\<rparr>;
               depth = length (ov_queue ov);
               ov = (if \<not> ov_warned ov then ov\<lparr>ov_warned := True, ov_warn_at := ov_capacity ov\<rparr>
                     else ov)
           in case warn_loop (ov_warn_at ov) depth of
                None \<Rightarrow> None
              | Some w \<Rightarrow> Some (True, e\<lparr>sub_overflow := ov\<lparr>ov_warn_at := w\<rparr>\<rparr>))"

definition park_outcome :: "(bool \<times> sub_entry) option \<Rightarrow> 'c \<Rightarrow> (delivery \<times> sub_entry \<times> 'c) option" where
  "park_outcome r c =
     (case r of None \<Rightarrow> None
      | Some (ok, e) \<Rightarrow> Some (if ok then Taken else Overflowed, e, c))"

definition deliver_and_keep ::
  "('c, frame) try_send \<Rightarrow> sub_entry \<Rightarrow> frame \<Rightarrow> 'c \<Rightarrow> (delivery \<times> sub_entry \<times> 'c) option" where
  "deliver_and_keep ts e f c =
     (case drain_overflow ts e c of
        (False, e, c) \<Rightarrow> Some (DeadReceiver, e, c)
      | (True, e, c) \<Rightarrow>
          if ov_queue (sub_overflow e) = [] then
            (case ts c f of
               (Sent, c) \<Rightarrow> Some (Taken, e, c)
             | (Full parked, c) \<Rightarrow> park_outcome (park e parked) c
             | (Closed _, c) \<Rightarrow> Some (DeadReceiver, e, c))
          else park_outcome (park e f) c)"

section \<open>The wake list and the inbound channel\<close>

type_synonym wake_list = "(string \<times> chan_id) list"

definition prune_parked :: "wake_list \<Rightarrow> subscriptions \<Rightarrow> wake_list" where
  "prune_parked parked m =
     filter (\<lambda>(i, _). list_ex (\<lambda>e. sub_id e = i \<and> ov_queue (sub_overflow e) \<noteq> [])
                        (concat (map snd m))) parked"

definition forward_inbound :: "('c, frame) try_send \<Rightarrow> frame \<Rightarrow> 'c \<Rightarrow> 'c" where
  "forward_inbound ts f c = snd (ts c f)"

section \<open>The warning threshold\<close>

lemma warn_loop_stop: "depth < w \<Longrightarrow> warn_loop w depth = Some w"
  by (simp add: warn_loop.simps)

lemma warn_loop_step: "w \<le> depth \<Longrightarrow> warn_loop w depth = warn_loop (w * 2 mod usize_limit) depth"
  by (simp add: warn_loop.simps)

lemma warn_loop_nonzero: "warn_loop w depth = Some r \<Longrightarrow> w \<noteq> 0"
  by (erule warn_loop.raw_induct [of "\<lambda>w d r. w \<noteq> 0", rotated]) (fastforce split: if_splits)

lemma warn_loop_zero: "warn_loop 0 depth = None"
  using warn_loop_nonzero [of 0 depth] by (cases "warn_loop 0 depth") auto

lemma warn_loop_doubles:
  assumes "1 \<le> w" and "depth < 2 ^ 63"
  shows "\<exists>k. warn_loop w depth = Some (w * 2 ^ k) \<and> depth < w * 2 ^ k \<and>
    (k = 0 \<or> w * 2 ^ (k - 1) \<le> depth)"
  using assms(1)
proof (induction "Suc depth - w" arbitrary: w rule: less_induct)
  case less
  show ?case
  proof (cases "w \<le> depth")
    case False
    then show ?thesis by (intro exI [of _ 0]) (simp add: warn_loop_stop)
  next
    case True
    then have wrap: "w * 2 mod usize_limit = w * 2"
      using assms(2) by (simp add: usize_limit_def)
    have "Suc depth - w * 2 < Suc depth - w" "1 \<le> w * 2"
      using less.prems True by simp_all
    then obtain k where k: "warn_loop (w * 2) depth = Some (w * 2 * 2 ^ k)"
      "depth < w * 2 * 2 ^ k" "k = 0 \<or> w * 2 * 2 ^ (k - 1) \<le> depth"
      using less.hyps [of "w * 2"] by blast
    then show ?thesis
      using True wrap by (intro exI [of _ "Suc k"]) (cases k; auto simp: warn_loop_step)
  qed
qed

section \<open>The invariant of an overflow queue\<close>

definition ov_inv :: "overflow \<Rightarrow> bool" where
  "ov_inv ov \<longleftrightarrow>
     length (ov_queue ov) \<le> ov_limit ov \<and> 1 \<le> ov_capacity ov \<and>
     (ov_warned ov \<longleftrightarrow> ov_queue ov \<noteq> []) \<and>
     (ov_warned ov \<longrightarrow> length (ov_queue ov) < ov_warn_at ov)"

lemma ov_inv_new: "ov_inv (overflow_new limit capacity)"
  by (simp add: ov_inv_def overflow_new_def)

lemma park_cases:
  assumes inv: "ov_inv (sub_overflow e)" and small: "length (ov_queue (sub_overflow e)) < 2 ^ 63 - 1"
  obtains (Full) "length (ov_queue (sub_overflow e)) = ov_limit (sub_overflow e)"
      "park e f = Some (False, e)"
  | (Parked) ov where "park e f = Some (True, e\<lparr>sub_overflow := ov\<rparr>)"
      "ov_queue ov = ov_queue (sub_overflow e) @ [f]" "ov_limit ov = ov_limit (sub_overflow e)"
      "ov_inv ov"
proof (cases "length (ov_queue (sub_overflow e)) \<ge> ov_limit (sub_overflow e)")
  case True
  then show ?thesis using inv by (intro Full) (auto simp: ov_inv_def park_def Let_def)
next
  case False
  let ?ov = "sub_overflow e"
  let ?w = "if ov_warned ?ov then ov_warn_at ?ov else ov_capacity ?ov"
  have "1 \<le> ?w" using inv by (auto simp: ov_inv_def)
  moreover have "Suc (length (ov_queue ?ov)) < 2 ^ 63" using small by simp
  ultimately obtain w where "warn_loop ?w (Suc (length (ov_queue ?ov))) = Some w"
    "Suc (length (ov_queue ?ov)) < w"
    using warn_loop_doubles by blast
  then show ?thesis
    using False inv
    by (intro Parked [of "?ov\<lparr>ov_queue := ov_queue ?ov @ [f], ov_warned := True, ov_warn_at := w\<rparr>"])
      (auto simp: park_def Let_def ov_inv_def)
qed

context mpsc_channel
begin

lemma ts_cases:
  obtains (Sent) c' where "ts c f = (Sent, c')" "queued c' = queued c @ [f]"
      "\<not> rx_closed c" "\<not> rx_closed c'"
  | (Full) "ts c f = (Full f, c)" "\<not> rx_closed c"
  | (Closed) "ts c f = (Closed f, c)" "rx_closed c"
proof (cases "ts c f")
  case r: (Pair r c')
  show ?thesis
  proof (cases r)
    case s: Sent
    with r have "ts c f = (Sent, c')" by simp
    with ts_Sent [OF this] that(1) show ?thesis by blast
  next
    case (Full g)
    with r have "ts c f = (Full g, c')" by simp
    with ts_Full [OF this] that(2) show ?thesis by blast
  next
    case (Closed g)
    with r have "ts c f = (Closed g, c')" by simp
    with ts_Closed [OF this] that(3) show ?thesis by blast
  qed
qed

end

text \<open>Nothing waits, or the channel has no room for the first that waits.\<close>

definition drained :: "('c, frame) try_send \<Rightarrow> frame list \<Rightarrow> 'c \<Rightarrow> bool" where
  "drained ts q c \<longleftrightarrow> q = [] \<or> ts c (hd q) = (Full (hd q), c)"

context frame_channel
begin

lemma drain_queue_cases:
  obtains (Alive) sent q' c' where "drain_queue ts q c = (True, q', c')" "q = sent @ q'"
      "queued c' = queued c @ sent" "rx_closed c' = rx_closed c" "rx_closed c \<longrightarrow> c' = c"
      "drained ts q' c'"
  | (Dead) "drain_queue ts q c = (False, [], c)" "rx_closed c"
proof (induction q arbitrary: c thesis)
  case Nil
  show ?case by (rule Nil.prems(1) [of "[]" c "[]"]) (simp_all add: drained_def)
next
  case (Cons p q)
  show ?case
  proof (rule ts_cases [of c p])
    fix d
    assume d: "ts c p = (Sent, d)" "queued d = queued c @ [p]" "\<not> rx_closed c" "\<not> rx_closed d"
    show ?thesis
    proof (rule Cons.IH [of d])
      fix sent q' c'
      assume "drain_queue ts q d = (True, q', c')" "q = sent @ q'" "queued c' = queued d @ sent"
        "rx_closed c' = rx_closed d" "drained ts q' c'"
      then show ?thesis using d by (intro Cons.prems(1) [of q' c' "p # sent"]) simp_all
    qed (use d in simp)
  next
    assume "ts c p = (Full p, c)" "\<not> rx_closed c"
    then show ?thesis by (intro Cons.prems(1) [of "p # q" c "[]"]) (simp_all add: drained_def)
  next
    assume "ts c p = (Closed p, c)" "rx_closed c"
    then show ?thesis by (intro Cons.prems(2)) simp_all
  qed
qed

lemma drain_overflow_cases:
  assumes "ov_inv (sub_overflow e)"
  obtains (Alive) sent ov c' where "drain_overflow ts e c = (True, e\<lparr>sub_overflow := ov\<rparr>, c')"
      "ov_queue (sub_overflow e) = sent @ ov_queue ov" "queued c' = queued c @ sent"
      "rx_closed c' = rx_closed c" "ov_limit ov = ov_limit (sub_overflow e)" "ov_inv ov"
      "rx_closed c \<longrightarrow> c' = c" "drained ts (ov_queue ov) c'"
  | (Dead) ov where "drain_overflow ts e c = (False, e\<lparr>sub_overflow := ov\<rparr>, c)" "rx_closed c"
      "ov_limit ov = ov_limit (sub_overflow e)" "ov_queue ov = []"
proof (cases rule: drain_queue_cases [of "ov_queue (sub_overflow e)" c])
  case (Alive sent q' c')
  let ?ov = "(sub_overflow e)\<lparr>ov_queue := q'\<rparr>"
  show ?thesis
    using Alive assms
    by (intro that(1) [of "if q' = [] then reset_warnings ?ov else ?ov" c' sent])
      (auto simp: drain_overflow_def Let_def reset_warnings_def ov_inv_def)
next
  case Dead
  then show ?thesis
    by (intro that(2) [of "(sub_overflow e)\<lparr>ov_queue := []\<rparr>"])
      (simp_all add: drain_overflow_def Let_def)
qed

lemma park_outcome_cases:
  assumes "ov_inv (sub_overflow e)" and "length (ov_queue (sub_overflow e)) < 2 ^ 63 - 1"
  obtains (Taken) ov where "park_outcome (park e f) c = Some (Taken, e\<lparr>sub_overflow := ov\<rparr>, c)"
      "ov_queue ov = ov_queue (sub_overflow e) @ [f]" "ov_limit ov = ov_limit (sub_overflow e)"
      "ov_inv ov"
  | (Overflowed) "park_outcome (park e f) c = Some (Overflowed, e, c)"
      "length (ov_queue (sub_overflow e)) = ov_limit (sub_overflow e)"
using assms proof (cases rule: park_cases [of e f])
  case Full
  then show ?thesis by (intro Overflowed) (simp_all add: park_outcome_def)
next
  case (Parked ov)
  then show ?thesis by (intro Taken [of ov]) (simp_all add: park_outcome_def)
qed

text \<open>What one delivery does to the frames between the broker and the consumer.\<close>

lemma deliver_cases:
  assumes inv: "ov_inv (sub_overflow e)"
    and small: "length (ov_queue (sub_overflow e)) < 2 ^ 63 - 1"
  obtains (Taken) ov c' where
      "deliver_and_keep ts e f c = Some (Taken, e\<lparr>sub_overflow := ov\<rparr>, c')" "ov_inv ov"
      "ov_limit ov = ov_limit (sub_overflow e)" "rx_closed c' = rx_closed c"
      "queued c' @ ov_queue ov = queued c @ ov_queue (sub_overflow e) @ [f]"
  | (Dead) ov where
      "deliver_and_keep ts e f c = Some (DeadReceiver, e\<lparr>sub_overflow := ov\<rparr>, c)" "rx_closed c"
      "ov_limit ov = ov_limit (sub_overflow e)"
  | (Overflowed) ov c' where
      "deliver_and_keep ts e f c = Some (Overflowed, e\<lparr>sub_overflow := ov\<rparr>, c')" "ov_inv ov"
      "ov_limit ov = ov_limit (sub_overflow e)" "rx_closed c' = rx_closed c"
      "length (ov_queue ov) = ov_limit ov"
      "queued c' @ ov_queue ov = queued c @ ov_queue (sub_overflow e)"
using inv proof (cases rule: drain_overflow_cases [of e c])
  case (Dead ov)
  then show ?thesis by (intro that(2) [of ov]) (simp_all add: deliver_and_keep_def)
next
  case (Alive sent ov c')
  let ?e = "e\<lparr>sub_overflow := ov\<rparr>"
  note taken = that(1) and overflowed = that(3)
  have small': "length (ov_queue (sub_overflow ?e)) < 2 ^ 63 - 1"
    using Alive(2) small by simp
  have inv': "ov_inv (sub_overflow ?e)" using Alive by simp
  have parks: thesis
    if step: "deliver_and_keep ts e f c = park_outcome (park ?e f) c'"
    using inv' small'
  proof (cases rule: park_outcome_cases [of ?e f c'])
    case (Taken ov')
    then show ?thesis using Alive step by (intro taken [of ov' c']) simp_all
  next
    case Overflowed
    then show ?thesis using Alive step by (intro overflowed [of ov c']) simp_all
  qed
  show ?thesis
  proof (cases "ov_queue ov = []")
    case False
    then show ?thesis using Alive by (intro parks) (simp add: deliver_and_keep_def)
  next
    case True
    show ?thesis
    proof (cases rule: ts_cases [of c' f])
      case (Sent d)
      then show ?thesis using Alive True by (intro that(1) [of ov d]) (simp_all add: deliver_and_keep_def)
    next
      case Full
      then show ?thesis using Alive True by (intro parks) (simp add: deliver_and_keep_def)
    next
      case Closed
      then show ?thesis using Alive True by (intro that(2) [of ov]) (simp_all add: deliver_and_keep_def)
    qed
  qed
qed

end

section \<open>A bounded channel\<close>

text \<open>
  A concrete channel for which the interface holds: a FIFO buffer with a capacity and the
  receiver's closed flag.
\<close>

record 'm bounded_chan =
  bc_buf :: "'m list"
  bc_cap :: nat
  bc_closed :: bool

definition bc_try_send :: "('m bounded_chan, 'm) try_send" where
  "bc_try_send c f =
     (if bc_closed c then (Closed f, c)
      else if length (bc_buf c) \<ge> bc_cap c then (Full f, c)
      else (Sent, c\<lparr>bc_buf := bc_buf c @ [f]\<rparr>))"

definition bc_new :: "nat \<Rightarrow> 'm bounded_chan" where
  "bc_new n = \<lparr>bc_buf = [], bc_cap = n, bc_closed = False\<rparr>"

interpretation bounded: mpsc_channel bc_try_send bc_buf bc_closed
  by unfold_locales (auto simp: bc_try_send_def split: if_splits)

interpretation bounded_frames: frame_channel bc_try_send bc_buf bc_closed
  by unfold_locales

section \<open>Properties\<close>

text \<open>
  One MESSAGE offered to a subscriber: the delivery always returns, and what is queued in
  the channel followed by what is parked behind it is exactly what it was plus the new frame
  at the end (Taken), exactly what it was with the overflow queue at its limit (Overflowed),
  or the receiver was gone (DeadReceiver). Nothing is lost, duplicated or reordered, and the
  overflow queue stays within its limit.
\<close>

theorem deliver_no_loss:
  assumes chan: "frame_channel ts queued rx_closed"
    and inv: "ov_inv (sub_overflow e)"
    and small: "length (ov_queue (sub_overflow e)) < 2 ^ 63 - 1"
  shows "\<exists>d ov c'. deliver_and_keep ts e f c = Some (d, e\<lparr>sub_overflow := ov\<rparr>, c') \<and>
    ov_limit ov = ov_limit (sub_overflow e) \<and>
    (case d of
       Taken \<Rightarrow> ov_inv ov \<and>
         queued c' @ ov_queue ov = queued c @ ov_queue (sub_overflow e) @ [f]
     | Overflowed \<Rightarrow> ov_inv ov \<and> length (ov_queue ov) = ov_limit ov \<and>
         queued c' @ ov_queue ov = queued c @ ov_queue (sub_overflow e)
     | DeadReceiver \<Rightarrow> rx_closed c)"
  by (rule frame_channel.deliver_cases [OF chan inv small, of f c])
    (rule exI, rule exI, rule exI, rule conjI, assumption, simp)+

definition slow_entry :: sub_entry where
  "slow_entry =
     \<lparr>sub_id = ''1'', sub_sender = 0, sub_ack = Client, sub_hdrs = [],
      sub_overflow = overflow_new 2 1, sub_ended = 0\<rparr>"

lemma deliver_no_loss_witness:
  "\<exists>d ov c'. deliver_and_keep bc_try_send slow_entry (frame_new ''MESSAGE'') (bc_new 1) =
      Some (d, slow_entry\<lparr>sub_overflow := ov\<rparr>, c') \<and> ov_limit ov = 2"
proof -
  have "ov_inv (sub_overflow slow_entry)" "length (ov_queue (sub_overflow slow_entry)) < 2 ^ 63 - 1"
    "ov_limit (sub_overflow slow_entry) = 2"
    by (simp_all add: slow_entry_def ov_inv_new) (simp_all add: overflow_new_def)
  then show ?thesis
    using deliver_no_loss [OF bounded_frames.frame_channel_axioms, of slow_entry "frame_new ''MESSAGE''" "bc_new 1"]
    by auto
qed

text \<open>
  The loop that doubles the warning threshold ends, at the first doubling past the depth,
  for every threshold of at least one and every depth a queue in memory can have; from a
  threshold of zero it would not end, which is why \<^verbatim>\<open>Overflow::new\<close> raises the capacity to one.
\<close>

theorem warn_loop_ends:
  assumes "depth < 2 ^ 63"
  shows "(case warn_loop w depth of
       None \<Rightarrow> w = 0
     | Some w' \<Rightarrow> 1 \<le> w \<and> depth < w' \<and>
         (\<exists>k. w' = w * 2 ^ k \<and> (k = 0 \<or> w * 2 ^ (k - 1) \<le> depth)))"
proof (cases "w = 0")
  case False
  then obtain k where k: "warn_loop w depth = Some (w * 2 ^ k)" "depth < w * 2 ^ k"
    "k = 0 \<or> w * 2 ^ (k - 1) \<le> depth"
    using warn_loop_doubles [OF _ assms, of w] by auto
  then show ?thesis using False by auto
qed (simp add: warn_loop_zero)

lemma warn_loop_ends_witness: "\<exists>w'. warn_loop 16 100 = Some w' \<and> 100 < w'"
  using warn_loop_ends [of 100 16] by (auto split: option.splits)

text \<open>
  A new overflow queue satisfies the invariant for every limit and every capacity,
  including a limit of zero (no parking) and a capacity of zero.
\<close>

theorem overflow_new_inv:
  "ov_inv (overflow_new limit capacity) \<and> (\<exists>w. warn_loop (ov_capacity (overflow_new limit capacity)) 1 = Some w)"
proof -
  have "1 \<le> ov_capacity (overflow_new limit capacity)" by (simp add: overflow_new_def)
  then show ?thesis
    using ov_inv_new warn_loop_doubles [of "ov_capacity (overflow_new limit capacity)" 1] by auto
qed

end
