(* ===== verification/Stomp_State.thy ===== *)
theory Stomp_State
  imports Stomp_Delivery
begin

text \<open>
  The state a \<^verbatim>\<open>Connection\<close> handle shares with its background task (\<^verbatim>\<open>src/connection.rs\<close>):
  the registry of subscriptions, the pending messages, the pending receipts and the counters,
  with the stores behind its shared references. A channel is an entry of \<open>chans\<close> by its
  address, a \<^verbatim>\<open>OnceLock\<close> of \<open>cells\<close>, and a \<^verbatim>\<open>oneshot\<close> of \<open>outcomes\<close> (the value sent, once it
  is). \<open>'c\<close> is the state of a channel of frames, \<open>'q\<close> that of the outbound channel.
\<close>

section \<open>Outbound items and pending messages\<close>

datatype outbound = Item stomp_item | AckOut frame nat

definition writable_in :: "outbound \<Rightarrow> nat \<Rightarrow> stomp_item option" where
  "writable_in out session =
     (case out of
        Item item \<Rightarrow> Some item
      | AckOut f issued \<Rightarrow> if issued = session then Some (Frame f) else None)"

record pending_message =
  pm_ack_id :: string
  pm_message_id :: string
  pm_frame :: frame
  pm_session :: nat

definition pending_message_new :: "string option \<Rightarrow> string \<Rightarrow> frame \<Rightarrow> nat \<Rightarrow> pending_message" where
  "pending_message_new ack_id message_id f session =
     \<lparr>pm_ack_id = unwrap_or message_id ack_id, pm_message_id = message_id, pm_frame = f,
      pm_session = session\<rparr>"

type_synonym pending_map = "(string, pending_message list) hmap"

text \<open>The broker's answer to a frame that asked for a receipt.\<close>

type_synonym receipt_outcome = "(server_error, unit) result"
type_synonym oneshot_id = nat
type_synonym receipts = "(string, oneshot_id) hmap"

section \<open>The shared state\<close>

record ('c, 'q) conn =
  subscriptions :: subscriptions
  pending :: pending_map
  pending_receipts :: receipts
  outbound_tx :: 'q
  sub_id_counter :: nat
  receipt_counter :: nat
  chans :: "chan_id \<Rightarrow> 'c"
  next_chan :: chan_id
  cells :: cells
  next_cell :: cell_id
  outcomes :: "oneshot_id \<Rightarrow> receipt_outcome option"
  next_oneshot :: oneshot_id

text \<open>
  The state \<^verbatim>\<open>connect_with_options\<close> starts from, given the outbound channel and channels at
  every address not yet allocated (address 0 is the inbound channel).
\<close>

definition conn_new :: "'q \<Rightarrow> (chan_id \<Rightarrow> 'c) \<Rightarrow> ('c, 'q) conn" where
  "conn_new q cs =
     \<lparr>subscriptions = [], pending = [], pending_receipts = [], outbound_tx = q,
      sub_id_counter = 1, receipt_counter = 1, chans = cs, next_chan = 1, cells = (\<lambda>_. None),
      next_cell = 0, outcomes = (\<lambda>_. None), next_oneshot = 0\<rparr>"

definition entries :: "subscriptions \<Rightarrow> sub_entry list" where
  "entries m = concat (map snd m)"

section \<open>Sending to the background task\<close>

text \<open>
  \<^verbatim>\<open>outbound_tx.send(..).await\<close> with its error mapped: \<open>None\<close> while the channel is full and the
  call still waits.
\<close>

definition send_out ::
  "('q, outbound) try_send \<Rightarrow> outbound \<Rightarrow> ('c, 'q) conn \<Rightarrow>
   ((conn_error, unit) result \<times> ('c, 'q) conn) option" where
  "send_out tso out s =
     (case tso (outbound_tx s) out of
        (Sent, q) \<Rightarrow> Some (Inr (), s\<lparr>outbound_tx := q\<rparr>)
      | (Closed _, q) \<Rightarrow> Some (Inl (Protocol ''send channel closed''), s\<lparr>outbound_tx := q\<rparr>)
      | (Full _, _) \<Rightarrow> None)"

definition send_frame ::
  "('q, outbound) try_send \<Rightarrow> frame \<Rightarrow> ('c, 'q) conn \<Rightarrow>
   ((conn_error, unit) result \<times> ('c, 'q) conn) option" where
  "send_frame tso f s = send_out tso (Item (Frame f)) s"

definition send_text ::
  "('q, outbound) try_send \<Rightarrow> string \<Rightarrow> string \<Rightarrow> ('c, 'q) conn \<Rightarrow>
   ((conn_error, unit) result \<times> ('c, 'q) conn) option" where
  "send_text tso destination body_text s =
     send_frame tso
       (set_body body_text (with_header ''destination'' destination (frame_new ''SEND''))) s"

definition send_transaction_frame ::
  "('q, outbound) try_send \<Rightarrow> string \<Rightarrow> string \<Rightarrow> ('c, 'q) conn \<Rightarrow>
   ((conn_error, unit) result \<times> ('c, 'q) conn) option" where
  "send_transaction_frame tso cmd transaction_id s =
     send_out tso (Item (Frame (with_header ''transaction'' transaction_id (frame_new cmd)))) s"

definition begin_tx where "begin_tx tso tid s = send_transaction_frame tso ''BEGIN'' tid s"
definition commit_tx where "commit_tx tso tid s = send_transaction_frame tso ''COMMIT'' tid s"
definition abort_tx where "abort_tx tso tid s = send_transaction_frame tso ''ABORT'' tid s"

text \<open>An outbound channel, and what a completed send means over its interface.\<close>

locale outbound_channel = mpsc_channel tso out_queued task_gone
  for tso :: "'q \<Rightarrow> outbound \<Rightarrow> outbound try_send_result \<times> 'q"
    and out_queued :: "'q \<Rightarrow> outbound list"
    and task_gone :: "'q \<Rightarrow> bool"
begin

lemma send_out_cases:
  obtains (Waits) "send_out tso out s = None"
  | (Queued) q where "send_out tso out s = Some (Inr (), s\<lparr>outbound_tx := q\<rparr>)"
      "out_queued q = out_queued (outbound_tx s) @ [out]" "\<not> task_gone (outbound_tx s)"
  | (Gone) "send_out tso out s = Some (Inl (Protocol ''send channel closed''), s)"
      "task_gone (outbound_tx s)"
  by (rule ts_cases [of "outbound_tx s" out]) (auto simp: send_out_def)

end

interpretation bounded_outbound: outbound_channel bc_try_send bc_buf bc_closed
  by unfold_locales

end
