(* ===== verification/Stomp_Registry.thy ===== *)
theory Stomp_Registry
  imports Stomp_State "HOL-Library.Multiset"
begin

text \<open>
  The subscription registry of \<^verbatim>\<open>src/connection.rs\<close>: subscribing (\<^verbatim>\<open>subscribe_with_capacity\<close> and
  its wrappers), unsubscribing (\<^verbatim>\<open>unsubscribe\<close>, \<^verbatim>\<open>unsubscribe_best_effort\<close>), looking a
  subscription up by id, and the frames that replay the registry after a reconnect, with the
  invariant every operation on the registry keeps.
\<close>

section \<open>Subscribing\<close>

definition add_headers :: "(string \<times> string) list \<Rightarrow> frame \<Rightarrow> frame" where
  "add_headers hs f = foldl (\<lambda>f (k, v). with_header k v f) f hs"

definition subscribe_frame ::
  "string \<Rightarrow> string \<Rightarrow> ack_mode \<Rightarrow> (string \<times> string) list \<Rightarrow> frame" where
  "subscribe_frame i destination ack hs =
     add_headers hs
       (with_header ''ack'' (ack_as_str ack)
         (with_header ''destination'' destination
           (with_header ''id'' i (frame_new ''SUBSCRIBE''))))"

text \<open>
  The first half of \<^verbatim>\<open>subscribe_with_capacity\<close>: the id, the channel (\<open>mk\<close> is tokio's
  \<^verbatim>\<open>mpsc::channel\<close>), the \<^verbatim>\<open>OnceLock\<close>, and the entry under the registry lock. The new entry is
  returned with the state.
\<close>

definition register ::
  "(nat \<Rightarrow> 'c) \<Rightarrow> string \<Rightarrow> ack_mode \<Rightarrow> (string \<times> string) list \<Rightarrow> nat \<Rightarrow> nat \<Rightarrow>
   ('c, 'q) conn \<Rightarrow> sub_entry \<times> ('c, 'q) conn" where
  "register mk destination ack extra_headers capacity overflow_limit s =
     (let entry = \<lparr>sub_id = show_nat (sub_id_counter s), sub_sender = next_chan s,
                   sub_ack = ack, sub_hdrs = extra_headers,
                   sub_overflow = overflow_new overflow_limit capacity,
                   sub_ended = next_cell s\<rparr>
      in (entry,
          s\<lparr>sub_id_counter := sub_id_counter s + 1,
            chans := (chans s)(next_chan s := mk (max capacity 1)),
            next_chan := next_chan s + 1,
            next_cell := next_cell s + 1,
            subscriptions :=
              hm_insert destination
                (unwrap_or [] (hm_get (subscriptions s) destination) @ [entry])
                (subscriptions s)\<rparr>))"

record subscription =
  sn_id :: string
  sn_destination :: string
  sn_receiver :: chan_id
  sn_unsubscribed :: bool
  sn_ended :: cell_id

definition subscription_new :: "string \<Rightarrow> string \<Rightarrow> chan_id \<Rightarrow> cell_id \<Rightarrow> subscription" where
  "subscription_new i d r c =
     \<lparr>sn_id = i, sn_destination = d, sn_receiver = r, sn_unsubscribed = False, sn_ended = c\<rparr>"

definition subscribe_with_capacity ::
  "(nat \<Rightarrow> 'c) \<Rightarrow> ('q, outbound) try_send \<Rightarrow> string \<Rightarrow> ack_mode \<Rightarrow> (string \<times> string) list \<Rightarrow>
   nat \<Rightarrow> nat \<Rightarrow> ('c, 'q) conn \<Rightarrow> ((conn_error, subscription) result \<times> ('c, 'q) conn) option" where
  "subscribe_with_capacity mk tso destination ack extra_headers capacity overflow_limit s =
     (case register mk destination ack extra_headers capacity overflow_limit s of
        (entry, s) \<Rightarrow>
          (case send_out tso
                  (Item (Frame (subscribe_frame (sub_id entry) destination ack extra_headers))) s of
             None \<Rightarrow> None
           | Some (Inl e, s) \<Rightarrow> Some (Inl e, s)
           | Some (Inr _, s) \<Rightarrow>
               Some (Inr (subscription_new (sub_id entry) destination (sub_sender entry)
                            (sub_ended entry)), s)))"

definition subscribe_with_headers where
  "subscribe_with_headers mk tso destination ack extra_headers s =
     subscribe_with_capacity mk tso destination ack extra_headers
       DEFAULT_CHANNEL_CAPACITY DEFAULT_OVERFLOW_LIMIT s"

definition subscribe where
  "subscribe mk tso destination ack s = subscribe_with_headers mk tso destination ack [] s"

definition subscribe_with_options where
  "subscribe_with_options mk tso destination ack opts s =
     subscribe_with_capacity mk tso destination ack (so_headers opts)
       (unwrap_or DEFAULT_CHANNEL_CAPACITY (so_channel_capacity opts))
       (unwrap_or DEFAULT_OVERFLOW_LIMIT (so_overflow_limit opts)) s"

section \<open>Unsubscribing\<close>

definition remove_at :: "nat \<Rightarrow> 'a list \<Rightarrow> 'a list" where
  "remove_at i xs = take i xs @ drop (Suc i) xs"

fun unsubscribe_entries ::
  "string \<Rightarrow> subscriptions \<Rightarrow> cells \<Rightarrow> bool \<times> subscriptions \<times> cells" where
  "unsubscribe_entries sid [] cs = (False, [], cs)"
| "unsubscribe_entries sid ((dest, v) # m) cs =
     (case position (\<lambda>e. sub_id e = sid) v of
        None \<Rightarrow>
          (case unsubscribe_entries sid m cs of
             (found, m', cs') \<Rightarrow> (found, if v = [] then m' else (dest, v) # m', cs'))
      | Some pos \<Rightarrow>
          (case unsubscribe_entries sid m (end_subscription (v ! pos) Unsubscribed cs) of
             (_, m', cs') \<Rightarrow>
               (True, if remove_at pos v = [] then m' else (dest, remove_at pos v) # m', cs')))"

definition unsubscribe_frame :: "string \<Rightarrow> frame" where
  "unsubscribe_frame sid = with_header ''id'' sid (frame_new ''UNSUBSCRIBE'')"

text \<open>The two critical sections of \<^verbatim>\<open>unsubscribe\<close>, and the whole method.\<close>

definition deregister :: "string \<Rightarrow> ('c, 'q) conn \<Rightarrow> bool \<times> ('c, 'q) conn" where
  "deregister sid s =
     (case unsubscribe_entries sid (subscriptions s) (cells s) of
        (found, m, cs) \<Rightarrow> (found, s\<lparr>subscriptions := m, cells := cs\<rparr>))"

definition forget_pending :: "string \<Rightarrow> ('c, 'q) conn \<Rightarrow> ('c, 'q) conn" where
  "forget_pending sid s = s\<lparr>pending := hm_remove sid (pending s)\<rparr>"

definition unsubscribe ::
  "('q, outbound) try_send \<Rightarrow> string \<Rightarrow> ('c, 'q) conn \<Rightarrow>
   ((conn_error, unit) result \<times> ('c, 'q) conn) option" where
  "unsubscribe tso sid s =
     (case deregister sid s of
        (found, s) \<Rightarrow>
          if \<not> found then Some (Inl (Protocol ''subscription id not found''), s)
          else send_out tso (Item (Frame (unsubscribe_frame sid))) (forget_pending sid s))"

text \<open>
  The cleanup a dropped handle runs. \<open>reg_free\<close> and \<open>pend_free\<close> say whether the two
  \<^verbatim>\<open>try_lock\<close>s succeed.
\<close>

definition end_all :: "sub_entry list \<Rightarrow> subscription_end \<Rightarrow> cells \<Rightarrow> cells" where
  "end_all es why cs = foldl (\<lambda>cs e. end_subscription e why cs) cs es"

definition retain_entries :: "(sub_entry \<Rightarrow> bool) \<Rightarrow> subscriptions \<Rightarrow> subscriptions" where
  "retain_entries keep m = filter (\<lambda>(_, v). v \<noteq> []) (map (\<lambda>(d, v). (d, filter keep v)) m)"

definition unsubscribe_best_effort ::
  "('q, outbound) try_send \<Rightarrow> bool \<Rightarrow> bool \<Rightarrow> string \<Rightarrow> ('c, 'q) conn \<Rightarrow> ('c, 'q) conn" where
  "unsubscribe_best_effort tso reg_free pend_free sid s =
     (let s = (if reg_free then
                 s\<lparr>subscriptions := retain_entries (\<lambda>e. sub_id e \<noteq> sid) (subscriptions s),
                   cells := end_all (filter (\<lambda>e. sub_id e = sid) (entries (subscriptions s)))
                             Unsubscribed (cells s)\<rparr>
               else s);
          s = (if pend_free then forget_pending sid s else s)
      in s\<lparr>outbound_tx := snd (tso (outbound_tx s) (Item (Frame (unsubscribe_frame sid))))\<rparr>)"

text \<open>The methods of the handle, \<^verbatim>\<open>src/subscription.rs\<close>.\<close>

definition handle_unsubscribe where
  "handle_unsubscribe tso sn s =
     map_option (\<lambda>(r, s). (r, sn\<lparr>sn_unsubscribed := True\<rparr>, s)) (unsubscribe tso (sn_id sn) s)"

definition handle_drop where
  "handle_drop tso reg_free pend_free sn s =
     (if sn_unsubscribed sn then s
      else unsubscribe_best_effort tso reg_free pend_free (sn_id sn) s)"

definition into_receiver :: "chan_id \<Rightarrow> subscription \<Rightarrow> chan_id \<times> subscription" where
  "into_receiver dummy sn = (sn_receiver sn, sn\<lparr>sn_unsubscribed := True, sn_receiver := dummy\<rparr>)"

definition ended_reason :: "subscription \<Rightarrow> ('c, 'q) conn \<Rightarrow> subscription_end option" where
  "ended_reason sn s = cells s (sn_ended sn)"

section \<open>Looking up and replaying\<close>

fun lookup_destination :: "string \<Rightarrow> subscriptions \<Rightarrow> string option" where
  "lookup_destination sid [] = None"
| "lookup_destination sid ((dest, v) # m) =
     (if list_ex (\<lambda>e. sub_id e = sid) v then Some dest else lookup_destination sid m)"

definition lookup_destination_by_sub_id :: "string \<Rightarrow> ('c, 'q) conn \<Rightarrow> string option" where
  "lookup_destination_by_sub_id sid s = lookup_destination sid (subscriptions s)"

definition resub_snapshot :: "subscriptions \<Rightarrow> (string \<times> string \<times> ack_mode \<times> (string \<times> string) list) list" where
  "resub_snapshot m =
     concat (map (\<lambda>(dest, v). map (\<lambda>e. (dest, sub_id e, sub_ack e, sub_hdrs e)) v) m)"

definition resubscribe_frames :: "subscriptions \<Rightarrow> frame list" where
  "resubscribe_frames m =
     map (\<lambda>(dest, i, ack, hs). subscribe_frame i dest ack hs) (resub_snapshot m)"

section \<open>The entries of a registry\<close>

lemma entries_simps [simp]:
  "entries [] = []" "entries ((d, v) # m) = v @ entries m"
  by (simp_all add: entries_def)

lemma entries_retain [simp]: "entries (retain_entries keep m) = filter keep (entries m)"
  by (induction m) (auto simp: retain_entries_def)

lemma map_fst_retain: "map fst (retain_entries keep m) = map fst (filter (\<lambda>(d, v). filter keep v \<noteq> []) m)"
  by (induction m) (auto simp: retain_entries_def)

lemma hm_ok_retain [simp]: "hm_ok m \<Longrightarrow> hm_ok (retain_entries keep m)"
  by (simp add: map_fst_retain)

lemma retain_nonempty: "(d, v) \<in> set (retain_entries keep m) \<Longrightarrow> v \<noteq> []"
  by (auto simp: retain_entries_def)

lemma mset_entries_insert:
  "hm_ok m \<Longrightarrow>
   mset (entries (hm_insert d (unwrap_or [] (hm_get m d) @ [e]) m)) = add_mset e (mset (entries m))"
  by (induction m) auto

lemma retain_Nil: "retain_entries keep [] = []"
  by (simp add: retain_entries_def)

lemma retain_Cons:
  "retain_entries keep ((d, v) # m) =
     (if filter keep v = [] then retain_entries keep m else (d, filter keep v) # retain_entries keep m)"
  by (cases "filter keep v = []")
    (simp_all only: retain_entries_def list.map prod.case filter.simps simp_thms if_True if_False)

lemmas retain_simps = retain_Nil retain_Cons

lemma set_entries: "e \<in> set (entries m) \<longleftrightarrow> (\<exists>d v. (d, v) \<in> set m \<and> e \<in> set v)"
  unfolding entries_def by (simp, metis snd_conv surj_pair image_iff)

text \<open>With distinct ids, removing by position and filtering by id are the same.\<close>

lemma remove_at_position:
  assumes "distinct (map f v)" and "position (\<lambda>e. f e = x) v = Some i"
  shows "remove_at i v = filter (\<lambda>e. f e \<noteq> x) v"
  using assms
proof (induction v arbitrary: i)
  case (Cons e v)
  show ?case
  proof (cases "f e = x")
    case True
    then have "filter (\<lambda>e. f e \<noteq> x) v = v" using Cons.prems(1) by (auto simp: filter_id_conv image_iff)
    then show ?thesis using True Cons.prems(2) by (simp add: remove_at_def)
  next
    case False
    then obtain j where "position (\<lambda>e. f e = x) v = Some j" "i = Suc j"
      using Cons.prems(2) by auto
    then show ?thesis using Cons False by (simp add: remove_at_def)
  qed
qed simp

lemma filter_position:
  assumes "distinct (map f v)" and "position (\<lambda>e. f e = x) v = Some i"
  shows "filter (\<lambda>e. f e = x) v = [v ! i]"
  using assms
proof (induction v arbitrary: i)
  case (Cons e v)
  show ?case
  proof (cases "f e = x")
    case True
    then have "filter (\<lambda>e. f e = x) v = []" using Cons.prems(1) by (auto simp: filter_empty_conv image_iff)
    then show ?thesis using True Cons.prems(2) by simp
  next
    case False
    then obtain j where "position (\<lambda>e. f e = x) v = Some j" "i = Suc j"
      using Cons.prems(2) by auto
    then show ?thesis using Cons False by simp
  qed
qed simp

lemma end_all_append: "end_all (es @ es') why cs = end_all es' why (end_all es why cs)"
  by (simp add: end_all_def)

lemma end_all_simps [simp]:
  "end_all [] why cs = cs" "end_all (e # es) why cs = end_all es why (end_subscription e why cs)"
  by (simp_all add: end_all_def)

lemma unsubscribe_entries_eq:
  assumes "distinct (map sub_id (entries m))"
  shows "unsubscribe_entries sid m cs =
     (sid \<in> sub_id ` set (entries m), retain_entries (\<lambda>e. sub_id e \<noteq> sid) m,
      end_all (filter (\<lambda>e. sub_id e = sid) (entries m)) Unsubscribed cs)"
  using assms
proof (induction sid m cs rule: unsubscribe_entries.induct)
  case (2 sid dest v m cs)
  have d: "distinct (map sub_id v)" "distinct (map sub_id (entries m))"
    using 2(3) by auto
  show ?case
  proof (cases "position (\<lambda>e. sub_id e = sid) v")
    case None
    then have n: "\<forall>e\<in>set v. sub_id e \<noteq> sid" by (simp add: position_None)
    then have "filter (\<lambda>e. sub_id e \<noteq> sid) v = v" "filter (\<lambda>e. sub_id e = sid) v = []"
      by (auto simp: filter_id_conv filter_empty_conv)
    then show ?thesis
      using 2(1) [OF None d(2)] None n by (auto simp: retain_simps)
  next
    case (Some pos)
    have v: "remove_at pos v = filter (\<lambda>e. sub_id e \<noteq> sid) v" "filter (\<lambda>e. sub_id e = sid) v = [v ! pos]"
      using d(1) Some by (simp_all add: remove_at_position filter_position)
    have "sid \<in> sub_id ` set v"
      using position_SomeD [OF Some] by force
    then show ?thesis
      unfolding unsubscribe_entries.simps Some option.case 2(2) [OF Some d(2)] prod.case retain_simps
        entries_simps filter_append end_all_append v set_append image_Un
      by simp
  qed
qed (simp add: retain_simps)

section \<open>The registry invariant\<close>

definition entry_ok :: "('c, 'q, 'x) conn_scheme \<Rightarrow> sub_entry \<Rightarrow> bool" where
  "entry_ok s e \<longleftrightarrow>
     (\<exists>k < sub_id_counter s. sub_id e = show_nat k) \<and>
     0 < sub_sender e \<and> sub_sender e < next_chan s \<and>
     sub_ended e < next_cell s \<and> cells s (sub_ended e) = None \<and> ov_inv (sub_overflow e)"

definition all_distinct :: "sub_entry list \<Rightarrow> bool" where
  "all_distinct es \<longleftrightarrow>
     distinct (map sub_id es) \<and> distinct (map sub_sender es) \<and> distinct (map sub_ended es)"

definition reg_inv :: "('c, 'q, 'x) conn_scheme \<Rightarrow> bool" where
  "reg_inv s \<longleftrightarrow>
     hm_ok (subscriptions s) \<and> (\<forall>(d, v)\<in>set (subscriptions s). v \<noteq> []) \<and>
     all_distinct (entries (subscriptions s)) \<and>
     (\<forall>e\<in>set (entries (subscriptions s)). entry_ok s e) \<and>
     (\<forall>a \<ge> next_cell s. cells s a = None) \<and> 0 < next_chan s"

lemma distinct_map_mset: "mset es = mset es' \<Longrightarrow> distinct (map f es) = distinct (map f es')"
  by (rule mset_eq_imp_distinct_iff) (simp only: mset_map)

lemma all_distinct_mset: "mset es = mset es' \<Longrightarrow> all_distinct es = all_distinct es'"
  unfolding all_distinct_def
  by (simp only: distinct_map_mset [of es es' sub_id] distinct_map_mset [of es es' sub_sender]
      distinct_map_mset [of es es' sub_ended])

lemma all_distinct_filter: "all_distinct es \<Longrightarrow> all_distinct (filter P es)"
  by (simp add: all_distinct_def distinct_map_filter)

lemma all_distinct_cell:
  "all_distinct es \<Longrightarrow> a \<in> set es \<Longrightarrow> b \<in> set es \<Longrightarrow> sub_ended a = sub_ended b \<Longrightarrow> a = b"
  by (auto simp: all_distinct_def distinct_map dest: inj_onD)

lemma all_distinct_id:
  "all_distinct es \<Longrightarrow> a \<in> set es \<Longrightarrow> b \<in> set es \<Longrightarrow> sub_id a = sub_id b \<Longrightarrow> a = b"
  by (auto simp: all_distinct_def distinct_map dest: inj_onD)

lemma end_all_apply:
  "end_all es why cs a =
     (case cs a of Some r \<Rightarrow> Some r
      | None \<Rightarrow> if a \<in> sub_ended ` set es then Some why else None)"
  by (induction es arbitrary: cs) (auto simp: end_subscription_def split: option.splits)

lemma reg_inv_new: "reg_inv (conn_new q cs)"
  by (simp add: reg_inv_def conn_new_def all_distinct_def)

text \<open>Ending entries for a reason and removing exactly those from the registry.\<close>

lemma reg_inv_end_retain:
  assumes "reg_inv s"
  shows "reg_inv (s\<lparr>subscriptions := retain_entries keep (subscriptions s),
    cells := end_all (filter (\<lambda>e. \<not> keep e) (entries (subscriptions s))) why (cells s)\<rparr>)"
proof -
  let ?es = "entries (subscriptions s)"
  have kept: "end_all (filter (\<lambda>e. \<not> keep e) ?es) why (cells s) (sub_ended e) = None"
    if "e \<in> set ?es" "keep e" for e
  proof -
    have "sub_ended e \<notin> sub_ended ` set (filter (\<lambda>e. \<not> keep e) ?es)"
      using assms that all_distinct_cell by (fastforce simp: reg_inv_def)
    then show ?thesis
      using assms that by (simp add: end_all_apply reg_inv_def entry_ok_def)
  qed
  have fresh: "end_all (filter (\<lambda>e. \<not> keep e) ?es) why (cells s) a = None" if "a \<ge> next_cell s" for a
  proof -
    have "\<forall>e\<in>set ?es. sub_ended e < next_cell s"
      using assms by (simp add: reg_inv_def entry_ok_def)
    then show ?thesis
      using assms that by (force simp: end_all_apply reg_inv_def)
  qed
  show ?thesis
    using assms kept fresh
    by (auto simp: reg_inv_def entry_ok_def all_distinct_filter dest: retain_nonempty)
qed

lemma reg_inv_pending [simp]:
  "reg_inv (s\<lparr>pending := p\<rparr>) = reg_inv s" "reg_inv (s\<lparr>outbound_tx := q\<rparr>) = reg_inv s"
  "reg_inv (s\<lparr>pending_receipts := r\<rparr>) = reg_inv s" "reg_inv (s\<lparr>chans := c\<rparr>) = reg_inv s"
  "reg_inv (s\<lparr>outcomes := oc\<rparr>) = reg_inv s" "reg_inv (s\<lparr>next_oneshot := n\<rparr>) = reg_inv s"
  "reg_inv (s\<lparr>receipt_counter := k\<rparr>) = reg_inv s"
  by (simp_all add: reg_inv_def entry_ok_def)

lemma deregister_eq:
  assumes "reg_inv s"
  shows "deregister sid s =
     (sid \<in> sub_id ` set (entries (subscriptions s)),
      s\<lparr>subscriptions := retain_entries (\<lambda>e. sub_id e \<noteq> sid) (subscriptions s),
        cells := end_all (filter (\<lambda>e. sub_id e = sid) (entries (subscriptions s))) Unsubscribed (cells s)\<rparr>)"
  using assms
  by (simp add: deregister_def unsubscribe_entries_eq reg_inv_def all_distinct_def)

lemma set_hm_insertD: "(d, v) \<in> set (hm_insert k x m) \<Longrightarrow> (d, v) = (k, x) \<or> (d, v) \<in> set m"
  by (induction m) (auto split: if_splits)

lemma register_inv:
  assumes inv: "reg_inv s" and reg: "register mk d ack hs capacity limit s = (e, s')"
  shows "reg_inv s'"
    and "mset (entries (subscriptions s')) = add_mset e (mset (entries (subscriptions s)))"
    and "sub_id e \<notin> sub_id ` set (entries (subscriptions s))"
proof -
  let ?es = "entries (subscriptions s)" and ?es' = "entries (subscriptions s')"
  have e: "sub_id e = show_nat (sub_id_counter s)" "sub_sender e = next_chan s"
    "sub_ended e = next_cell s" "ov_inv (sub_overflow e)"
    using reg by (auto simp: register_def Let_def ov_inv_new)
  have subs: "subscriptions s' =
      hm_insert d (unwrap_or [] (hm_get (subscriptions s) d) @ [e]) (subscriptions s)"
    using reg by (auto simp: register_def Let_def)
  have rest: "sub_id_counter s' = sub_id_counter s + 1" "next_chan s' = next_chan s + 1"
    "next_cell s' = next_cell s + 1" "cells s' = cells s"
    using reg by (auto simp: register_def Let_def)
  have ok: "hm_ok (subscriptions s)" "\<forall>x\<in>set ?es. entry_ok s x"
    using inv by (simp_all add: reg_inv_def)
  show ms: "mset ?es' = add_mset e (mset ?es)"
    unfolding subs by (rule mset_entries_insert [OF ok(1)])
  then have set': "set ?es' = insert e (set ?es)"
    by (metis set_mset_add_mset_insert set_mset_mset)
  have old: "\<exists>k < sub_id_counter s. sub_id x = show_nat k" "sub_sender x < next_chan s"
    "sub_ended x < next_cell s" if "x \<in> set ?es" for x
    using ok(2) that by (auto simp: entry_ok_def)
  show fresh: "sub_id e \<notin> sub_id ` set ?es"
    using old(1) e(1) show_nat_inj by fastforce
  have "all_distinct (e # ?es)"
    using inv fresh old e(2,3) by (force simp: all_distinct_def reg_inv_def)
  then have dist: "all_distinct ?es'"
    using all_distinct_mset [of ?es' "e # ?es"] ms by simp
  have "\<forall>x\<in>set ?es'. entry_ok s' x"
  proof
    fix x
    assume "x \<in> set ?es'"
    then consider "x = e" | "x \<in> set ?es" using set' by auto
    then show "entry_ok s' x"
    proof cases
      case 1
      then show ?thesis using e rest inv by (auto simp: entry_ok_def reg_inv_def)
    next
      case 2
      then obtain k where "k < sub_id_counter s" "sub_id x = show_nat k" using old(1) by blast
      then show ?thesis
        using 2 ok(2) rest by (auto simp: entry_ok_def intro!: exI [of _ k])
    qed
  qed
  moreover have "\<forall>(d, v)\<in>set (subscriptions s'). v \<noteq> []"
    using inv by (auto simp: subs reg_inv_def dest: set_hm_insertD)
  ultimately show "reg_inv s'"
    using inv dist rest by (simp add: reg_inv_def subs)
qed

text \<open>A fresh connection, and the same after one subscribe call.\<close>

definition fresh_conn :: "(frame bounded_chan, outbound bounded_chan) conn" where
  "fresh_conn = conn_new (bc_new 32) (\<lambda>_. bc_new 32)"

definition one_sub_conn :: "(frame bounded_chan, outbound bounded_chan) conn" where
  "one_sub_conn = snd (register bc_new ''/queue/a'' Client [] 16 1024 fresh_conn)"

lemma reg_inv_fresh: "reg_inv fresh_conn"
  unfolding fresh_conn_def by (rule reg_inv_new)

lemma reg_inv_one_sub: "reg_inv one_sub_conn"
  unfolding one_sub_conn_def
  by (rule register_inv(1) [OF reg_inv_fresh]) (rule prod.collapse [symmetric])

lemma one_sub_simps:
  "hm_get (subscriptions one_sub_conn) ''/queue/a'' =
     Some [\<lparr>sub_id = ''1'', sub_sender = 1, sub_ack = Client, sub_hdrs = [],
            sub_overflow = overflow_new 1024 16, sub_ended = 0\<rparr>]"
  "entries (subscriptions one_sub_conn) =
     [\<lparr>sub_id = ''1'', sub_sender = 1, sub_ack = Client, sub_hdrs = [],
       sub_overflow = overflow_new 1024 16, sub_ended = 0\<rparr>]"
  by code_simp+

section \<open>Lookup and replay\<close>

lemma lookup_destination_None: "lookup_destination sid m = None \<longleftrightarrow> sid \<notin> sub_id ` set (entries m)"
  by (induction sid m rule: lookup_destination.induct) (auto simp: list_ex_iff)

lemma lookup_destination_SomeD:
  "lookup_destination sid m = Some d \<Longrightarrow> \<exists>v e. (d, v) \<in> set m \<and> e \<in> set v \<and> sub_id e = sid"
  by (induction sid m rule: lookup_destination.induct) (fastforce simp: list_ex_iff split: if_splits)+

lemma unique_destination:
  assumes "hm_ok m" and "distinct (map sub_id (entries m))"
    and "(d, v) \<in> set m" "e \<in> set v" and "(d', v') \<in> set m" "e' \<in> set v'"
    and "sub_id e = sub_id e'"
  shows "d = d'"
  using assms
proof (induction m)
  case (Cons p m)
  obtain d0 v0 where p: "p = (d0, v0)" by (cases p)
  have other: "x \<in> set (entries m)" if "(k, w) \<in> set m" "x \<in> set w" for k w x
    using that by (auto simp: set_entries)
  have sep: "sub_id x \<noteq> sub_id y" if "x \<in> set v0" "y \<in> set (entries m)" for x y
    using Cons.prems(2) that by (auto simp: p)
  show ?case
    using Cons.prems Cons.IH other sep by (auto simp: p) metis+
qed simp

lemma lookup_iff:
  assumes "reg_inv s"
  shows "lookup_destination_by_sub_id sid s = Some d \<longleftrightarrow>
    (\<exists>v e. hm_get (subscriptions s) d = Some v \<and> e \<in> set v \<and> sub_id e = sid)"
proof
  have ok: "hm_ok (subscriptions s)" "distinct (map sub_id (entries (subscriptions s)))"
    using assms by (simp_all add: reg_inv_def all_distinct_def)
  show "\<exists>v e. hm_get (subscriptions s) d = Some v \<and> e \<in> set v \<and> sub_id e = sid"
    if "lookup_destination_by_sub_id sid s = Some d"
    using that ok(1) lookup_destination_SomeD
    by (fastforce simp: lookup_destination_by_sub_id_def)
  show "lookup_destination_by_sub_id sid s = Some d"
    if found: "\<exists>v e. hm_get (subscriptions s) d = Some v \<and> e \<in> set v \<and> sub_id e = sid"
  proof -
    obtain v e where ve: "(d, v) \<in> set (subscriptions s)" "e \<in> set v" "sub_id e = sid"
      using found by (auto dest: map_of_SomeD)
    then have "lookup_destination sid (subscriptions s) \<noteq> None"
      unfolding lookup_destination_None using set_entries [of e "subscriptions s"] by blast
    then obtain d' where d': "lookup_destination sid (subscriptions s) = Some d'" by auto
    with ve ok have "d' = d"
      using lookup_destination_SomeD [OF d'] unique_destination [OF ok] by metis
    then show ?thesis using d' by (simp add: lookup_destination_by_sub_id_def)
  qed
qed

text \<open>
  Looking a subscription up by id answers with the destination it is registered under, and
  with nothing exactly when no registered entry has the id.
\<close>

theorem lookup_by_sub_id:
  assumes "reg_inv s"
  shows "(lookup_destination_by_sub_id sid s = Some d \<longleftrightarrow>
      (\<exists>v e. hm_get (subscriptions s) d = Some v \<and> e \<in> set v \<and> sub_id e = sid)) \<and>
    (lookup_destination_by_sub_id sid s = None \<longleftrightarrow>
      sid \<notin> sub_id ` set (entries (subscriptions s)))"
  using lookup_iff [OF assms] by (simp add: lookup_destination_by_sub_id_def lookup_destination_None)

lemma lookup_by_sub_id_witness:
  "lookup_destination_by_sub_id ''1'' one_sub_conn = Some ''/queue/a''"
  using lookup_by_sub_id [OF reg_inv_one_sub, of "''1''" "''/queue/a''"]
  by (simp add: one_sub_simps)

lemma add_headers_append: "add_headers hs f = f\<lparr>headers := headers f @ hs\<rparr>"
  by (induction hs arbitrary: f) (auto simp: add_headers_def with_header_def)

lemma subscribe_frame_headers:
  "subscribe_frame i d ack hs =
     \<lparr>command = ''SUBSCRIBE'',
      headers = [(''id'', i), (''destination'', d), (''ack'', ack_as_str ack)] @ hs, body = []\<rparr>"
  by (simp add: subscribe_frame_def add_headers_append with_header_def frame_new_def)

lemma subscribe_frame_lookup:
  "get_header (subscribe_frame i d ack hs) ''id'' = Some i"
  "get_header (subscribe_frame i d ack hs) ''destination'' = Some d"
  "get_header (subscribe_frame i d ack hs) ''ack'' = Some (ack_as_str ack)"
  by (simp_all add: get_header_def subscribe_frame_headers eq_ignore_ascii_case_def)

text \<open>
  After a reconnect exactly one SUBSCRIBE is written per registered entry, in registry
  order, and the id, destination and ack mode the broker reads from it (the first header of
  the name) are the entry's own, whatever extra headers the caller gave.
\<close>

theorem resubscribe_replays:
  "map (\<lambda>f. (command f, get_header f ''id'', get_header f ''destination'', get_header f ''ack''))
     (resubscribe_frames m) =
   concat (map (\<lambda>(d, v). map (\<lambda>e. (''SUBSCRIBE'', Some (sub_id e), Some d,
     Some (ack_as_str (sub_ack e)))) v) m)"
proof -
  have "command (subscribe_frame i d ack hs) = ''SUBSCRIBE''" for i d ack hs
    by (simp add: subscribe_frame_headers)
  then show ?thesis
    by (induction m)
      (auto simp: resubscribe_frames_def resub_snapshot_def subscribe_frame_lookup)
qed

section \<open>Subscribing and unsubscribing\<close>

text \<open>
  C23. A subscribe call that returns, with success or with an error, has added one entry with a
  fresh id and an empty overflow queue under its destination, touched no other entry, and kept
  the registry well formed; on success the handle carries that id and exactly its SUBSCRIBE
  frame was queued.
\<close>

theorem subscribe_registers:
  assumes out: "outbound_channel tso out_queued task_gone"
    and inv: "reg_inv s"
    and call: "subscribe_with_capacity mk tso d ack hs capacity limit s = Some (r, s')"
  shows "reg_inv s' \<and>
    (\<exists>e. mset (entries (subscriptions s')) = add_mset e (mset (entries (subscriptions s))) \<and>
       sub_id e \<notin> sub_id ` set (entries (subscriptions s)) \<and>
       lookup_destination_by_sub_id (sub_id e) s' = Some d \<and>
       sub_ack e = ack \<and> ov_queue (sub_overflow e) = [] \<and>
       (\<forall>sn. r = Inr sn \<longrightarrow>
          sn_id sn = sub_id e \<and> sn_receiver sn = sub_sender e \<and> sn_ended sn = sub_ended e \<and>
          out_queued (outbound_tx s') =
            out_queued (outbound_tx s) @ [Item (Frame (subscribe_frame (sub_id e) d ack hs))]))"
proof -
  obtain e s1 where reg: "register mk d ack hs capacity limit s = (e, s1)" by fastforce
  note props = register_inv [OF inv reg]
  have e: "sub_ack e = ack" "ov_queue (sub_overflow e) = []" "outbound_tx s1 = outbound_tx s"
    and subs: "hm_get (subscriptions s1) d = Some (unwrap_or [] (hm_get (subscriptions s) d) @ [e])"
    using reg by (auto simp: register_def Let_def overflow_new_def)
  have found: "lookup_destination_by_sub_id (sub_id e) s1 = Some d"
    unfolding lookup_iff [OF props(1)] using subs by fastforce
  let ?out = "Item (Frame (subscribe_frame (sub_id e) d ack hs))"
  have call': "(case send_out tso ?out s1 of None \<Rightarrow> None
      | Some (Inl x, s) \<Rightarrow> Some (Inl x, s)
      | Some (Inr _, s) \<Rightarrow>
          Some (Inr (subscription_new (sub_id e) d (sub_sender e) (sub_ended e)), s)) = Some (r, s')"
    using call reg by (simp add: subscribe_with_capacity_def)
  show ?thesis
  proof (rule outbound_channel.send_out_cases [OF out, of ?out s1])
    assume "send_out tso ?out s1 = None"
    then show ?thesis using call' by simp
  next
    fix q
    assume "send_out tso ?out s1 = Some (Inr (), s1\<lparr>outbound_tx := q\<rparr>)"
      and q: "out_queued q = out_queued (outbound_tx s1) @ [?out]"
    then have r: "r = Inr (subscription_new (sub_id e) d (sub_sender e) (sub_ended e))"
      "s' = s1\<lparr>outbound_tx := q\<rparr>"
      using call' by simp_all
    show ?thesis
      unfolding r using props found e q
      by (intro conjI exI [of _ e])
        (simp_all add: subscription_new_def lookup_destination_by_sub_id_def)
  next
    assume "send_out tso ?out s1 = Some (Inl (Protocol ''send channel closed''), s1)"
    then have r: "r = Inl (Protocol ''send channel closed'')" "s' = s1"
      using call' by simp_all
    show ?thesis
      unfolding r using props found e by (intro conjI exI [of _ e]) simp_all
  qed
qed

lemma subscribe_registers_witness:
  "\<exists>r s'. subscribe_with_capacity bc_new bc_try_send ''/queue/a'' Client [] 16 1024 fresh_conn =
     Some (r, s') \<and> reg_inv s'"
proof -
  have "subscribe_with_capacity bc_new bc_try_send ''/queue/a'' Client [] 16 1024 fresh_conn \<noteq> None"
    by (simp add: subscribe_with_capacity_def register_def Let_def send_out_def bc_try_send_def
        fresh_conn_def conn_new_def bc_new_def)
  then show ?thesis
    using subscribe_registers [OF bounded_outbound.outbound_channel_axioms reg_inv_fresh] by fastforce
qed

text \<open>
  C24. Unsubscribing removes exactly the entry with the id and leaves the others, in order;
  the removed subscription's handle reads \<^verbatim>\<open>Unsubscribed\<close>, its pending messages are forgotten, and
  the UNSUBSCRIBE is queued when the call succeeds. An unknown id is an error and changes
  nothing.
\<close>

theorem unsubscribe_removes:
  assumes out: "outbound_channel tso out_queued task_gone"
    and inv: "reg_inv s"
    and call: "unsubscribe tso sid s = Some (r, s')"
  shows "reg_inv s' \<and>
    entries (subscriptions s') = filter (\<lambda>e. sub_id e \<noteq> sid) (entries (subscriptions s)) \<and>
    (if sid \<in> sub_id ` set (entries (subscriptions s)) then
       hm_get (pending s') sid = None \<and>
       (\<forall>e\<in>set (entries (subscriptions s)). cells s' (sub_ended e) =
          (if sub_id e = sid then Some Unsubscribed else None)) \<and>
       (r = Inr () \<longrightarrow> out_queued (outbound_tx s') =
          out_queued (outbound_tx s) @ [Item (Frame (unsubscribe_frame sid))])
     else r = Inl (Protocol ''subscription id not found'') \<and> pending s' = pending s \<and>
       cells s' = cells s \<and> outbound_tx s' = outbound_tx s)"
proof -
  let ?es = "entries (subscriptions s)"
  let ?s1 = "s\<lparr>subscriptions := retain_entries (\<lambda>e. sub_id e \<noteq> sid) (subscriptions s),
        cells := end_all (filter (\<lambda>e. sub_id e = sid) ?es) Unsubscribed (cells s)\<rparr>"
  have inv1: "reg_inv ?s1"
    using reg_inv_end_retain [OF inv, of "\<lambda>e. sub_id e \<noteq> sid" Unsubscribed] by simp
  have cells: "end_all (filter (\<lambda>e. sub_id e = sid) ?es) Unsubscribed (cells s) (sub_ended e) =
      (if sub_id e = sid then Some Unsubscribed else None)" if "e \<in> set ?es" for e
  proof -
    have "sub_ended e \<in> sub_ended ` set (filter (\<lambda>e. sub_id e = sid) ?es) \<longleftrightarrow> sub_id e = sid"
      using inv that all_distinct_cell [of ?es] by (auto simp: reg_inv_def)
    moreover have "cells s (sub_ended e) = None"
      using inv that by (simp add: reg_inv_def entry_ok_def)
    ultimately show ?thesis by (simp add: end_all_apply)
  qed
  show ?thesis
  proof (cases "sid \<in> sub_id ` set ?es")
    case False
    then have "filter (\<lambda>e. sub_id e = sid) ?es = []" by (auto simp: filter_empty_conv)
    then show ?thesis
      using call inv1 False by (auto simp: unsubscribe_def deregister_eq [OF inv])
  next
    case True
    let ?s2 = "forget_pending sid ?s1" and ?out = "Item (Frame (unsubscribe_frame sid))"
    have call': "send_out tso ?out ?s2 = Some (r, s')"
      using call True by (simp add: unsubscribe_def deregister_eq [OF inv])
    have base: "reg_inv s'" "subscriptions s' = subscriptions ?s1" "cells s' = cells ?s1"
      "pending s' = hm_remove sid (pending s)"
      and queue: "r = Inr () \<Longrightarrow> out_queued (outbound_tx s') = out_queued (outbound_tx s) @ [?out]"
      using call' inv1
      by (rule_tac outbound_channel.send_out_cases [OF out, of ?out ?s2];
          simp add: forget_pending_def)+
    show ?thesis
      using True base queue cells by simp
  qed
qed

lemma unsubscribe_removes_witness:
  "\<exists>r s'. unsubscribe bc_try_send ''1'' one_sub_conn = Some (r, s') \<and>
     entries (subscriptions s') = [] \<and> cells s' 0 = Some Unsubscribed"
proof -
  have "unsubscribe bc_try_send ''1'' one_sub_conn \<noteq> None"
    by (simp add: unsubscribe_def deregister_eq [OF reg_inv_one_sub] one_sub_simps send_out_def
        bc_try_send_def forget_pending_def)
      (simp add: one_sub_conn_def register_def Let_def fresh_conn_def conn_new_def bc_new_def)
  then obtain r s' where call: "unsubscribe bc_try_send ''1'' one_sub_conn = Some (r, s')" by auto
  show ?thesis
    using unsubscribe_removes [OF bounded_outbound.outbound_channel_axioms reg_inv_one_sub call] call
    by (simp add: one_sub_simps)
qed

end
