(* ===== verification/Stomp_Acks.thy ===== *)
theory Stomp_Acks
  imports Stomp_Registry
begin

text \<open>
  Acknowledging messages (\<^verbatim>\<open>src/connection.rs\<close>): the pending queues, \<^verbatim>\<open>ack_id_of\<close>, and
  \<^verbatim>\<open>acknowledge\<close> with its wrappers on the connection and on the handle. The facts: which
  messages one acknowledgement settles, in cumulative and in individual mode, what is put on
  the outbound channel, and that an id that is not outstanding is not sent.
\<close>

section \<open>The operations\<close>

definition ack_id_of :: "frame \<Rightarrow> (conn_error, string) result" where
  "ack_id_of f =
     (case get_header f ''ack'' of
        Some i \<Rightarrow> Inr i
      | None \<Rightarrow> (case get_header f ''message-id'' of Some i \<Rightarrow> Inr i | None \<Rightarrow> Inl MissingAckId))"

text \<open>The ack mode of the subscription, if the library manages it.\<close>

definition managed_mode :: "string \<Rightarrow> subscriptions \<Rightarrow> ack_mode option" where
  "managed_mode sid m = map_option sub_ack (List.find (\<lambda>e. sub_id e = sid) (entries m))"

definition find_pending :: "string \<Rightarrow> pending_message list \<Rightarrow> nat option" where
  "find_pending i queue =
     (case position (\<lambda>m. pm_ack_id m = i) queue of
        Some pos \<Rightarrow> Some pos
      | None \<Rightarrow> position (\<lambda>m. pm_message_id m = i) queue)"

definition settle_queue ::
  "ack_mode \<Rightarrow> string \<Rightarrow> pending_message list \<Rightarrow>
   (pending_message \<times> pending_message list) option" where
  "settle_queue mode i queue =
     (case find_pending i queue of
        None \<Rightarrow> None
      | Some pos \<Rightarrow>
          Some (queue ! pos,
            (case mode of
               Client \<Rightarrow> drop (Suc pos) queue
             | ClientIndividual \<Rightarrow> remove_at pos queue
             | Auto \<Rightarrow> remove_at pos queue)))"

definition settle_pending ::
  "ack_mode \<Rightarrow> string \<Rightarrow> string \<Rightarrow> pending_map \<Rightarrow> pending_message option \<times> pending_map" where
  "settle_pending mode sid i p =
     (case hm_get p sid of
        None \<Rightarrow> (None, p)
      | Some queue \<Rightarrow>
          (case settle_queue mode i queue of
             None \<Rightarrow> (None, p)
           | Some (m, queue') \<Rightarrow>
               (Some m, if queue' = [] then hm_remove sid p else hm_insert sid queue' p)))"

definition ack_frame_of :: "string \<Rightarrow> string \<Rightarrow> string \<Rightarrow> frame" where
  "ack_frame_of cmd send_id sid =
     with_header ''subscription'' sid (with_header ''id'' send_id (frame_new cmd))"

definition acknowledge ::
  "('q, outbound) try_send \<Rightarrow> string \<Rightarrow> string \<Rightarrow> string \<Rightarrow> ('c, 'q) conn \<Rightarrow>
   ((conn_error, unit) result \<times> ('c, 'q) conn) option" where
  "acknowledge tso cmd sid i s =
     (let managed = managed_mode sid (subscriptions s);
          mode = unwrap_or Client managed
      in case settle_pending mode sid i (pending s) of
           (found, p) \<Rightarrow>
             let s = s\<lparr>pending := p\<rparr>
             in case found of
                  Some m \<Rightarrow> send_out tso (AckOut (ack_frame_of cmd (pm_ack_id m) sid) (pm_session m)) s
                | None \<Rightarrow>
                    if managed = Some Client \<or> managed = Some ClientIndividual then Some (Inr (), s)
                    else send_out tso (Item (Frame (ack_frame_of cmd i sid))) s)"

definition ack where "ack tso sid i s = acknowledge tso ''ACK'' sid i s"
definition nack where "nack tso sid i s = acknowledge tso ''NACK'' sid i s"

definition ack_frame where
  "ack_frame tso sid f s =
     (case ack_id_of f of
        Inl e \<Rightarrow> Some (Inl e, s)
      | Inr i \<Rightarrow> acknowledge tso ''ACK'' sid i s)"

definition nack_frame where
  "nack_frame tso sid f s =
     (case ack_id_of f of
        Inl e \<Rightarrow> Some (Inl e, s)
      | Inr i \<Rightarrow> acknowledge tso ''NACK'' sid i s)"

text \<open>The same on a \<^verbatim>\<open>Subscription\<close> handle.\<close>

definition handle_ack where "handle_ack tso sn i s = ack tso (sn_id sn) i s"
definition handle_nack where "handle_nack tso sn i s = nack tso (sn_id sn) i s"
definition handle_ack_frame where "handle_ack_frame tso sn f s = ack_frame tso (sn_id sn) f s"
definition handle_nack_frame where "handle_nack_frame tso sn f s = nack_frame tso (sn_id sn) f s"

section \<open>Lemmas\<close>

definition names :: "string \<Rightarrow> pending_message \<Rightarrow> bool" where
  "names i m \<longleftrightarrow> pm_ack_id m = i \<or> pm_message_id m = i"

lemma find_pending_None: "find_pending i q = None \<longleftrightarrow> (\<forall>m\<in>set q. \<not> names i m)"
proof (cases "position (\<lambda>m. pm_ack_id m = i) q")
  case None
  then have "find_pending i q = position (\<lambda>m. pm_message_id m = i) q"
    by (simp add: find_pending_def)
  with None show ?thesis by (auto simp: names_def position_None)
next
  case (Some pos)
  then have "pos < length q" "pm_ack_id (q ! pos) = i"
    using position_SomeD by blast+
  then have "q ! pos \<in> set q \<and> names i (q ! pos)" by (simp add: names_def)
  then show ?thesis using Some by (auto simp: find_pending_def)
qed

lemma find_pending_SomeD: "find_pending i q = Some pos \<Longrightarrow> pos < length q \<and> names i (q ! pos)"
  by (auto simp: find_pending_def names_def dest: position_SomeD split: option.splits)

lemma settle_queue_None: "settle_queue mode i q = None \<longleftrightarrow> (\<forall>m\<in>set q. \<not> names i m)"
  by (simp add: settle_queue_def find_pending_None [symmetric] split: option.split)

lemma settle_queue_SomeD:
  assumes "settle_queue mode i q = Some (m, q')"
  shows "\<exists>before after. q = before @ m # after \<and> names i m \<and>
    q' = (if mode = Client then after else before @ after)"
proof -
  obtain pos where pos: "find_pending i q = Some pos"
    and m: "m = q ! pos" and q': "q' = (if mode = Client then drop (Suc pos) q else remove_at pos q)"
    using assms by (auto simp: settle_queue_def split: option.splits ack_mode.splits)
  have "pos < length q" "names i m"
    using find_pending_SomeD [OF pos] m by auto
  then have "q = take pos q @ m # drop (Suc pos) q"
    by (simp add: m id_take_nth_drop [symmetric])
  then show ?thesis
    using \<open>names i m\<close> q' unfolding remove_at_def by metis
qed

lemma settle_queue_Nil: "settle_queue mode i [] = None"
  by (simp add: settle_queue_None)

lemma settle_pending_get:
  "settle_pending mode sid i p = (found, p') \<Longrightarrow>
     (case settle_queue mode i (unwrap_or [] (hm_get p sid)) of
        None \<Rightarrow> found = None \<and> p' = p
      | Some (m, q') \<Rightarrow> found = Some m \<and> unwrap_or [] (hm_get p' sid) = q' \<and>
          (\<forall>k. k \<noteq> sid \<longrightarrow> hm_get p' k = hm_get p k))"
  by (auto simp: settle_pending_def settle_queue_Nil split: option.splits if_splits)

lemma ack_frame_of_lookup:
  "command (ack_frame_of cmd i sid) = cmd" "get_header (ack_frame_of cmd i sid) ''id'' = Some i"
  "get_header (ack_frame_of cmd i sid) ''subscription'' = Some sid"
  by (simp_all add: ack_frame_of_def get_header_with_header eq_ignore_ascii_case_def ascii_lower_def)

text \<open>
  Which messages one acknowledgement settles. An id names a message by its ack header
  first, then by its message-id. In client mode the named message and every older one are
  removed from the queue; in the other modes the named message alone. Nothing named, nothing
  removed.
\<close>

lemma settle_queue_spec:
  "case settle_queue mode i q of
     None \<Rightarrow> \<forall>m\<in>set q. pm_ack_id m \<noteq> i \<and> pm_message_id m \<noteq> i
   | Some (m, q') \<Rightarrow>
       (\<exists>before after. q = before @ m # after \<and>
          q' = (if mode = Client then after else before @ after) \<and>
          (if \<exists>x\<in>set q. pm_ack_id x = i
           then pm_ack_id m = i \<and> (\<forall>x\<in>set before. pm_ack_id x \<noteq> i)
           else pm_message_id m = i \<and> (\<forall>x\<in>set before. pm_message_id x \<noteq> i)))"
proof (cases "find_pending i q")
  case None
  then show ?thesis
    using find_pending_None [of i q] by (simp add: settle_queue_def names_def)
next
  case (Some pos)
  have split: "q = take pos q @ q ! pos # drop (Suc pos) q"
    using find_pending_SomeD [OF Some] by (simp add: id_take_nth_drop [symmetric])
  have first: "if \<exists>x\<in>set q. pm_ack_id x = i
     then pm_ack_id (q ! pos) = i \<and> (\<forall>x\<in>set (take pos q). pm_ack_id x \<noteq> i)
     else pm_message_id (q ! pos) = i \<and> (\<forall>x\<in>set (take pos q). pm_message_id x \<noteq> i)"
  proof (cases "position (\<lambda>m. pm_ack_id m = i) q")
    case None
    then have "position (\<lambda>m. pm_message_id m = i) q = Some pos"
      using Some by (simp add: find_pending_def)
    moreover have "\<not> (\<exists>x\<in>set q. pm_ack_id x = i)"
      using None by (simp add: position_None)
    ultimately show ?thesis
      using position_SomeD [of "\<lambda>m. pm_message_id m = i" q pos] by simp
  next
    case (Some p)
    then have "p = pos" using \<open>find_pending i q = Some pos\<close> by (simp add: find_pending_def)
    with Some show ?thesis
      using position_SomeD [of "\<lambda>m. pm_ack_id m = i" q pos] nth_mem [of pos q] by auto
  qed
  have "settle_queue mode i q =
      Some (q ! pos, if mode = Client then drop (Suc pos) q else take pos q @ drop (Suc pos) q)"
    using Some by (cases mode) (simp_all add: settle_queue_def remove_at_def)
  then show ?thesis
    using split first by (simp only: option.case prod.case) blast
qed

lemma acknowledge_queue:
  assumes out: "outbound_channel tso out_queued task_gone"
    and call: "acknowledge tso cmd sid i s = Some (r, s')"
  shows "let mode = unwrap_or Client (managed_mode sid (subscriptions s)) in
    subscriptions s' = subscriptions s \<and>
    (case settle_queue mode i (unwrap_or [] (hm_get (pending s) sid)) of
       Some (m, q') \<Rightarrow>
         unwrap_or [] (hm_get (pending s') sid) = q' \<and>
         (\<forall>k. k \<noteq> sid \<longrightarrow> hm_get (pending s') k = hm_get (pending s) k) \<and>
         (r = Inr () \<and> out_queued (outbound_tx s') = out_queued (outbound_tx s) @ [AckOut (ack_frame_of cmd (pm_ack_id m) sid) (pm_session m)] \<or>
            r = Inl (Protocol ''send channel closed'') \<and> outbound_tx s' = outbound_tx s)
     | None \<Rightarrow>
         pending s' = pending s \<and>
         (if managed_mode sid (subscriptions s) \<in> {Some Client, Some ClientIndividual}
          then r = Inr () \<and> s' = s
          else r = Inr () \<and> out_queued (outbound_tx s') = out_queued (outbound_tx s) @ [Item (Frame (ack_frame_of cmd i sid))] \<or>
            r = Inl (Protocol ''send channel closed'') \<and> outbound_tx s' = outbound_tx s))"
proof -
  let ?mode = "unwrap_or Client (managed_mode sid (subscriptions s))"
  obtain found p where sp: "settle_pending ?mode sid i (pending s) = (found, p)" by fastforce
  let ?s1 = "s\<lparr>pending := p\<rparr>"
  note get = settle_pending_get [OF sp]
  have queued: "subscriptions s' = subscriptions s \<and> pending s' = p \<and>
      (r = Inr () \<and> out_queued (outbound_tx s') = out_queued (outbound_tx s) @ [x] \<or>
            r = Inl (Protocol ''send channel closed'') \<and> outbound_tx s' = outbound_tx s)"
    if "send_out tso x ?s1 = Some (r, s')" for x
    by (rule outbound_channel.send_out_cases [OF out, of x ?s1]; use that in simp)
  show ?thesis
  proof (cases "settle_queue ?mode i (unwrap_or [] (hm_get (pending s) sid))")
    case None
    with get have f: "found = None" "p = pending s" by simp_all
    then show ?thesis
      using call None sp queued [of "Item (Frame (ack_frame_of cmd i sid))"]
      by (auto simp: acknowledge_def Let_def split: if_splits)
  next
    case (Some mq)
    obtain m q' where mq: "mq = (m, q')" by (cases mq)
    with Some get have f: "found = Some m" "unwrap_or [] (hm_get p sid) = q'"
      "\<forall>k. k \<noteq> sid \<longrightarrow> hm_get p k = hm_get (pending s) k" by simp_all
    have "send_out tso (AckOut (ack_frame_of cmd (pm_ack_id m) sid) (pm_session m)) ?s1 = Some (r, s')"
      using call sp f(1) by (simp add: acknowledge_def Let_def)
    from queued [OF this] show ?thesis
      using Some mq f(2,3) by simp
  qed
qed

section \<open>Properties\<close>

text \<open>
  C9. What \<^verbatim>\<open>ack\<close> and \<^verbatim>\<open>nack\<close> have done when they return. The id names an outstanding message of
  the subscription, the first with that ack id or, when there is none, the first with that message-id.
  In client mode (and for a subscription the library does not manage) that message and every older
  one leave the pending queue, in the other modes that message alone; other subscriptions' queues
  are untouched. What is queued is an ACK or NACK with exactly the broker's own ack id and the
  subscription id, tagged with the session the message was delivered on, or nothing when the task
  is gone. If the id names no message, a subscription managed in a client mode sends nothing at
  all and reports success; otherwise the id is passed on as it was given.
\<close>

theorem acknowledge_effect:
  assumes out: "outbound_channel tso out_queued task_gone"
    and call: "ack tso sid i s = Some (r, s') \<and> cmd = ''ACK'' \<or> nack tso sid i s = Some (r, s') \<and> cmd = ''NACK''"
  shows "let mode = map_option sub_ack (List.find (\<lambda>e. sub_id e = sid) (entries (subscriptions s)));
      q = unwrap_or [] (hm_get (pending s) sid);
      frame = (\<lambda>k. \<lparr>command = cmd, headers = [(''id'', k), (''subscription'', sid)], body = []\<rparr>);
      sent = (\<lambda>x. r = Inr () \<and> out_queued (outbound_tx s') = out_queued (outbound_tx s) @ [x] \<or>
        r = Inl (Protocol ''send channel closed'') \<and> outbound_tx s' = outbound_tx s)
    in subscriptions s' = subscriptions s \<and>
      (\<forall>k. k \<noteq> sid \<longrightarrow> hm_get (pending s') k = hm_get (pending s) k) \<and>
      (if \<exists>m\<in>set q. pm_ack_id m = i \<or> pm_message_id m = i then
         \<exists>before m after. q = before @ m # after \<and>
           (if \<exists>x\<in>set q. pm_ack_id x = i
            then pm_ack_id m = i \<and> (\<forall>x\<in>set before. pm_ack_id x \<noteq> i)
            else pm_message_id m = i \<and> (\<forall>x\<in>set before. pm_message_id x \<noteq> i)) \<and>
           unwrap_or [] (hm_get (pending s') sid) =
             (if mode = Some Client \<or> mode = None then after else before @ after) \<and>
           sent (AckOut (frame (pm_ack_id m)) (pm_session m))
       else pending s' = pending s \<and>
         (if mode = Some Client \<or> mode = Some ClientIndividual then r = Inr () \<and> s' = s
          else sent (Item (Frame (frame i)))))"
proof -
  let ?managed = "managed_mode sid (subscriptions s)" and ?q = "unwrap_or [] (hm_get (pending s) sid)"
  let ?mode = "unwrap_or Client ?managed"
  have managed: "map_option sub_ack (List.find (\<lambda>e. sub_id e = sid) (entries (subscriptions s))) = ?managed"
    by (simp add: managed_mode_def)
  have frame: "\<lparr>command = cmd, headers = [(''id'', k), (''subscription'', sid)], body = []\<rparr> = ack_frame_of cmd k sid" for k
    by (simp add: ack_frame_of_def frame_builders)
  have call: "acknowledge tso cmd sid i s = Some (r, s')"
    using call by (auto simp: ack_def nack_def)
  note effect = acknowledge_queue [OF out call]
  show ?thesis
  proof (cases "settle_queue ?mode i ?q")
    case None
    then have "\<not> (\<exists>m\<in>set ?q. pm_ack_id m = i \<or> pm_message_id m = i)"
      using settle_queue_spec [where mode = ?mode and i = i and q = ?q] by simp
    then show ?thesis
      using effect None unfolding Let_def managed frame by simp
  next
    case (Some mq)
    obtain m q' where mq: "mq = (m, q')" by (cases mq)
    obtain before after where split: "?q = before @ m # after"
      "q' = (if ?mode = Client then after else before @ after)"
      "if \<exists>x\<in>set ?q. pm_ack_id x = i then pm_ack_id m = i \<and> (\<forall>x\<in>set before. pm_ack_id x \<noteq> i)
       else pm_message_id m = i \<and> (\<forall>x\<in>set before. pm_message_id x \<noteq> i)"
      using settle_queue_spec [where mode = ?mode and i = i and q = ?q]
      unfolding Some mq option.case prod.case by blast
    have named: "\<exists>m\<in>set ?q. pm_ack_id m = i \<or> pm_message_id m = i"
    proof (rule bexI)
      show "m \<in> set ?q" unfolding split(1) by simp
      show "pm_ack_id m = i \<or> pm_message_id m = i" using split(3) unfolding if_bool_eq_disj by blast
    qed
    have client: "?mode = Client \<longleftrightarrow> ?managed = Some Client \<or> ?managed = None" by (cases ?managed) auto
    have eff: "subscriptions s' = subscriptions s" "unwrap_or [] (hm_get (pending s') sid) = q'"
      "\<forall>k. k \<noteq> sid \<longrightarrow> hm_get (pending s') k = hm_get (pending s) k"
      "r = Inr () \<and> out_queued (outbound_tx s') = out_queued (outbound_tx s) @
         [AckOut (ack_frame_of cmd (pm_ack_id m) sid) (pm_session m)] \<or>
       r = Inl (Protocol ''send channel closed'') \<and> outbound_tx s' = outbound_tx s"
      using effect unfolding Let_def Some mq option.case prod.case by blast+
    show ?thesis
      unfolding Let_def managed frame if_P [OF named] eff(2) split(2) client
      by (intro conjI exI [of _ before] exI [of _ m] exI [of _ after] eff(1,3,4) split(1,3) refl)
  qed
qed

definition demo_message :: "string \<Rightarrow> frame" where
  "demo_message i =
     with_header ''ack'' (''ack-'' @ i)
       (with_header ''message-id'' i
         (with_header ''subscription'' ''1''
           (with_header ''destination'' ''/queue/a'' (frame_new ''MESSAGE''))))"

definition demo_pending :: "string \<Rightarrow> pending_message" where
  "demo_pending i = pending_message_new (Some (''ack-'' @ i)) i (demo_message i) 0"

definition three_pending_conn :: "(frame bounded_chan, outbound bounded_chan) conn" where
  "three_pending_conn = one_sub_conn\<lparr>pending :=
     [(''1'', map demo_pending [''m1'', ''m2'', ''m3''])]\<rparr>"

theorem acknowledge_effect_witness:
  "\<exists>s'. nack bc_try_send ''1'' ''m2'' three_pending_conn = Some (Inr (), s') \<and>
     hm_get (pending s') ''1'' = Some [demo_pending ''m3''] \<and>
     bc_buf (outbound_tx s') = [AckOut \<lparr>command = ''NACK'',
       headers = [(''id'', ''ack-m2''), (''subscription'', ''1'')], body = []\<rparr> 0]"
proof -
  have mode: "map_option sub_ack (List.find (\<lambda>e. sub_id e = ''1'') (entries (subscriptions three_pending_conn))) =
      Some Client"
    by (simp add: three_pending_conn_def one_sub_simps)
  have q: "hm_get (pending three_pending_conn) ''1'' = Some (map demo_pending [''m1'', ''m2'', ''m3''])"
    by (simp add: three_pending_conn_def)
  have ids: "pm_ack_id (demo_pending k) = ''ack-'' @ k" "pm_message_id (demo_pending k) = k" "pm_session (demo_pending k) = 0" for k
    by (simp_all add: demo_pending_def pending_message_new_def)
  have tx: "outbound_tx three_pending_conn = bc_new 32"
    by (simp add: three_pending_conn_def one_sub_conn_def register_def Let_def fresh_conn_def
        conn_new_def)
  then have "nack bc_try_send ''1'' ''m2'' three_pending_conn \<noteq> None"
    by (auto simp: nack_def acknowledge_def Let_def send_out_def bc_try_send_def bc_new_def
        split: prod.splits option.splits)
  then obtain r s' where call: "nack bc_try_send ''1'' ''m2'' three_pending_conn = Some (r, s')" by auto
  from q have "\<exists>m\<in>set (unwrap_or [] (hm_get (pending three_pending_conn) ''1'')). pm_ack_id m = ''m2'' \<or> pm_message_id m = ''m2''"
    by (simp add: ids)
  note E = acknowledge_effect [OF bounded_outbound.outbound_channel_axioms disjI2 [OF conjI [OF call refl]],
      unfolded Let_def mode if_P [OF this] q tx]
  have gone: "r = Inr () \<and> bc_buf (outbound_tx s') = [x]"
    if "r = Inr () \<and> bc_buf (outbound_tx s') = bc_buf (bc_new 32 :: outbound bounded_chan) @ [x] \<or>
      r = Inl (Protocol ''send channel closed'') \<and> outbound_tx s' = bc_new 32" for x
    using that call by (auto simp: bc_new_def nack_def acknowledge_def send_out_def bc_try_send_def tx Let_def split: prod.splits option.splits if_splits)
  obtain before m after where m: "map demo_pending [''m1'', ''m2'', ''m3''] = before @ m # after" "pm_message_id m = ''m2''"
    "unwrap_or [] (hm_get (pending s') ''1'') = after" "r = Inr ()"
    "bc_buf (outbound_tx s') = [AckOut \<lparr>command = ''NACK'', headers = [(''id'', pm_ack_id m), (''subscription'', ''1'')], body = []\<rparr> (pm_session m)]"
    using E gone by (auto simp: ids)
  have "before = [demo_pending ''m1''] \<and> m = demo_pending ''m2'' \<and> after = [demo_pending ''m3'']"
    using m(1,2) by (auto simp: Cons_eq_append_conv ids)
  then show ?thesis
    using m(3-5) call by (cases "hm_get (pending s') ''1''") (auto simp: ids)
qed

end
