(* ===== verification/Stomp_Receipts.thy ===== *)
theory Stomp_Receipts
  imports Stomp_Registry
begin

text \<open>
  Receipts (\<^verbatim>\<open>src/connection.rs\<close>): \<^verbatim>\<open>generate_receipt_id\<close>, \<^verbatim>\<open>send_frame_with_receipt\<close>,
  \<^verbatim>\<open>settle_receipt\<close>, \<^verbatim>\<open>ReceiptHandle::wait\<close>, \<^verbatim>\<open>send_frame_confirmed\<close> and \<^verbatim>\<open>close\<close>. The
  facts: the frame goes out with exactly one receipt header, the broker's answer reaches the
  handle that asked for it and no other, and a waiting handle is always still awaited.
\<close>

section \<open>The operations\<close>

definition generate_receipt_id :: "('c, 'q) conn \<Rightarrow> string \<times> ('c, 'q) conn" where
  "generate_receipt_id s =
     (''rcpt-'' @ show_nat (receipt_counter s), s\<lparr>receipt_counter := receipt_counter s + 1\<rparr>)"

record receipt_handle =
  rh_receipt_id :: string
  rh_rx :: oneshot_id

definition drop_receipt_headers :: "frame \<Rightarrow> frame" where
  "drop_receipt_headers f =
     f\<lparr>headers := filter (\<lambda>(key, _). \<not> eq_ignore_ascii_case key ''receipt'') (headers f)\<rparr>"

definition send_frame_with_receipt ::
  "('q, outbound) try_send \<Rightarrow> frame \<Rightarrow> ('c, 'q) conn \<Rightarrow>
   ((conn_error, receipt_handle) result \<times> ('c, 'q) conn) option" where
  "send_frame_with_receipt tso f s =
     (case generate_receipt_id s of
        (rid, s) \<Rightarrow>
          let tx = next_oneshot s;
              s = s\<lparr>next_oneshot := tx + 1,
                    pending_receipts := hm_insert rid tx (pending_receipts s)\<rparr>;
              f = with_receipt rid (drop_receipt_headers f)
          in case send_frame tso f s of
               None \<Rightarrow> None
             | Some (Inl e, s) \<Rightarrow>
                 Some (Inl e, s\<lparr>pending_receipts := hm_remove rid (pending_receipts s)\<rparr>)
             | Some (Inr _, s) \<Rightarrow> Some (Inr \<lparr>rh_receipt_id = rid, rh_rx = tx\<rparr>, s))"

definition settle_receipt ::
  "frame \<Rightarrow> receipt_outcome \<Rightarrow> ('c, 'q) conn \<Rightarrow> ('c, 'q) conn" where
  "settle_receipt f outcome s =
     (case get_header f ''receipt-id'' of
        None \<Rightarrow> s
      | Some rid \<Rightarrow>
          (case hm_get (pending_receipts s) rid of
             None \<Rightarrow> s
           | Some tx \<Rightarrow>
               s\<lparr>pending_receipts := hm_remove rid (pending_receipts s),
                 outcomes := (outcomes s)(tx := Some outcome)\<rparr>))"

text \<open>
  How \<^verbatim>\<open>tokio::time::timeout(timeout, rx)\<close> ends: with the value sent, with the sender dropped,
  or at the timeout.
\<close>

datatype rx_event = RxOutcome receipt_outcome | RxClosed | RxElapsed

definition receipt_wait ::
  "receipt_handle \<Rightarrow> rx_event \<Rightarrow> ('c, 'q) conn \<Rightarrow> (conn_error, unit) result \<times> ('c, 'q) conn" where
  "receipt_wait h ev s =
     (case ev of
        RxOutcome (Inr u) \<Rightarrow> (Inr u, s)
      | RxOutcome (Inl e) \<Rightarrow> (Inl (FrameRejected e), s)
      | RxClosed \<Rightarrow> (Inl (Protocol ''receipt channel closed unexpectedly''), s)
      | RxElapsed \<Rightarrow>
          (Inl (ReceiptTimeout (rh_receipt_id h)),
           s\<lparr>pending_receipts := hm_remove (rh_receipt_id h) (pending_receipts s)\<rparr>))"

text \<open>
  What the receiver of a handle can observe: the value once it is sent, a dropped sender when
  nothing holds the sender any more, the timeout only while neither has happened.
\<close>

definition rx_observes :: "receipt_handle \<Rightarrow> ('c, 'q) conn \<Rightarrow> bool \<Rightarrow> rx_event option" where
  "rx_observes h s elapsed =
     (case outcomes s (rh_rx h) of
        Some oc \<Rightarrow> Some (RxOutcome oc)
      | None \<Rightarrow>
          if rh_rx h \<notin> snd ` set (pending_receipts s) then Some RxClosed
          else if elapsed then Some RxElapsed else None)"

text \<open>
  \<^verbatim>\<open>send_frame_confirmed\<close> and \<^verbatim>\<open>close\<close>, from the event that ends the wait: \<open>ev\<close> gives it from
  the handle, and \<open>mid\<close> is what the rest of the program does to the state meanwhile. \<^verbatim>\<open>close\<close>
  signals the shutdown whatever the answer was, which is the third component.
\<close>

definition send_frame_confirmed where
  "send_frame_confirmed tso f mid ev s =
     (case send_frame_with_receipt tso f s of
        None \<Rightarrow> None
      | Some (Inl e, s) \<Rightarrow> Some (Inl e, s)
      | Some (Inr h, s) \<Rightarrow> Some (receipt_wait h (ev h) (mid s)))"

definition close_conn where
  "close_conn tso mid ev s =
     (case send_frame_confirmed tso (frame_new ''DISCONNECT'') mid ev s of
        None \<Rightarrow> None
      | Some (r, s) \<Rightarrow> Some (r, s, True))"

section \<open>The invariant\<close>

definition receipts_inv :: "('c, 'q, 'x) conn_scheme \<Rightarrow> bool" where
  "receipts_inv s \<longleftrightarrow>
     hm_ok (pending_receipts s) \<and> distinct (map snd (pending_receipts s)) \<and>
     (\<forall>(rid, tx)\<in>set (pending_receipts s).
        (\<exists>k < receipt_counter s. rid = ''rcpt-'' @ show_nat k) \<and> tx < next_oneshot s \<and>
        outcomes s tx = None) \<and>
     (\<forall>tx \<ge> next_oneshot s. outcomes s tx = None)"

text \<open>A handle the application may still wait on: answered, or still registered.\<close>

definition handle_live :: "receipt_handle \<Rightarrow> ('c, 'q, 'x) conn_scheme \<Rightarrow> bool" where
  "handle_live h s \<longleftrightarrow>
     rh_rx h < next_oneshot s \<and>
     (outcomes s (rh_rx h) \<noteq> None \<or> (rh_receipt_id h, rh_rx h) \<in> set (pending_receipts s))"

lemma receipts_inv_new: "receipts_inv (conn_new q cs)"
  by (simp add: receipts_inv_def conn_new_def)

lemma hm_get_in: "hm_ok m \<Longrightarrow> hm_get m k = Some v \<longleftrightarrow> (k, v) \<in> set m"
  by (simp add: map_of_eq_Some_iff)

lemma hm_remove_subset: "x \<in> set (hm_remove k m) \<Longrightarrow> x \<in> set m"
  by (auto simp: AList.delete_eq)

lemma in_hm_remove: "hm_ok m \<Longrightarrow> x \<in> set (hm_remove k m) \<longleftrightarrow> x \<in> set m \<and> fst x \<noteq> k"
  by (auto simp: AList.delete_eq)

lemma hm_insert_new: "k \<notin> fst ` set m \<Longrightarrow> hm_insert k v m = m @ [(k, v)]"
  by (induction m) auto

lemma hm_remove_insert: "k \<notin> fst ` set m \<Longrightarrow> hm_remove k (hm_insert k v m) = m"
  by (induction m) auto

lemma distinct_snd_remove: "distinct (map snd m) \<Longrightarrow> distinct (map snd (hm_remove k m))"
  by (simp add: AList.delete_eq distinct_map_filter)

text \<open>A fresh receipt id.\<close>

lemma receipt_id_fresh:
  "receipts_inv s \<Longrightarrow> ''rcpt-'' @ show_nat (receipt_counter s) \<notin> fst ` set (pending_receipts s)"
  using show_nat_inj by (fastforce simp: receipts_inv_def)

definition registered :: "('c, 'q) conn \<Rightarrow> ('c, 'q) conn" where
  "registered s = s\<lparr>receipt_counter := receipt_counter s + 1, next_oneshot := next_oneshot s + 1,
     pending_receipts := hm_insert (''rcpt-'' @ show_nat (receipt_counter s)) (next_oneshot s)
       (pending_receipts s)\<rparr>"

lemma receipts_inv_registered:
  assumes "receipts_inv s"
  shows "receipts_inv (registered s)"
proof -
  have "next_oneshot s \<notin> snd ` set (pending_receipts s)"
    using assms by (auto simp: receipts_inv_def)
  then show ?thesis
    using assms receipt_id_fresh [OF assms]
    by (auto simp: receipts_inv_def registered_def hm_insert_new less_Suc_eq)
qed

lemma receipts_inv_remove:
  assumes "receipts_inv s"
  shows "receipts_inv (s\<lparr>pending_receipts := hm_remove rid (pending_receipts s)\<rparr>)"
  using assms
  by (auto simp: receipts_inv_def distinct_snd_remove dest: hm_remove_subset)

lemma receipts_inv_outbound [simp]:
  "receipts_inv (s\<lparr>outbound_tx := q\<rparr>) = receipts_inv s"
  "handle_live h (s\<lparr>outbound_tx := q\<rparr>) = handle_live h s"
  by (simp_all add: receipts_inv_def handle_live_def)

lemma settle_cases:
  assumes "receipts_inv s"
  obtains (Unknown) "settle_receipt f oc s = s"
      "\<forall>rid tx. get_header f ''receipt-id'' = Some rid \<longrightarrow> (rid, tx) \<notin> set (pending_receipts s)"
  | (Settled) rid tx where "get_header f ''receipt-id'' = Some rid" "(rid, tx) \<in> set (pending_receipts s)"
      "settle_receipt f oc s = s\<lparr>pending_receipts := hm_remove rid (pending_receipts s),
         outcomes := (outcomes s)(tx := Some oc)\<rparr>"
proof (cases "get_header f ''receipt-id''")
  case None
  then show ?thesis by (intro that(1)) (simp_all add: settle_receipt_def)
next
  case rid: (Some rid)
  have ok: "hm_ok (pending_receipts s)" using assms by (simp add: receipts_inv_def)
  show ?thesis
  proof (cases "hm_get (pending_receipts s) rid")
    case None
    then have "(rid, tx) \<notin> set (pending_receipts s)" for tx
      using hm_get_in [OF ok, of rid tx] by simp
    with None rid show ?thesis by (intro that(1)) (simp_all add: settle_receipt_def)
  next
    case (Some tx)
    with rid ok show ?thesis
      by (intro that(2) [of rid tx]) (simp_all add: settle_receipt_def hm_get_in)
  qed
qed

lemma receipts_inv_settle:
  assumes "receipts_inv s"
  shows "receipts_inv (settle_receipt f oc s)"
  using assms
proof (cases rule: settle_cases [of s f oc])
  case Unknown
  then show ?thesis using assms by simp
next
  case (Settled rid tx)
  have ok: "hm_ok (pending_receipts s)" and dist: "distinct (map snd (pending_receipts s))"
    using assms by (simp_all add: receipts_inv_def)
  have other: "tx' \<noteq> tx" if "(rid', tx') \<in> set (hm_remove rid (pending_receipts s))" for rid' tx'
  proof
    assume "tx' = tx"
    then have "snd (rid', tx') = snd (rid, tx)" by simp
    then have "(rid', tx') = (rid, tx)"
      using that Settled(2) ok dist
      by (intro inj_onD [of snd "set (pending_receipts s)"]) (simp_all add: in_hm_remove distinct_map)
    then show False using that ok by (simp add: in_hm_remove)
  qed
  have "tx < next_oneshot s"
    using assms Settled(2) by (auto simp: receipts_inv_def)
  then show ?thesis
    unfolding Settled(3)
    using assms other
    by (auto simp: receipts_inv_def distinct_snd_remove dest: hm_remove_subset)
qed

lemma handle_live_settle:
  assumes "receipts_inv s" and "handle_live h s"
  shows "handle_live h (settle_receipt f oc s)"
  using assms(1)
proof (cases rule: settle_cases [of s f oc])
  case Unknown
  then show ?thesis using assms by simp
next
  case (Settled rid tx)
  have ok: "hm_ok (pending_receipts s)" using assms by (simp add: receipts_inv_def)
  have "rh_rx h = tx" if "rh_receipt_id h = rid" "(rid, rh_rx h) \<in> set (pending_receipts s)"
    using that Settled(2) ok by (metis hm_get_in option.inject)
  then show ?thesis
    using assms(2) ok by (auto simp: handle_live_def Settled(3) in_hm_remove)
qed

section \<open>Properties\<close>

text \<open>
  A frame sent with a receipt request goes out with exactly one receipt header, the fresh
  id of the returned handle, its other headers, command and body unchanged; the handle is
  registered before the frame can be answered. A send that fails leaves no registration behind.
\<close>

theorem receipt_requested:
  assumes out: "outbound_channel tso out_queued task_gone"
    and inv: "receipts_inv s"
    and call: "send_frame_with_receipt tso f s = Some (r, s')"
  shows "receipts_inv s' \<and>
    (case r of
       Inl e \<Rightarrow> pending_receipts s' = pending_receipts s \<and> outbound_tx s' = outbound_tx s
     | Inr h \<Rightarrow>
         hm_get (pending_receipts s) (rh_receipt_id h) = None \<and>
         hm_get (pending_receipts s') (rh_receipt_id h) = Some (rh_rx h) \<and>
         outcomes s' (rh_rx h) = None \<and> handle_live h s' \<and>
         (\<exists>g. out_queued (outbound_tx s') = out_queued (outbound_tx s) @ [Item (Frame g)] \<and>
            command g = command f \<and> body g = body f \<and>
            headers g = filter (\<lambda>(k, _). \<not> eq_ignore_ascii_case k ''receipt'') (headers f) @
              [(''receipt'', rh_receipt_id h)] \<and>
            get_header g ''receipt'' = Some (rh_receipt_id h)))"
proof -
  let ?rid = "''rcpt-'' @ show_nat (receipt_counter s)"
  let ?g = "with_receipt ?rid (drop_receipt_headers f)"
  let ?s1 = "registered s"
  have inv1: "receipts_inv ?s1" by (rule receipts_inv_registered [OF inv])
  have fresh: "?rid \<notin> fst ` set (pending_receipts s)" by (rule receipt_id_fresh [OF inv])
  have none: "hm_get (pending_receipts s) ?rid = None"
    using fresh by (simp add: map_of_eq_None_iff)
  have unanswered: "outcomes s (next_oneshot s) = None"
    using inv by (simp add: receipts_inv_def)
  have "find_header ''receipt'' (filter (\<lambda>(k, _). \<not> eq_ignore_ascii_case k ''receipt'') (headers f)) = None"
    by (auto simp: find_header_None)
  then have hdr: "get_header ?g ''receipt'' = Some ?rid"
    by (simp add: with_receipt_def with_header_def drop_receipt_headers_def get_header_def
        find_header_append)
  note unfold = send_frame_with_receipt_def generate_receipt_id_def Let_def send_frame_def registered_def
  show ?thesis
  proof (rule outbound_channel.send_out_cases [OF out, of "Item (Frame ?g)" ?s1])
    assume "send_out tso (Item (Frame ?g)) ?s1 = None"
    then show ?thesis using call by (simp add: unfold)
  next
    fix q
    assume "send_out tso (Item (Frame ?g)) ?s1 = Some (Inr (), ?s1\<lparr>outbound_tx := q\<rparr>)"
      and q: "out_queued q = out_queued (outbound_tx ?s1) @ [Item (Frame ?g)]"
    then have r: "r = Inr \<lparr>rh_receipt_id = ?rid, rh_rx = next_oneshot s\<rparr>"
      "s' = ?s1\<lparr>outbound_tx := q\<rparr>"
      using call by (simp_all add: unfold)
    have q': "out_queued q = out_queued (outbound_tx s) @ [Item (Frame ?g)]"
      using q by (simp add: registered_def)
    have reg: "hm_get (pending_receipts ?s1) ?rid = Some (next_oneshot s)"
      "outcomes ?s1 (next_oneshot s) = None" "next_oneshot s < next_oneshot ?s1"
      "(?rid, next_oneshot s) \<in> set (pending_receipts ?s1)"
      using unanswered by (simp_all add: registered_def) (simp add: hm_insert_new [OF fresh, simplified])
    show ?thesis
      unfolding r using inv1 none reg hdr q'
      by (auto simp: handle_live_def with_receipt_def with_header_def drop_receipt_headers_def)
  next
    assume "send_out tso (Item (Frame ?g)) ?s1 = Some (Inl (Protocol ''send channel closed''), ?s1)"
    then have r: "r = Inl (Protocol ''send channel closed'')"
      "s' = ?s1\<lparr>pending_receipts := hm_remove ?rid (pending_receipts ?s1)\<rparr>"
      using call by (simp_all add: unfold)
    have "pending_receipts s' = pending_receipts s" "outbound_tx s' = outbound_tx s"
      unfolding r by (simp_all add: registered_def hm_remove_insert [OF fresh, simplified])
    moreover have "receipts_inv s'"
      unfolding r by (rule receipts_inv_remove [OF inv1])
    ultimately show ?thesis unfolding r by simp
  qed
qed

text \<open>
  C16. The broker's answer reaches exactly the handle it names: after the RECEIPT (or the ERROR)
  with its receipt id, the wait of that handle ends with success (with the rejection), every
  other live handle observes what it observed before, and a second answer with the same id
  changes nothing.
\<close>

theorem receipt_settled:
  assumes inv: "receipts_inv s"
    and waiting: "(rh_receipt_id h, rh_rx h) \<in> set (pending_receipts s)"
    and answer: "get_header f ''receipt-id'' = Some (rh_receipt_id h)"
  shows "let s' = settle_receipt f oc s in
    receipts_inv s' \<and> rx_observes h s' elapsed = Some (RxOutcome oc) \<and>
    fst (receipt_wait h (RxOutcome oc) s') =
      (case oc of Inr _ \<Rightarrow> Inr () | Inl e \<Rightarrow> Inl (FrameRejected e)) \<and>
    (\<forall>h'. handle_live h' s \<and> rh_rx h' \<noteq> rh_rx h \<longrightarrow>
       handle_live h' s' \<and> rx_observes h' s' elapsed = rx_observes h' s elapsed) \<and>
    settle_receipt f oc' s' = s'"
proof -
  have ok: "hm_ok (pending_receipts s)" and dist: "distinct (map snd (pending_receipts s))"
    using inv by (simp_all add: receipts_inv_def)
  have s': "settle_receipt f oc s = s\<lparr>pending_receipts := hm_remove (rh_receipt_id h) (pending_receipts s),
      outcomes := (outcomes s)(rh_rx h := Some oc)\<rparr>"
    using answer waiting ok by (simp add: settle_receipt_def hm_get_in)
  have again: "settle_receipt f oc' (settle_receipt f oc s) = settle_receipt f oc s"
    unfolding s' using answer by (simp add: settle_receipt_def)
  have other: "rx_observes h' (settle_receipt f oc s) elapsed = rx_observes h' s elapsed"
    if live: "handle_live h' s" and ne: "rh_rx h' \<noteq> rh_rx h" for h'
  proof -
    have "rh_rx h' \<in> snd ` set (hm_remove (rh_receipt_id h) (pending_receipts s)) \<longleftrightarrow>
        rh_rx h' \<in> snd ` set (pending_receipts s)"
    proof
      assume "rh_rx h' \<in> snd ` set (pending_receipts s)"
      then obtain rid where rid: "(rid, rh_rx h') \<in> set (pending_receipts s)" by force
      then have "rid \<noteq> rh_receipt_id h"
        using waiting ok ne by (metis hm_get_in option.inject)
      then show "rh_rx h' \<in> snd ` set (hm_remove (rh_receipt_id h) (pending_receipts s))"
        using rid ok by (force simp: in_hm_remove)
    qed (auto dest: hm_remove_subset)
    then show ?thesis
      using ne by (simp add: s' rx_observes_def)
  qed
  have "rx_observes h (settle_receipt f oc s) elapsed = Some (RxOutcome oc)"
    by (simp add: s' rx_observes_def)
  then show ?thesis
    using receipts_inv_settle [OF inv] handle_live_settle [OF inv] other again
    by (auto simp: Let_def receipt_wait_def split: sum.split)
qed

text \<open>
  What else can happen to the receipts of a connection while a handle waits: another frame is sent
  with a receipt (a send that still waits for room, or whose caller went away while it did, has
  registered its receipt), the broker answers one, another wait gives up, and frames come and go
  in the outbound channel.
\<close>

datatype 'q receipt_event = Asked frame | Answered frame receipt_outcome | GivenUp receipt_handle | Traffic 'q

fun after_event ::
  "('q, outbound) try_send \<Rightarrow> 'q receipt_event \<Rightarrow> ('c, 'q) conn \<Rightarrow> ('c, 'q) conn" where
  "after_event tso (Asked f) s =
     (case send_frame_with_receipt tso f s of Some (_, s') \<Rightarrow> s' | None \<Rightarrow> registered s)"
| "after_event tso (Answered f oc) s = settle_receipt f oc s"
| "after_event tso (GivenUp h) s = snd (receipt_wait h RxElapsed s)"
| "after_event tso (Traffic q) s = s\<lparr>outbound_tx := q\<rparr>"

lemma handle_live_registered:
  assumes "receipts_inv s" and "handle_live h s"
  shows "handle_live h (registered s)"
  using assms(2) hm_insert_new [OF receipt_id_fresh [OF assms(1)]]
  by (auto simp: handle_live_def registered_def)

lemma handle_live_remove:
  assumes "receipts_inv s" and "handle_live h s" and "rid \<noteq> rh_receipt_id h"
  shows "handle_live h (s\<lparr>pending_receipts := hm_remove rid (pending_receipts s)\<rparr>)"
  using assms by (auto simp: handle_live_def receipts_inv_def in_hm_remove)

lemma request_cases:
  assumes out: "outbound_channel tso out_queued task_gone"
    and call: "send_frame_with_receipt tso f s = Some (r, s')"
  obtains q where "s' = (registered s)\<lparr>outbound_tx := q\<rparr>"
  | "s' = (registered s)\<lparr>pending_receipts :=
       hm_remove (''rcpt-'' @ show_nat (receipt_counter s)) (pending_receipts (registered s))\<rparr>"
proof -
  let ?g = "with_receipt (''rcpt-'' @ show_nat (receipt_counter s)) (drop_receipt_headers f)"
  note unfold = send_frame_with_receipt_def generate_receipt_id_def Let_def send_frame_def registered_def
  show ?thesis
  proof (rule outbound_channel.send_out_cases [OF out, of "Item (Frame ?g)" "registered s"])
    fix q
    assume "send_out tso (Item (Frame ?g)) (registered s) = Some (Inr (), (registered s)\<lparr>outbound_tx := q\<rparr>)"
    then show ?thesis using call by (intro that(1) [of q]) (simp add: unfold)
  next
    assume "send_out tso (Item (Frame ?g)) (registered s) = Some (Inl (Protocol ''send channel closed''), registered s)"
    then show ?thesis using call by (intro that(2)) (simp add: unfold)
  qed (use call in \<open>simp add: unfold\<close>)
qed

lemma event_live:
  assumes out: "outbound_channel tso out_queued task_gone"
    and inv: "receipts_inv s" and live: "handle_live h s"
    and other: "\<And>h'. ev = GivenUp h' \<Longrightarrow> rh_receipt_id h' \<noteq> rh_receipt_id h"
  shows "receipts_inv (after_event tso ev s) \<and> handle_live h (after_event tso ev s)"
proof (cases ev)
  case (Asked f)
  note reg = receipts_inv_registered [OF inv] handle_live_registered [OF inv live]
  show ?thesis
  proof (cases "send_frame_with_receipt tso f s")
    case None
    then show ?thesis using reg Asked by simp
  next
    case (Some rs)
    obtain r s' where call: "send_frame_with_receipt tso f s = Some (r, s')" using Some by (cases rs) simp
    from out call have "receipts_inv s' \<and> handle_live h s'"
    proof (cases rule: request_cases)
      case (1 q)
      then show ?thesis using reg by simp
    next
      case 2
      then have "pending_receipts s' = pending_receipts s" "outcomes s' = outcomes s" "next_oneshot s' = Suc (next_oneshot s)"
        using hm_remove_insert [OF receipt_id_fresh [OF inv]] by (simp_all add: registered_def)
      then have "handle_live h s'" using live by (auto simp: handle_live_def)
      moreover have "receipts_inv s'" unfolding 2 by (rule receipts_inv_remove [OF reg(1)])
      ultimately show ?thesis by blast
    qed
    then show ?thesis using Asked call by simp
  qed
next
  case (Answered f oc)
  then show ?thesis using receipts_inv_settle [OF inv] handle_live_settle [OF inv live] by simp
next
  case (GivenUp h')
  then show ?thesis
    using receipts_inv_remove [OF inv] handle_live_remove [OF inv live other] by (simp add: receipt_wait_def)
qed (use inv live in simp)

lemma live_not_closed: "handle_live h s \<Longrightarrow> rx_observes h s elapsed \<noteq> Some RxClosed"
  by (cases "outcomes s (rh_rx h)")
    (auto simp: handle_live_def rx_observes_def intro: image_eqI [where x = "(rh_receipt_id h, rh_rx h)"])

lemma wait_not_closed:
  "ev \<noteq> RxClosed \<Longrightarrow> fst (receipt_wait h ev s) \<noteq> Inl (Protocol ''receipt channel closed unexpectedly'')"
  by (simp add: receipt_wait_def split: rx_event.split sum.split)

text \<open>
  C28. A handle that is waiting never sees its channel closed. From the request that returned it,
  whatever other receipts are asked for, answered or given up meanwhile, in whatever order and
  number, and whatever passes through the outbound channel: until the handle's own wait gives up,
  its sender stays registered or it has been answered, so the wait ends with the broker's answer
  or with the time-out, never with a closed channel.
\<close>

theorem receipt_never_closed:
  assumes out: "outbound_channel tso out_queued task_gone"
    and inv: "receipts_inv s" and asked: "send_frame_with_receipt tso f s = Some (Inr h, s0)"
    and others: "\<forall>h'. GivenUp h' \<in> set evs \<longrightarrow> rh_receipt_id h' \<noteq> rh_receipt_id h"
  shows "let s' = fold (after_event tso) evs s0 in
    rx_observes h s' elapsed \<noteq> Some RxClosed \<and>
    (outcomes s' (rh_rx h) \<noteq> None \<or> hm_get (pending_receipts s') (rh_receipt_id h) = Some (rh_rx h)) \<and>
    fst (receipt_wait h (the (rx_observes h s' True)) s') \<noteq> Inl (Protocol ''receipt channel closed unexpectedly'')"
proof -
  have "receipts_inv (fold (after_event tso) evs s0) \<and> handle_live h (fold (after_event tso) evs s0)"
    if "receipts_inv s0" "handle_live h s0"
    using that others
  proof (induction evs arbitrary: s0)
    case (Cons ev evs)
    then have "receipts_inv (after_event tso ev s0) \<and> handle_live h (after_event tso ev s0)"
      by (intro event_live [OF out]) auto
    then show ?case using Cons.IH [of "after_event tso ev s0"] Cons.prems(3) by simp
  qed simp
  then have live: "receipts_inv (fold (after_event tso) evs s0)" "handle_live h (fold (after_event tso) evs s0)"
    using receipt_requested [OF out inv asked] by simp_all
  then show ?thesis
    unfolding Let_def
  proof (intro conjI)
    let ?s' = "fold (after_event tso) evs s0"
    show "rx_observes h ?s' elapsed \<noteq> Some RxClosed" by (rule live_not_closed [OF live(2)])
    show "outcomes ?s' (rh_rx h) \<noteq> None \<or> hm_get (pending_receipts ?s') (rh_receipt_id h) = Some (rh_rx h)"
      using live by (auto simp: handle_live_def receipts_inv_def hm_get_in)
    have "rx_observes h ?s' True \<noteq> None" by (simp add: rx_observes_def split: option.split)
    with live_not_closed [OF live(2), of True]
    show "fst (receipt_wait h (the (rx_observes h ?s' True)) ?s') \<noteq>
        Inl (Protocol ''receipt channel closed unexpectedly'')"
      by (intro wait_not_closed) auto
  qed
qed

definition one_receipt_conn :: "(frame bounded_chan, outbound bounded_chan) conn" where
  "one_receipt_conn = registered fresh_conn"

theorem receipt_never_closed_witness:
  "\<exists>h s0. send_frame_with_receipt bc_try_send (frame_new ''DISCONNECT'') fresh_conn = Some (Inr h, s0) \<and>
     rx_observes h (fold (after_event bc_try_send) [Asked (frame_new ''SEND'')] s0) True \<noteq> Some RxClosed"
proof -
  obtain h s0 where call: "send_frame_with_receipt bc_try_send (frame_new ''DISCONNECT'') fresh_conn = Some (Inr h, s0)"
    by (simp add: send_frame_with_receipt_def generate_receipt_id_def send_frame_def send_out_def
        bc_try_send_def fresh_conn_def conn_new_def bc_new_def)
  have "receipts_inv fresh_conn" unfolding fresh_conn_def by (rule receipts_inv_new)
  from receipt_never_closed [OF bounded_outbound.outbound_channel_axioms this call, of "[Asked (frame_new ''SEND'')]"]
  show ?thesis using call by (auto simp: Let_def)
qed

definition one_handle :: receipt_handle where
  "one_handle = \<lparr>rh_receipt_id = ''rcpt-1'', rh_rx = 0\<rparr>"

lemma receipts_inv_fresh: "receipts_inv fresh_conn"
  unfolding fresh_conn_def by (rule receipts_inv_new)

lemma show_nat_1: "show_nat (Suc 0) = ''1''"
  by code_simp

lemma one_receipt_facts:
  "receipts_inv one_receipt_conn" "handle_live one_handle one_receipt_conn"
  "(rh_receipt_id one_handle, rh_rx one_handle) \<in> set (pending_receipts one_receipt_conn)"
  using receipts_inv_registered [OF receipts_inv_fresh]
  by (simp_all add: one_receipt_conn_def handle_live_def one_handle_def)
    (simp_all add: registered_def fresh_conn_def conn_new_def show_nat_1)

lemma receipt_requested_witness:
  "\<exists>r s'. send_frame_with_receipt bc_try_send (frame_new ''DISCONNECT'') fresh_conn = Some (r, s') \<and>
     receipts_inv s'"
proof -
  have "send_frame_with_receipt bc_try_send (frame_new ''DISCONNECT'') fresh_conn \<noteq> None"
    by (simp add: send_frame_with_receipt_def generate_receipt_id_def send_frame_def send_out_def
        bc_try_send_def fresh_conn_def conn_new_def bc_new_def)
  then show ?thesis
    using receipt_requested [OF bounded_outbound.outbound_channel_axioms receipts_inv_fresh]
    by fastforce
qed

lemma receipt_settled_witness:
  "rx_observes one_handle
     (settle_receipt (with_header ''receipt-id'' ''rcpt-1'' (frame_new ''RECEIPT'')) (Inr ())
        one_receipt_conn) False = Some (RxOutcome (Inr ()))"
proof -
  have "get_header (with_header ''receipt-id'' ''rcpt-1'' (frame_new ''RECEIPT'')) ''receipt-id'' =
      Some (rh_receipt_id one_handle)"
    by (simp add: get_header_with_header one_handle_def)
  then show ?thesis
    using receipt_settled [OF one_receipt_facts(1,3), of _ "Inr ()" False] by (simp add: Let_def)
qed

end
