(* ===== verification/Stomp_Task.thy ===== *)
theory Stomp_Task
  imports Stomp_Acks Stomp_Receipts
begin

text \<open>
  The background task of \<^verbatim>\<open>connect_with_options\<close> (\<^verbatim>\<open>src/connection.rs\<close>): its own state and one
  function per branch of its \<^verbatim>\<open>select!\<close> loop, with what it does when a session begins, when it
  ends and when the task ends. A handler is the code between two points where the loop waits
  for its next event; \<open>None\<close> is a panic (or a loop that does not end) inside the handler.

  Parameters: \<open>ts\<close> is tokio's \<^verbatim>\<open>try_send\<close>; \<open>wok\<close> says, from what was written so far, whether
  the next write to the socket succeeds; \<open>now\<close> is the clock in milliseconds.
\<close>

section \<open>The state of the task\<close>

type_synonym wire_log = "(nat \<times> stomp_item) list"
type_synonym write_oracle = "wire_log \<Rightarrow> stomp_item \<Rightarrow> bool"

record ('c, 'q) task =
  shared :: "('c, 'q) conn"
  session :: nat
  sub_errors :: "(string, nat) hmap"
  abandoned_ids :: "string set"
  overflowed_ids :: "string set"
  parked :: wake_list
  backoff_secs :: nat
  last_received :: nat
  last_sent :: nat
  hb_notified :: nat
  wire :: wire_log

definition task_new :: "nat \<Rightarrow> ('c, 'q) conn \<Rightarrow> ('c, 'q) task" where
  "task_new now s =
     \<lparr>shared = s, session = 0, sub_errors = [], abandoned_ids = {}, overflowed_ids = {},
      parked = [], backoff_secs = 1, last_received = now, last_sent = now, hb_notified = 0,
      wire = []\<rparr>"

definition on_shared :: "(('c, 'q) conn \<Rightarrow> ('c, 'q) conn) \<Rightarrow> ('c, 'q) task \<Rightarrow> ('c, 'q) task" where
  "on_shared f t = t\<lparr>shared := f (shared t)\<rparr>"

datatype flow = Continue | BreakConn

definition SUBSCRIPTION_ERROR_THRESHOLD :: nat where
  "SUBSCRIPTION_ERROR_THRESHOLD = 3"

text \<open>\<^verbatim>\<open>sink.send(item).await\<close>; what is written is logged with the session it is written in.\<close>

definition write_item :: "write_oracle \<Rightarrow> stomp_item \<Rightarrow> ('c, 'q) task \<Rightarrow> bool \<times> ('c, 'q) task" where
  "write_item wok item t =
     (if wok (wire t) item then (True, t\<lparr>wire := wire t @ [(session t, item)]\<rparr>) else (False, t))"

text \<open>\<^verbatim>\<open>forward_inbound\<close> on the connection-wide channel, at address 0.\<close>

definition inbound_chan :: chan_id where
  "inbound_chan = 0"

definition forward :: "('c, frame) try_send \<Rightarrow> frame \<Rightarrow> ('c, 'q) task \<Rightarrow> ('c, 'q) task" where
  "forward ts f t =
     on_shared (\<lambda>s. s\<lparr>chans := (chans s)(inbound_chan := forward_inbound ts f (chans s inbound_chan))\<rparr>) t"

section \<open>Writing what the application queued\<close>

definition handle_outbound ::
  "write_oracle \<Rightarrow> nat \<Rightarrow> outbound \<Rightarrow> ('c, 'q) task \<Rightarrow> ('c, 'q) task \<times> flow" where
  "handle_outbound wok now out t =
     (case writable_in out (session t) of
        None \<Rightarrow> (t, Continue)
      | Some item \<Rightarrow>
          let t = (case item of
                     Frame f \<Rightarrow>
                       if command f = ''UNSUBSCRIBE'' then
                         (case get_header f ''id'' of
                            Some i \<Rightarrow> on_shared (forget_pending i) t
                          | None \<Rightarrow> t)
                       else t
                   | Heartbeat \<Rightarrow> t)
          in case write_item wok item t of
               (False, t) \<Rightarrow> (t, BreakConn)
             | (True, t) \<Rightarrow> (t\<lparr>last_sent := now\<rparr>, Continue))"

section \<open>A heartbeat from the broker\<close>

definition handle_heartbeat :: "chan_id option \<Rightarrow> nat \<Rightarrow> ('c, 'q) task \<Rightarrow> ('c, 'q) task" where
  "handle_heartbeat notify now t =
     (let t = t\<lparr>last_received := now\<rparr>
      in if notify \<noteq> None then t\<lparr>hb_notified := hb_notified t + 1\<rparr> else t)"

section \<open>A MESSAGE\<close>

record msg_headers =
  mh_dest :: "string option"
  mh_sub :: "string option"
  mh_msg_id :: "string option"
  mh_ack :: "string option"

definition scan_header :: "msg_headers \<Rightarrow> string \<times> string \<Rightarrow> msg_headers" where
  "scan_header h kv =
     (case kv of (k, v) \<Rightarrow>
        let kl = to_lowercase k
        in if kl = ''destination'' then h\<lparr>mh_dest := Some v\<rparr>
           else if kl = ''subscription'' then h\<lparr>mh_sub := Some v\<rparr>
           else if kl = ''message-id'' then h\<lparr>mh_msg_id := Some v\<rparr>
           else if kl = ''ack'' \<and> mh_ack h = None then h\<lparr>mh_ack := Some v\<rparr>
           else h)"

definition scan_headers :: "(string \<times> string) list \<Rightarrow> msg_headers" where
  "scan_headers hs =
     foldl scan_header \<lparr>mh_dest = None, mh_sub = None, mh_msg_id = None, mh_ack = None\<rparr> hs"

definition need_pending :: "msg_headers \<Rightarrow> subscriptions \<Rightarrow> bool" where
  "need_pending h m =
     (case mh_sub h of
        Some sid \<Rightarrow> list_ex (\<lambda>e. sub_id e = sid \<and> sub_ack e \<noteq> Auto) (entries m)
      | None \<Rightarrow>
          (case mh_dest h of
             Some d \<Rightarrow> list_ex (\<lambda>e. sub_ack e \<noteq> Auto) (unwrap_or [] (hm_get m d))
           | None \<Rightarrow> False))"

definition push_pending :: "pending_message \<Rightarrow> string \<Rightarrow> pending_map \<Rightarrow> pending_map" where
  "push_pending pm sid p = hm_insert sid (unwrap_or [] (hm_get p sid) @ [pm]) p"

text \<open>The subscriptions a MESSAGE is recorded under, when it is recorded.\<close>

definition pending_targets :: "msg_headers \<Rightarrow> subscriptions \<Rightarrow> string list" where
  "pending_targets h m =
     (case mh_sub h of
        Some sid \<Rightarrow> [sid]
      | None \<Rightarrow>
          (case mh_dest h of
             Some d \<Rightarrow> map sub_id (filter (\<lambda>e. sub_ack e \<noteq> Auto) (unwrap_or [] (hm_get m d)))
           | None \<Rightarrow> []))"

definition record_pending ::
  "msg_headers \<Rightarrow> frame \<Rightarrow> nat \<Rightarrow> subscriptions \<Rightarrow> pending_map \<Rightarrow> pending_map" where
  "record_pending h f sess m p =
     (case mh_msg_id h of
        Some msg_id \<Rightarrow>
          if need_pending h m then
            foldl (\<lambda>p i. push_pending (pending_message_new (mh_ack h) msg_id f sess) i p)
              p (pending_targets h m)
          else p
      | None \<Rightarrow> p)"

text \<open>What the \<^verbatim>\<open>deliver\<close> closure captures and updates.\<close>

record 'c pass =
  ps_delivered :: bool
  ps_overflowed :: "(string \<times> string \<times> nat) list"
  ps_parked :: wake_list
  ps_cells :: cells
  ps_chans :: "chan_id \<Rightarrow> 'c"

definition deliver_entry ::
  "('c, frame) try_send \<Rightarrow> frame \<Rightarrow> string \<Rightarrow> sub_entry \<Rightarrow> 'c pass \<Rightarrow>
   (bool \<times> sub_entry \<times> 'c pass) option" where
  "deliver_entry ts f dest e p =
     (case deliver_and_keep ts e f (ps_chans p (sub_sender e)) of
        None \<Rightarrow> None
      | Some (outcome, e, c) \<Rightarrow>
          let keep = (outcome = Taken);
              limit = ov_limit (sub_overflow e);
              p = p\<lparr>ps_chans := (ps_chans p)(sub_sender e := c),
                    ps_delivered := ps_delivered p \<or> keep\<rparr>;
              p = (if outcome = Overflowed
                   then p\<lparr>ps_cells := end_subscription e (Overflowed_at limit) (ps_cells p),
                          ps_overflowed := ps_overflowed p @ [(sub_id e, dest, limit)]\<rparr>
                   else p);
              p = (if keep \<and> ov_queue (sub_overflow e) \<noteq> [] \<and>
                      \<not> list_ex (\<lambda>(i, _). i = sub_id e) (ps_parked p)
                   then p\<lparr>ps_parked := ps_parked p @ [(sub_id e, sub_sender e)]\<rparr>
                   else p)
          in Some (keep, e, p))"

text \<open>\<^verbatim>\<open>vec.retain_mut\<close> with the closure on the entries selected, and the pass over the map.\<close>

fun deliver_vec ::
  "('c, frame) try_send \<Rightarrow> frame \<Rightarrow> (sub_entry \<Rightarrow> bool) \<Rightarrow> string \<Rightarrow> sub_entry list \<Rightarrow> 'c pass \<Rightarrow>
   (sub_entry list \<times> 'c pass) option" where
  "deliver_vec ts f sel dest [] p = Some ([], p)"
| "deliver_vec ts f sel dest (e # es) p =
     (if sel e then
        (case deliver_entry ts f dest e p of
           None \<Rightarrow> None
         | Some (keep, e', p') \<Rightarrow>
             map_option (\<lambda>(es', p''). (if keep then e' # es' else es', p''))
               (deliver_vec ts f sel dest es p'))
      else map_option (\<lambda>(es', p'). (e # es', p')) (deliver_vec ts f sel dest es p))"

fun deliver_map ::
  "('c, frame) try_send \<Rightarrow> frame \<Rightarrow> (sub_entry \<Rightarrow> bool) \<Rightarrow> subscriptions \<Rightarrow> 'c pass \<Rightarrow>
   (subscriptions \<times> 'c pass) option" where
  "deliver_map ts f sel [] p = Some ([], p)"
| "deliver_map ts f sel ((dest, v) # m) p =
     (case deliver_vec ts f sel dest v p of
        None \<Rightarrow> None
      | Some (v', p') \<Rightarrow>
          map_option (\<lambda>(m', p''). ((dest, v') # m', p'')) (deliver_map ts f sel m p'))"

definition drop_empty :: "subscriptions \<Rightarrow> subscriptions" where
  "drop_empty m = filter (\<lambda>(_, v). v \<noteq> []) m"

definition live_ids :: "subscriptions \<Rightarrow> string set" where
  "live_ids m = sub_id ` set (entries m)"

text \<open>The delivery pass: the new registry, and the ids still registered when there was one.\<close>

definition deliver_pass ::
  "('c, frame) try_send \<Rightarrow> frame \<Rightarrow> msg_headers \<Rightarrow> subscriptions \<Rightarrow> 'c pass \<Rightarrow>
   (subscriptions \<times> string set option \<times> 'c pass) option" where
  "deliver_pass ts f h m p =
     (case mh_sub h of
        Some sid \<Rightarrow>
          map_option (\<lambda>(m', p'). (drop_empty m', Some (live_ids (drop_empty m')), p'))
            (deliver_map ts f (\<lambda>e. sub_id e = sid) m p)
      | None \<Rightarrow>
          (case mh_dest h of
             Some d \<Rightarrow>
               (case hm_get m d of
                  Some v \<Rightarrow>
                    map_option
                      (\<lambda>(v', p'). let m' = (if v' = [] then hm_remove d m else hm_insert d v' m)
                                  in (m', Some (live_ids m'), p'))
                      (deliver_vec ts f (\<lambda>_. True) d v p)
                | None \<Rightarrow> Some (m, Some (live_ids m), p))
           | None \<Rightarrow> Some (m, None, p)))"

definition overflow_frame :: "string \<times> string \<times> nat \<Rightarrow> frame" where
  "overflow_frame ov =
     (case ov of (i, dest, limit) \<Rightarrow>
        with_header ''x-overflow'' ''true''
          (with_header ''subscription'' i
            (with_header ''destination'' dest
              (with_header ''message''
                (''Subscription failed: more than '' @ show_nat limit @ '' messages parked for '' @ dest)
                (frame_new ''ERROR'')))))"

text \<open>Failing each subscription that hit its overflow limit; a write error leaves the rest.\<close>

fun fail_overflowed ::
  "('c, frame) try_send \<Rightarrow> write_oracle \<Rightarrow> nat \<Rightarrow> (string \<times> string \<times> nat) list \<Rightarrow>
   ('c, 'q) task \<Rightarrow> ('c, 'q) task \<times> flow" where
  "fail_overflowed ts wok now [] t = (t, Continue)"
| "fail_overflowed ts wok now (ov # ovs) t =
     (let i = fst ov;
          t = t\<lparr>parked := filter (\<lambda>(parked_id, _). parked_id \<noteq> i) (parked t)\<rparr>;
          t = forward ts (overflow_frame ov) t;
          t = t\<lparr>overflowed_ids := insert i (overflowed_ids t)\<rparr>
      in case write_item wok (Frame (unsubscribe_frame i)) t of
           (False, t) \<Rightarrow> (t, BreakConn)
         | (True, t) \<Rightarrow> fail_overflowed ts wok now ovs (t\<lparr>last_sent := now\<rparr>))"

definition sweep_pending :: "string set option \<Rightarrow> pending_map \<Rightarrow> pending_map" where
  "sweep_pending live p = (case live of Some ids \<Rightarrow> filter (\<lambda>(i, _). i \<in> ids) p | None \<Rightarrow> p)"

definition handle_message ::
  "('c, frame) try_send \<Rightarrow> write_oracle \<Rightarrow> nat \<Rightarrow> frame \<Rightarrow> ('c, 'q) task \<Rightarrow>
   (('c, 'q) task \<times> flow) option" where
  "handle_message ts wok now f t =
     (let h = scan_headers (headers f); s = shared t
      in if (case mh_sub h of Some sid \<Rightarrow> sid \<in> overflowed_ids t | None \<Rightarrow> False)
         then Some (t, Continue)
         else
           let pend = record_pending h f (session t) (subscriptions s) (pending s)
           in case deliver_pass ts f h (subscriptions s)
                     \<lparr>ps_delivered = False, ps_overflowed = [], ps_parked = parked t,
                      ps_cells = cells s, ps_chans = chans s\<rparr> of
                None \<Rightarrow> None
              | Some (m, live, p) \<Rightarrow>
                  let s = s\<lparr>subscriptions := m, pending := sweep_pending live pend,
                            cells := ps_cells p, chans := ps_chans p\<rparr>;
                      t = t\<lparr>shared := s, parked := ps_parked p\<rparr>
                  in (case fail_overflowed ts wok now (ps_overflowed p) t of
                        (t, BreakConn) \<Rightarrow> Some (t, BreakConn)
                      | (t, Continue) \<Rightarrow>
                          if ps_delivered p \<or> ps_overflowed p \<noteq> [] then Some (t, Continue)
                          else Some (forward ts f t, Continue)))"

section \<open>A RECEIPT, an ERROR, any other frame\<close>

definition handle_receipt :: "frame \<Rightarrow> ('c, 'q) task \<Rightarrow> ('c, 'q) task" where
  "handle_receipt f t = on_shared (settle_receipt f (Inr ())) t"

definition abandon_frame :: "nat \<Rightarrow> string \<Rightarrow> frame" where
  "abandon_frame cnt dest =
     with_header ''x-abandoned'' ''true''
       (with_header ''destination'' dest
         (with_header ''message''
           (''Subscription abandoned: '' @ show_nat cnt @ '' errors for '' @ dest)
           (frame_new ''ERROR'')))"

definition abandon ::
  "('c, frame) try_send \<Rightarrow> frame \<Rightarrow> string option \<Rightarrow> string \<Rightarrow> nat \<Rightarrow> ('c, 'q) task \<Rightarrow> ('c, 'q) task" where
  "abandon ts f sid dest cnt t =
     (let s = shared t
      in case hm_get (subscriptions s) dest of
           None \<Rightarrow> t
         | Some es \<Rightarrow>
             let msg = unwrap_or [] (get_header f ''message'');
                 t = t\<lparr>shared := s\<lparr>subscriptions := hm_remove dest (subscriptions s),
                                    cells := end_all es (Abandoned msg) (cells s)\<rparr>\<rparr>;
                 t = (case sid of
                        Some i \<Rightarrow> t\<lparr>abandoned_ids := insert i (abandoned_ids t)\<rparr>
                      | None \<Rightarrow> t)
             in forward ts (abandon_frame cnt dest) t)"

text \<open>
  Which destination an ERROR is about: the one it names, else the one its subscription id is
  registered under.
\<close>

definition error_destination :: "frame \<Rightarrow> string option \<Rightarrow> ('c, 'q) conn \<Rightarrow> string option" where
  "error_destination f sid s =
     (case extract_destination_from_error f of
        Some d \<Rightarrow> Some d
      | None \<Rightarrow> (case sid of Some i \<Rightarrow> lookup_destination_by_sub_id i s | None \<Rightarrow> None))"

definition handle_error ::
  "('c, frame) try_send \<Rightarrow> frame \<Rightarrow> ('c, 'q) task \<Rightarrow> (('c, 'q) task \<times> flow) option" where
  "handle_error ts f t =
     (let t = on_shared (settle_receipt f (Inl (server_error_from_frame f))) t
      in case extract_subscription_id_from_error f of
           None \<Rightarrow> None
         | Some sid \<Rightarrow>
             if (case sid of Some i \<Rightarrow> i \<in> abandoned_ids t | None \<Rightarrow> False)
             then Some (t, Continue)
             else
               let t = (case error_destination f sid (shared t) of
                          None \<Rightarrow> t
                        | Some dest \<Rightarrow>
                            let cnt = unwrap_or 0 (hm_get (sub_errors t) dest) + 1;
                                t = t\<lparr>sub_errors := hm_insert dest cnt (sub_errors t)\<rparr>
                            in if cnt \<ge> SUBSCRIPTION_ERROR_THRESHOLD
                               then abandon ts f sid dest cnt t else t)
               in Some (forward ts f t, Continue))"

definition handle_frame ::
  "('c, frame) try_send \<Rightarrow> write_oracle \<Rightarrow> nat \<Rightarrow> frame \<Rightarrow> ('c, 'q) task \<Rightarrow>
   (('c, 'q) task \<times> flow) option" where
  "handle_frame ts wok now f t =
     (let t = t\<lparr>last_received := now\<rparr>
      in if command f = ''MESSAGE'' then handle_message ts wok now f t
         else if command f = ''RECEIPT'' then Some (handle_receipt f t, Continue)
         else if command f = ''ERROR'' then handle_error ts f t
         else Some (forward ts f t, Continue))"

section \<open>Parked frames, heartbeats and the watchdog\<close>

text \<open>\<^verbatim>\<open>retain_mut\<close> over one vector when the channel of subscription \<open>sid\<close> has room (or is dead).\<close>

fun drain_vec ::
  "('c, frame) try_send \<Rightarrow> string \<Rightarrow> sub_entry list \<Rightarrow> bool \<Rightarrow> (chan_id \<Rightarrow> 'c) \<Rightarrow>
   sub_entry list \<times> bool \<times> (chan_id \<Rightarrow> 'c)" where
  "drain_vec ts sid [] closed cs = ([], closed, cs)"
| "drain_vec ts sid (e # es) closed cs =
     (if sub_id e \<noteq> sid then
        (case drain_vec ts sid es closed cs of (es', r) \<Rightarrow> (e # es', r))
      else
        (case drain_overflow ts e (cs (sub_sender e)) of
           (alive, e', c) \<Rightarrow>
             (case drain_vec ts sid es (\<not> alive) (cs(sub_sender e := c)) of
                (es', r) \<Rightarrow> (if alive then e' # es' else es', r))))"

fun drain_map ::
  "('c, frame) try_send \<Rightarrow> string \<Rightarrow> subscriptions \<Rightarrow> bool \<Rightarrow> (chan_id \<Rightarrow> 'c) \<Rightarrow>
   subscriptions \<times> bool \<times> (chan_id \<Rightarrow> 'c)" where
  "drain_map ts sid [] closed cs = ([], closed, cs)"
| "drain_map ts sid ((dest, v) # m) closed cs =
     (case drain_vec ts sid v closed cs of
        (v', closed, cs) \<Rightarrow>
          (case drain_map ts sid m closed cs of (m', r) \<Rightarrow> ((dest, v') # m', r)))"

definition handle_parked :: "('c, frame) try_send \<Rightarrow> string \<Rightarrow> ('c, 'q) task \<Rightarrow> ('c, 'q) task" where
  "handle_parked ts sid t =
     (case drain_map ts sid (subscriptions (shared t)) False (chans (shared t)) of
        (m, closed, cs) \<Rightarrow>
          let m = drop_empty m;
              t = on_shared (\<lambda>s. s\<lparr>subscriptions := m, chans := cs\<rparr>) t;
              t = t\<lparr>parked := prune_parked (parked t) m\<rparr>
          in if closed then on_shared (forget_pending sid) t else t)"

definition handle_hb_tick ::
  "write_oracle \<Rightarrow> nat \<Rightarrow> duration option \<Rightarrow> ('c, 'q) task \<Rightarrow> ('c, 'q) task \<times> flow" where
  "handle_hb_tick wok now send_interval t =
     (case send_interval of
        None \<Rightarrow> (t, Continue)
      | Some dur \<Rightarrow>
          if heartbeat_due now (last_sent t) dur then
            (case write_item wok Heartbeat t of
               (False, t) \<Rightarrow> (t, BreakConn)
             | (True, t) \<Rightarrow> (t\<lparr>last_sent := now\<rparr>, Continue))
          else (t, Continue))"

definition handle_watchdog :: "nat \<Rightarrow> duration option \<Rightarrow> ('c, 'q) task \<Rightarrow> flow" where
  "handle_watchdog now recv_interval t =
     (case recv_interval of
        None \<Rightarrow> Continue
      | Some dur \<Rightarrow> if watchdog_expired now (last_received t) dur then BreakConn else Continue)"

text \<open>The top of the \<^verbatim>\<open>'conn\<close> loop.\<close>

definition loop_top :: "('c, 'q) task \<Rightarrow> ('c, 'q) task" where
  "loop_top t =
     (if parked t \<noteq> []
      then t\<lparr>parked := prune_parked (parked t) (subscriptions (shared t))\<rparr> else t)"

section \<open>Sessions\<close>

text \<open>
  What happens to the parked frames when a session begins: the broker redelivers what a client
  ack mode left unacknowledged, and not what \<^verbatim>\<open>auto\<close> took.
\<close>

definition discard_parked :: "sub_entry \<Rightarrow> sub_entry" where
  "discard_parked e =
     (if sub_ack e \<noteq> Auto \<and> ov_queue (sub_overflow e) \<noteq> []
      then e\<lparr>sub_overflow := reset_warnings ((sub_overflow e)\<lparr>ov_queue := []\<rparr>)\<rparr> else e)"

text \<open>Replaying the registry; a failed write is logged and the next one tried.\<close>

fun write_all :: "write_oracle \<Rightarrow> frame list \<Rightarrow> ('c, 'q) task \<Rightarrow> ('c, 'q) task" where
  "write_all wok [] t = t"
| "write_all wok (f # fs) t = write_all wok fs (snd (write_item wok (Frame f) t))"

definition begin_session ::
  "write_oracle \<Rightarrow> nat \<Rightarrow> bool \<Rightarrow> ('c, 'q) task \<Rightarrow> ('c, 'q) task" where
  "begin_session wok now just_reconnected t =
     (let m = map (\<lambda>(d, v). (d, map discard_parked v)) (subscriptions (shared t));
          t = on_shared (\<lambda>s. s\<lparr>subscriptions := m\<rparr>) t;
          t = t\<lparr>parked := prune_parked (parked t) m\<rparr>;
          t = t\<lparr>last_received := now, last_sent := now\<rparr>
      in if just_reconnected then write_all wok (resubscribe_frames m) t else t)"

text \<open>The back-off in seconds: after a failed attempt, and after a session that lasted \<open>secs\<close>.\<close>

definition backoff_double :: "nat \<Rightarrow> nat" where
  "backoff_double b = min (b * 2) 30"

definition backoff_after_session :: "duration \<Rightarrow> nat \<Rightarrow> nat" where
  "backoff_after_session lasted b =
     (if lasted \<ge> from_secs (max b 5) then 1 else backoff_double b)"

text \<open>A session that ended without a shutdown.\<close>

definition end_session :: "duration \<Rightarrow> ('c, 'q) task \<Rightarrow> ('c, 'q) task" where
  "end_session lasted t =
     on_shared (\<lambda>s. s\<lparr>pending := []\<rparr>)
       (t\<lparr>session := session t + 1, backoff_secs := backoff_after_session lasted (backoff_secs t)\<rparr>)"

text \<open>A reconnect attempt that failed.\<close>

definition failed_attempt :: "('c, 'q) task \<Rightarrow> ('c, 'q) task" where
  "failed_attempt t = t\<lparr>backoff_secs := backoff_double (backoff_secs t)\<rparr>"

text \<open>The end of the task: every registered subscription ends here.\<close>

definition end_task :: "('c, 'q) task \<Rightarrow> ('c, 'q) task" where
  "end_task t =
     on_shared (\<lambda>s. s\<lparr>subscriptions := [],
                      cells := end_all (entries (subscriptions s)) ConnectionClosed (cells s)\<rparr>) t"

end
