(* ===== verification/Stomp_Dispatch.thy ===== *)
theory Stomp_Dispatch
  imports Stomp_Task
begin

text \<open>
  What one delivery pass over the registry does, in closed form: each selected entry is
  offered the frame on its own channel, independently of the others, because no two entries
  share a channel. From it, the effect of the whole pass on the registry, the wake list, the
  channels and the reasons handles read.
\<close>

section \<open>The outcome of one entry\<close>

definition dk :: "('c, frame) try_send \<Rightarrow> frame \<Rightarrow> (chan_id \<Rightarrow> 'c) \<Rightarrow> sub_entry \<Rightarrow> delivery \<times> sub_entry \<times> 'c" where
  "dk ts f cs e = the (deliver_and_keep ts e f (cs (sub_sender e)))"

definition dk_outcome where "dk_outcome ts f cs e = fst (dk ts f cs e)"
definition dk_entry where "dk_entry ts f cs e = fst (snd (dk ts f cs e))"
definition dk_chan where "dk_chan ts f cs e = snd (snd (dk ts f cs e))"

definition entry_small :: "sub_entry \<Rightarrow> bool" where
  "entry_small e \<longleftrightarrow> ov_inv (sub_overflow e) \<and> length (ov_queue (sub_overflow e)) < 2 ^ 63 - 1"

context frame_channel
begin

lemma dk_cases:
  assumes "entry_small e"
  obtains (Taken) ov where
      "deliver_and_keep ts e f (cs (sub_sender e)) = Some (dk ts f cs e)"
      "dk_outcome ts f cs e = Taken" "dk_entry ts f cs e = e\<lparr>sub_overflow := ov\<rparr>" "ov_inv ov"
      "ov_limit ov = ov_limit (sub_overflow e)"
      "queued (dk_chan ts f cs e) @ ov_queue ov =
         queued (cs (sub_sender e)) @ ov_queue (sub_overflow e) @ [f]"
      "rx_closed (dk_chan ts f cs e) = rx_closed (cs (sub_sender e))"
  | (Dead) ov where
      "deliver_and_keep ts e f (cs (sub_sender e)) = Some (dk ts f cs e)"
      "dk_outcome ts f cs e = DeadReceiver" "dk_entry ts f cs e = e\<lparr>sub_overflow := ov\<rparr>"
      "ov_limit ov = ov_limit (sub_overflow e)" "rx_closed (cs (sub_sender e))"
      "dk_chan ts f cs e = cs (sub_sender e)"
  | (Overflowed) ov where
      "deliver_and_keep ts e f (cs (sub_sender e)) = Some (dk ts f cs e)"
      "dk_outcome ts f cs e = Overflowed" "dk_entry ts f cs e = e\<lparr>sub_overflow := ov\<rparr>"
      "ov_limit ov = ov_limit (sub_overflow e)"
      "queued (dk_chan ts f cs e) @ ov_queue ov = queued (cs (sub_sender e)) @ ov_queue (sub_overflow e)"
      "length (ov_queue ov) = ov_limit ov"
      "rx_closed (dk_chan ts f cs e) = rx_closed (cs (sub_sender e))"
proof -
  have inv: "ov_inv (sub_overflow e)" "length (ov_queue (sub_overflow e)) < 2 ^ 63 - 1"
    using assms by (simp_all add: entry_small_def)
  show ?thesis
    by (rule deliver_cases [OF inv, of f "cs (sub_sender e)"])
      (auto intro: that simp: dk_def dk_outcome_def dk_entry_def dk_chan_def)
qed

lemma dk_keeps:
  assumes "entry_small e"
  shows "sub_id (dk_entry ts f cs e) = sub_id e" "sub_sender (dk_entry ts f cs e) = sub_sender e"
    "sub_ended (dk_entry ts f cs e) = sub_ended e" "sub_ack (dk_entry ts f cs e) = sub_ack e"
    "ov_limit (sub_overflow (dk_entry ts f cs e)) = ov_limit (sub_overflow e)"
  using assms by (rule dk_cases [of e f cs]; simp)+

end

lemma end_subscription_overflow [simp]:
  "end_subscription (e\<lparr>sub_overflow := ov\<rparr>) why cs = end_subscription e why cs"
  by (cases "cs (sub_ended e)") (simp_all add: end_subscription_def)

section \<open>The effect of a pass\<close>

definition pass_result ::
  "('c, frame) try_send \<Rightarrow> frame \<Rightarrow> (chan_id \<Rightarrow> 'c) \<Rightarrow> sub_entry list \<Rightarrow> 'c pass \<Rightarrow> 'c pass \<Rightarrow> bool" where
  "pass_result ts f cs es p p' \<longleftrightarrow>
     ps_delivered p' = (ps_delivered p \<or> (\<exists>e\<in>set es. dk_outcome ts f cs e = Taken)) \<and>
     map fst (ps_overflowed p') = map fst (ps_overflowed p) @
       map sub_id (filter (\<lambda>e. dk_outcome ts f cs e = Overflowed) es) \<and>
     set (ps_parked p) \<subseteq> set (ps_parked p') \<and>
     set (ps_parked p') \<subseteq> set (ps_parked p) \<union> (\<lambda>e. (sub_id e, sub_sender e)) ` set es \<and>
     (\<forall>e\<in>set es. dk_outcome ts f cs e = Taken \<and> ov_queue (sub_overflow (dk_entry ts f cs e)) \<noteq> [] \<longrightarrow>
        sub_id e \<in> fst ` set (ps_parked p')) \<and>
     (\<forall>e\<in>set es. ps_chans p' (sub_sender e) = dk_chan ts f cs e) \<and>
     (\<forall>a. a \<notin> sub_sender ` set es \<longrightarrow> ps_chans p' a = ps_chans p a) \<and>
     (\<forall>e\<in>set es. dk_outcome ts f cs e = Overflowed \<and> ps_cells p (sub_ended e) = None \<longrightarrow>
        ps_cells p' (sub_ended e) = Some (Overflowed_at (ov_limit (sub_overflow e)))) \<and>
     (\<forall>a. a \<notin> sub_ended ` {e \<in> set es. dk_outcome ts f cs e = Overflowed} \<longrightarrow>
        ps_cells p' a = ps_cells p a)"

lemma pass_result_Nil: "pass_result ts f cs [] p p"
  by (simp add: pass_result_def)

lemma pass_resultD:
  assumes "pass_result ts f cs es p p'"
  shows pass_delivered: "ps_delivered p' = (ps_delivered p \<or> (\<exists>e\<in>set es. dk_outcome ts f cs e = Taken))"
    and pass_overflowed: "map fst (ps_overflowed p') = map fst (ps_overflowed p) @
       map sub_id (filter (\<lambda>e. dk_outcome ts f cs e = Overflowed) es)"
    and pass_parked: "set (ps_parked p) \<subseteq> set (ps_parked p')"
    and pass_parked_new:
      "set (ps_parked p') \<subseteq> set (ps_parked p) \<union> (\<lambda>e. (sub_id e, sub_sender e)) ` set es"
    and pass_wakes: "\<forall>e\<in>set es. dk_outcome ts f cs e = Taken \<and>
       ov_queue (sub_overflow (dk_entry ts f cs e)) \<noteq> [] \<longrightarrow> sub_id e \<in> fst ` set (ps_parked p')"
    and pass_chan: "\<forall>e\<in>set es. ps_chans p' (sub_sender e) = dk_chan ts f cs e"
    and pass_chan_other: "\<forall>a. a \<notin> sub_sender ` set es \<longrightarrow> ps_chans p' a = ps_chans p a"
    and pass_cell: "\<forall>e\<in>set es. dk_outcome ts f cs e = Overflowed \<and> ps_cells p (sub_ended e) = None \<longrightarrow>
       ps_cells p' (sub_ended e) = Some (Overflowed_at (ov_limit (sub_overflow e)))"
    and pass_cell_other: "\<forall>a. a \<notin> sub_ended ` {e \<in> set es. dk_outcome ts f cs e = Overflowed} \<longrightarrow>
       ps_cells p' a = ps_cells p a"
  using assms unfolding pass_result_def by - (elim conjE, assumption)+

lemma pass_result_append:
  assumes r1: "pass_result ts f cs es p p1" and r2: "pass_result ts f cs es' p1 p2"
    and senders: "sub_sender ` set es \<inter> sub_sender ` set es' = {}"
    and ended: "sub_ended ` set es \<inter> sub_ended ` set es' = {}"
  shows "pass_result ts f cs (es @ es') p p2"
proof -
  note r1_wakes = pass_wakes [OF r1, rule_format] and r2_wakes = pass_wakes [OF r2, rule_format]
  note r1_chan = pass_chan [OF r1, rule_format] and r2_chan = pass_chan [OF r2, rule_format]
  note r1_chan' = pass_chan_other [OF r1, rule_format]
    and r2_chan' = pass_chan_other [OF r2, rule_format]
  note r1_cell = pass_cell [OF r1, rule_format] and r2_cell = pass_cell [OF r2, rule_format]
  note r1_cell' = pass_cell_other [OF r1, rule_format]
    and r2_cell' = pass_cell_other [OF r2, rule_format]
  have other: "sub_sender e \<notin> sub_sender ` set es'" "sub_ended e \<notin> sub_ended ` set es'"
    if "e \<in> set es" for e
    using senders ended that by blast+
  have other': "sub_ended e \<notin> sub_ended ` set es" if "e \<in> set es'" for e
    using ended that by blast
  have delivered: "ps_delivered p2 = (ps_delivered p \<or> (\<exists>e\<in>set (es @ es'). dk_outcome ts f cs e = Taken))"
    using pass_delivered [OF r1] pass_delivered [OF r2] by auto
  have overflowed: "map fst (ps_overflowed p2) = map fst (ps_overflowed p) @
     map sub_id (filter (\<lambda>e. dk_outcome ts f cs e = Overflowed) (es @ es'))"
    using pass_overflowed [OF r1] pass_overflowed [OF r2] by simp
  have parked: "set (ps_parked p) \<subseteq> set (ps_parked p2)"
    using pass_parked [OF r1] pass_parked [OF r2] by (rule subset_trans)
  have new: "set (ps_parked p2) \<subseteq> set (ps_parked p) \<union> (\<lambda>e. (sub_id e, sub_sender e)) ` set (es @ es')"
    using pass_parked_new [OF r1] pass_parked_new [OF r2] unfolding set_append image_Un by blast
  have wakes: "sub_id e \<in> fst ` set (ps_parked p2)"
    if "e \<in> set (es @ es')" "dk_outcome ts f cs e = Taken \<and>
      ov_queue (sub_overflow (dk_entry ts f cs e)) \<noteq> []" for e
  proof (cases "e \<in> set es")
    case True
    then show ?thesis
      using r1_wakes [OF True that(2)] image_mono [OF pass_parked [OF r2], of fst] by blast
  next
    case False
    then show ?thesis using that by (intro r2_wakes) simp_all
  qed
  have chan: "ps_chans p2 (sub_sender e) = dk_chan ts f cs e" if "e \<in> set (es @ es')" for e
  proof (cases "e \<in> set es'")
    case True
    then show ?thesis by (rule r2_chan)
  next
    case False
    then have e: "e \<in> set es" using that by simp
    show ?thesis using r1_chan [OF e] r2_chan' [OF other(1) [OF e]] by simp
  qed
  have chan': "ps_chans p2 a = ps_chans p a" if "a \<notin> sub_sender ` set (es @ es')" for a
    using that r1_chan' [of a] r2_chan' [of a] unfolding set_append image_Un by simp
  have cell: "ps_cells p2 (sub_ended e) = Some (Overflowed_at (ov_limit (sub_overflow e)))"
    if "e \<in> set (es @ es')" "dk_outcome ts f cs e = Overflowed \<and> ps_cells p (sub_ended e) = None" for e
  proof (cases "e \<in> set es")
    case True
    then have "sub_ended e \<notin> sub_ended ` {e \<in> set es'. dk_outcome ts f cs e = Overflowed}"
      using other(2) [OF True] by blast
    from r2_cell' [OF this] show ?thesis using r1_cell [OF True that(2)] by simp
  next
    case False
    then have e: "e \<in> set es'" using that by simp
    have "sub_ended e \<notin> sub_ended ` {e \<in> set es. dk_outcome ts f cs e = Overflowed}"
      using other' [OF e] by blast
    from r1_cell' [OF this] show ?thesis
      using that by (intro r2_cell [OF e]) simp
  qed
  have cell': "ps_cells p2 a = ps_cells p a"
    if "a \<notin> sub_ended ` {e \<in> set (es @ es'). dk_outcome ts f cs e = Overflowed}" for a
  proof -
    have "a \<notin> sub_ended ` {e \<in> set es. dk_outcome ts f cs e = Overflowed}"
      "a \<notin> sub_ended ` {e \<in> set es'. dk_outcome ts f cs e = Overflowed}"
      using that by auto
    then show ?thesis using r1_cell' r2_cell' by simp
  qed
  show ?thesis
    unfolding pass_result_def
    by (intro conjI delivered overflowed parked new ballI allI impI wakes chan chan' cell cell') simp_all
qed

context frame_channel
begin

lemma pass_result_single:
  assumes small: "entry_small e"
    and step: "deliver_entry ts f d e p = Some (keep, e', p')"
    and chan: "ps_chans p (sub_sender e) = cs (sub_sender e)"
  shows "keep = (dk_outcome ts f cs e = Taken) \<and> e' = dk_entry ts f cs e \<and> pass_result ts f cs [e] p p'"
  using small
proof (cases rule: dk_cases [where f = f and cs = cs])
  case (Taken ov)
  let ?p = "p\<lparr>ps_chans := (ps_chans p)(sub_sender e := dk_chan ts f cs e), ps_delivered := True\<rparr>"
  have dk: "dk ts f cs e = (Taken, e\<lparr>sub_overflow := ov\<rparr>, dk_chan ts f cs e)"
    using Taken(2,3) by (simp add: dk_outcome_def dk_entry_def dk_chan_def prod_eq_iff)
  have "keep" "e' = e\<lparr>sub_overflow := ov\<rparr>"
    "p' = (if ov_queue ov \<noteq> [] \<and> \<not> list_ex (\<lambda>(i, _). i = sub_id e) (ps_parked p)
       then ?p\<lparr>ps_parked := ps_parked p @ [(sub_id e, sub_sender e)]\<rparr> else ?p)"
    using step Taken(1) chan dk by (auto simp: deliver_entry_def Let_def split: if_splits)
  moreover have "pass_result ts f cs [e] p p'"
    unfolding calculation(3) using Taken(2,3)
    by (auto simp: pass_result_def list_ex_iff image_iff split: prod.splits) force
  ultimately show ?thesis using Taken by simp
next
  case (Dead ov)
  have dk: "dk ts f cs e = (DeadReceiver, e\<lparr>sub_overflow := ov\<rparr>, dk_chan ts f cs e)"
    using Dead(2,3) by (simp add: dk_outcome_def dk_entry_def dk_chan_def prod_eq_iff)
  have "\<not> keep" "e' = e\<lparr>sub_overflow := ov\<rparr>"
    "p' = p\<lparr>ps_chans := (ps_chans p)(sub_sender e := dk_chan ts f cs e), ps_delivered := ps_delivered p\<rparr>"
    using step Dead(1) chan dk by (auto simp: deliver_entry_def Let_def)
  then show ?thesis using Dead(2,3) by (auto simp: pass_result_def)
next
  case (Overflowed ov)
  have dk: "dk ts f cs e = (Overflowed, e\<lparr>sub_overflow := ov\<rparr>, dk_chan ts f cs e)"
    using Overflowed(2,3) by (simp add: dk_outcome_def dk_entry_def dk_chan_def prod_eq_iff)
  have "\<not> keep" "e' = e\<lparr>sub_overflow := ov\<rparr>"
    "p' = p\<lparr>ps_chans := (ps_chans p)(sub_sender e := dk_chan ts f cs e), ps_delivered := ps_delivered p,
       ps_cells := end_subscription e (Overflowed_at (ov_limit ov)) (ps_cells p),
       ps_overflowed := ps_overflowed p @ [(sub_id e, d, ov_limit ov)]\<rparr>"
    using step Overflowed(1) chan dk by (auto simp: deliver_entry_def Let_def)
  then show ?thesis
    using Overflowed(2,3,4) by (auto simp: pass_result_def end_subscription_def split: option.splits)
qed

lemma deliver_entry_Some:
  assumes "entry_small e" and "ps_chans p (sub_sender e) = cs (sub_sender e)"
  shows "\<exists>keep e' p'. deliver_entry ts f d e p = Some (keep, e', p')"
  using assms(1)
  by (cases rule: dk_cases [where f = f and cs = cs])
    (auto simp: deliver_entry_def assms(2) Let_def split: prod.split)

end

text \<open>What a vector of entries becomes.\<close>

definition delivered_entries ::
  "('c, frame) try_send \<Rightarrow> frame \<Rightarrow> (chan_id \<Rightarrow> 'c) \<Rightarrow> (sub_entry \<Rightarrow> bool) \<Rightarrow> sub_entry list \<Rightarrow> sub_entry list" where
  "delivered_entries ts f cs sel es =
     map (\<lambda>e. if sel e then dk_entry ts f cs e else e)
       (filter (\<lambda>e. sel e \<longrightarrow> dk_outcome ts f cs e = Taken) es)"

lemma delivered_entries_simps [simp]:
  "delivered_entries ts f cs sel [] = []"
  "delivered_entries ts f cs sel (es @ es') =
     delivered_entries ts f cs sel es @ delivered_entries ts f cs sel es'"
  "delivered_entries ts f cs sel (e # es) =
     (if sel e then (if dk_outcome ts f cs e = Taken then [dk_entry ts f cs e] else []) else [e]) @
     delivered_entries ts f cs sel es"
  by (simp_all add: delivered_entries_def)

context frame_channel
begin

lemma deliver_vec_result:
  assumes "\<forall>e\<in>set es. sel e \<longrightarrow> entry_small e"
    and "\<forall>e\<in>set es. sel e \<longrightarrow> ps_chans p (sub_sender e) = cs (sub_sender e)"
    and "distinct (map sub_sender es)" "distinct (map sub_ended es)"
  shows "\<exists>p'. deliver_vec ts f sel d es p = Some (delivered_entries ts f cs sel es, p') \<and>
    pass_result ts f cs (filter sel es) p p'"
  using assms
proof (induction es arbitrary: p)
  case Nil
  then show ?case by (simp add: pass_result_Nil)
next
  case (Cons e es)
  show ?case
  proof (cases "sel e")
    case False
    then show ?thesis using Cons by simp
  next
    case True
    have small: "entry_small e" and chan: "ps_chans p (sub_sender e) = cs (sub_sender e)"
      using Cons.prems True by simp_all
    obtain keep e' p1 where step: "deliver_entry ts f d e p = Some (keep, e', p1)"
      using deliver_entry_Some [where e = e and p = p and cs = cs, OF small chan] by blast
    note single = pass_result_single [where cs = cs, OF small step chan]
    have "\<forall>x\<in>set es. sel x \<longrightarrow> ps_chans p1 (sub_sender x) = cs (sub_sender x)"
    proof (intro ballI impI)
      fix x
      assume x: "x \<in> set es" "sel x"
      have "sub_sender e \<notin> sub_sender ` set es" using Cons.prems(3) by simp
      then have "sub_sender x \<notin> sub_sender ` set [e]"
        using imageI [OF x(1), of sub_sender] by (metis empty_iff insert_iff image_insert image_empty list.set)
      then show "ps_chans p1 (sub_sender x) = cs (sub_sender x)"
        using single pass_chan_other [of ts f cs "[e]" p p1] Cons.prems(2) x by simp
    qed
    then obtain p2 where p2: "deliver_vec ts f sel d es p1 = Some (delivered_entries ts f cs sel es, p2)"
      "pass_result ts f cs (filter sel es) p1 p2"
      using Cons.IH [of p1] Cons.prems by auto
    have "pass_result ts f cs ([e] @ filter sel es) p p2"
      using Cons.prems(3,4) by (intro pass_result_append [OF _ p2(2)]) (use single in auto)
    then show ?thesis using True step p2(1) single by simp
  qed
qed

lemma deliver_map_result:
  assumes "\<forall>e\<in>set (entries m). sel e \<longrightarrow> entry_small e"
    and "\<forall>e\<in>set (entries m). sel e \<longrightarrow> ps_chans p (sub_sender e) = cs (sub_sender e)"
    and "distinct (map sub_sender (entries m))" "distinct (map sub_ended (entries m))"
  shows "\<exists>p'. deliver_map ts f sel m p = Some (map (\<lambda>(d, v). (d, delivered_entries ts f cs sel v)) m, p') \<and>
    pass_result ts f cs (filter sel (entries m)) p p'"
  using assms
proof (induction m arbitrary: p)
  case Nil
  then show ?case by (simp add: pass_result_Nil)
next
  case (Cons dv m)
  obtain d v where dv: "dv = (d, v)" by (cases dv)
  have sep: "sub_sender ` set v \<inter> sub_sender ` set (entries m) = {}"
    "sub_ended ` set v \<inter> sub_ended ` set (entries m) = {}"
    using Cons.prems(3,4) by (simp_all add: dv)
  obtain p1 where p1: "deliver_vec ts f sel d v p = Some (delivered_entries ts f cs sel v, p1)"
    "pass_result ts f cs (filter sel v) p p1"
    using deliver_vec_result [of v sel p cs f d] Cons.prems by (auto simp: dv)
  have "\<forall>x\<in>set (entries m). sel x \<longrightarrow> ps_chans p1 (sub_sender x) = cs (sub_sender x)"
  proof (intro ballI impI)
    fix x
    assume x: "x \<in> set (entries m)" "sel x"
    then have "sub_sender x \<notin> sub_sender ` set (filter sel v)" using sep(1) by force
    then show "ps_chans p1 (sub_sender x) = cs (sub_sender x)"
      using pass_chan_other [OF p1(2)] Cons.prems(2) x by (simp add: dv)
  qed
  then obtain p2 where p2: "deliver_map ts f sel m p1 =
      Some (map (\<lambda>(d, v). (d, delivered_entries ts f cs sel v)) m, p2)"
    "pass_result ts f cs (filter sel (entries m)) p1 p2"
    using Cons.IH [of p1] Cons.prems by (auto simp: dv)
  have "pass_result ts f cs (filter sel v @ filter sel (entries m)) p p2"
    by (rule pass_result_append [OF p1(2) p2(2)]) (use sep in auto)
  then show ?case using p1(1) p2(1) by (simp add: dv)
qed

end

lemma entries_delivered:
  "entries (map (\<lambda>(d, v). (d, delivered_entries ts f cs sel v)) m) =
     delivered_entries ts f cs sel (entries m)"
  by (induction m) auto

lemma entries_append [simp]: "entries (m @ m') = entries m @ entries m'"
  by (simp add: entries_def)

lemma entries_drop_empty [simp]: "entries (drop_empty m) = entries m"
  by (induction m) (auto simp: drop_empty_def)

lemma map_fst_map_snd: "map fst (map (\<lambda>(d, v). (d, g v)) m) = map fst m"
  by (induction m) auto

lemma hm_split:
  assumes "hm_ok m" and "hm_get m d = Some v"
  obtains m1 m2 where "m = m1 @ (d, v) # m2" "d \<notin> fst ` set m1" "d \<notin> fst ` set m2"
    "\<And>w. hm_insert d w m = m1 @ (d, w) # m2" "hm_remove d m = m1 @ m2"
proof -
  obtain m1 m2 where m: "m = m1 @ (d, v) # m2"
    using map_of_SomeD [OF assms(2)] by (auto simp: in_set_conv_decomp)
  have n: "d \<notin> fst ` set m1" "d \<notin> fst ` set m2"
    using assms(1) by (auto simp: m)
  have "hm_insert d w (xs @ (d, v) # m2) = xs @ (d, w) # m2" if "d \<notin> fst ` set xs" for w xs
    using that by (induction xs) auto
  moreover have "hm_remove d xs = xs" if "d \<notin> fst ` set xs" for xs :: "('a \<times> 'b) list"
    using that by (induction xs) auto
  moreover have "hm_remove d (xs @ ys) = hm_remove d xs @ hm_remove d ys"
    for xs ys :: "('a \<times> 'b) list"
    by (induction xs) auto
  ultimately show ?thesis
    using m n by (intro that [of m1 m2]) simp_all
qed

definition selected :: "msg_headers \<Rightarrow> subscriptions \<Rightarrow> sub_entry \<Rightarrow> bool" where
  "selected h m e =
     (case mh_sub h of
        Some sid \<Rightarrow> sub_id e = sid
      | None \<Rightarrow>
          (case mh_dest h of Some d \<Rightarrow> e \<in> set (unwrap_or [] (hm_get m d)) | None \<Rightarrow> False))"

lemma delivered_none:
  "\<forall>e\<in>set es. \<not> sel e \<Longrightarrow> delivered_entries ts f cs sel es = es"
  by (induction es) auto

lemma delivered_cong:
  "\<forall>e\<in>set es. sel e = sel' e \<Longrightarrow>
     delivered_entries ts f cs sel es = delivered_entries ts f cs sel' es"
  by (induction es) auto

context frame_channel
begin

lemma deliver_pass_result:
  assumes small: "\<forall>e\<in>set (entries m). selected h m e \<longrightarrow> entry_small e"
    and ok: "hm_ok m" and full: "\<forall>(d, v)\<in>set m. v \<noteq> []"
    and dist: "all_distinct (entries m)"
  shows "\<exists>m' p'. deliver_pass ts f h m p =
      Some (m', if mh_sub h = None \<and> mh_dest h = None then None else Some (live_ids m'), p') \<and>
    entries m' = delivered_entries ts f (ps_chans p) (selected h m) (entries m) \<and>
    pass_result ts f (ps_chans p) (filter (selected h m) (entries m)) p p' \<and>
    hm_ok m' \<and> (\<forall>(d, v)\<in>set m'. v \<noteq> [])"
proof (cases "mh_sub h")
  case (Some sid)
  let ?sel = "\<lambda>e. sub_id e = sid"
  have sel: "selected h m = ?sel" using Some by (simp add: selected_def fun_eq_iff)
  obtain p' where p': "deliver_map ts f ?sel m p =
      Some (map (\<lambda>(d, v). (d, delivered_entries ts f (ps_chans p) ?sel v)) m, p')"
    "pass_result ts f (ps_chans p) (filter ?sel (entries m)) p p'"
    using deliver_map_result [of m ?sel p "ps_chans p" f] small dist
    by (auto simp: sel all_distinct_def)
  have "hm_ok (drop_empty (map (\<lambda>(d, v). (d, delivered_entries ts f (ps_chans p) ?sel v)) m))"
    using ok by (simp add: drop_empty_def map_fst_map_snd del: map_map)
  then show ?thesis
    using Some p' by (auto simp: deliver_pass_def sel entries_delivered) (auto simp: drop_empty_def)
next
  case None
  show ?thesis
  proof (cases "mh_dest h")
    case None
    then have "\<forall>e\<in>set (entries m). \<not> selected h m e"
      using \<open>mh_sub h = None\<close> by (simp add: selected_def)
    then show ?thesis
      using None \<open>mh_sub h = None\<close> ok full
      by (auto simp: deliver_pass_def delivered_none pass_result_Nil filter_False)
  next
    case (Some d)
    have sel: "selected h m = (\<lambda>e. e \<in> set (unwrap_or [] (hm_get m d)))"
      using Some None by (simp add: selected_def fun_eq_iff)
    show ?thesis
    proof (cases "hm_get m d")
      case nod: None
      then have "\<forall>e\<in>set (entries m). \<not> selected h m e" by (simp add: sel)
      then show ?thesis
        using nod Some None ok full
        by (auto simp: deliver_pass_def delivered_none pass_result_Nil filter_False)
    next
      case v: (Some v)
      obtain m1 m2 where m: "m = m1 @ (d, v) # m2" "d \<notin> fst ` set m1" "d \<notin> fst ` set m2"
        "\<And>w. hm_insert d w m = m1 @ (d, w) # m2" "hm_remove d m = m1 @ m2"
        using hm_split [OF ok v] by metis
      let ?v = "delivered_entries ts f (ps_chans p) (\<lambda>_. True) v"
      have es: "entries m = entries m1 @ v @ entries m2" by (simp add: m(1))
      have "set v \<inter> set (entries m1) = {}" "set v \<inter> set (entries m2) = {}"
        using dist by (auto simp: es all_distinct_def)
      then have out: "\<forall>e\<in>set (entries m1). \<not> selected h m e" "\<forall>e\<in>set (entries m2). \<not> selected h m e"
        by (auto simp: sel v)
      have ins: "\<forall>e\<in>set v. selected h m e" by (simp add: sel v)
      have filt: "filter (selected h m) (entries m) = v"
        using out ins by (simp add: es filter_False filter_True)
      have del: "delivered_entries ts f (ps_chans p) (selected h m) (entries m) =
          entries m1 @ ?v @ entries m2"
        using out ins delivered_cong [of v "selected h m" "\<lambda>_. True"]
        by (simp add: es delivered_none)
      obtain p' where p': "deliver_vec ts f (\<lambda>_. True) d v p = Some (?v, p')"
        "pass_result ts f (ps_chans p) v p p'"
        using deliver_vec_result [of v "\<lambda>_. True" p "ps_chans p" f d] small ins dist
        by (auto simp: es all_distinct_def)
      let ?m = "if ?v = [] then hm_remove d m else hm_insert d ?v m"
      have pass: "deliver_pass ts f h m p = Some (?m, Some (live_ids ?m), p')"
        using Some None v p'(1) by (simp add: deliver_pass_def Let_def)
      have ents: "entries ?m = entries m1 @ ?v @ entries m2"
        by (auto simp: m(4,5))
      have "hm_ok ?m" using ok by simp
      moreover have "\<forall>(d, v)\<in>set ?m. v \<noteq> []"
        using full by (auto simp: m(4,5)) (auto simp: m(1))
      ultimately show ?thesis
        unfolding del filt using pass p'(2) ents None Some by (intro exI [of _ ?m] exI [of _ p']) simp
    qed
  qed
qed

end

end
