(* ===== verification/Stomp_Invariants.thy ===== *)
theory Stomp_Invariants
  imports Stomp_Dispatch
begin

text \<open>
  The invariant of the background task and that every handler keeps it: the registry and the
  receipts are well formed, every pending message belongs to the current session, every
  subscription with parked frames is on the wake list, and the back-off stays between 1 and 30
  seconds.
\<close>

section \<open>The invariant\<close>

definition pend_ok :: "nat \<Rightarrow> pending_map \<Rightarrow> bool" where
  "pend_ok sess p \<longleftrightarrow> hm_ok p \<and> (\<forall>(sid, q)\<in>set p. \<forall>pm\<in>set q. pm_session pm = sess)"

definition pend_inv :: "('c, 'q) task \<Rightarrow> bool" where
  "pend_inv t \<longleftrightarrow> pend_ok (session t) (pending (shared t))"

definition wake_inv :: "('c, 'q) task \<Rightarrow> bool" where
  "wake_inv t \<longleftrightarrow>
     (\<forall>e\<in>set (entries (subscriptions (shared t))).
        ov_queue (sub_overflow e) \<noteq> [] \<longrightarrow> sub_id e \<in> fst ` set (parked t)) \<and>
     (\<forall>(i, ch)\<in>set (parked t). (\<exists>k < sub_id_counter (shared t). i = show_nat k) \<and>
        (\<forall>e\<in>set (entries (subscriptions (shared t))). sub_id e = i \<longrightarrow> sub_sender e = ch))"

definition backoff_inv :: "('c, 'q) task \<Rightarrow> bool" where
  "backoff_inv t \<longleftrightarrow> 1 \<le> backoff_secs t \<and> backoff_secs t \<le> 30"

definition task_inv :: "('c, 'q) task \<Rightarrow> bool" where
  "task_inv t \<longleftrightarrow>
     reg_inv (shared t) \<and> receipts_inv (shared t) \<and> pend_inv t \<and> wake_inv t \<and> backoff_inv t"

text \<open>Queues fit in memory.\<close>

definition memory_ok :: "('c, 'q) task \<Rightarrow> bool" where
  "memory_ok t \<longleftrightarrow>
     (\<forall>e\<in>set (entries (subscriptions (shared t))). length (ov_queue (sub_overflow e)) < 2 ^ 63 - 1)"

lemma task_inv_new:
  "task_inv (task_new now (conn_new q cs))"
  using reg_inv_new [of q cs] receipts_inv_new [of q cs]
  by (simp add: task_inv_def task_new_def pend_inv_def wake_inv_def backoff_inv_def)
    (simp add: conn_new_def pend_ok_def)

text \<open>Changes that do not touch what the invariant reads.\<close>

lemma task_inv_irrelevant [simp]:
  "task_inv (t\<lparr>last_received := n\<rparr>) = task_inv t" "task_inv (t\<lparr>last_sent := n\<rparr>) = task_inv t"
  "task_inv (t\<lparr>wire := w\<rparr>) = task_inv t" "task_inv (t\<lparr>hb_notified := n\<rparr>) = task_inv t"
  "task_inv (t\<lparr>overflowed_ids := ids\<rparr>) = task_inv t" "task_inv (t\<lparr>abandoned_ids := ids\<rparr>) = task_inv t"
  "task_inv (t\<lparr>sub_errors := es\<rparr>) = task_inv t"
  by (simp_all add: task_inv_def pend_inv_def wake_inv_def backoff_inv_def)

lemma receipts_inv_chans [simp]:
  "receipts_inv (s\<lparr>chans := c\<rparr>) = receipts_inv s"
  "receipts_inv (s\<lparr>pending := p\<rparr>) = receipts_inv s"
  "receipts_inv (s\<lparr>subscriptions := m\<rparr>) = receipts_inv s"
  "receipts_inv (s\<lparr>cells := ce\<rparr>) = receipts_inv s"
  by (simp_all add: receipts_inv_def)

lemma task_inv_chans [simp]: "task_inv (t\<lparr>shared := (shared t)\<lparr>chans := c\<rparr>\<rparr>) = task_inv t"
  by (simp add: task_inv_def pend_inv_def wake_inv_def backoff_inv_def)

lemma task_inv_forward [simp]: "task_inv (forward ts f t) = task_inv t"
  by (simp add: forward_def on_shared_def)

lemma write_item_cases:
  obtains (Written) "write_item wok item t = (True, t\<lparr>wire := wire t @ [(session t, item)]\<rparr>)"
    "wok (wire t) item"
  | (Failed) "write_item wok item t = (False, t)" "\<not> wok (wire t) item"
proof (cases "wok (wire t) item")
  case True
  then show ?thesis by (intro that(1)) (simp_all add: write_item_def)
next
  case False
  then show ?thesis by (intro that(2)) (simp_all add: write_item_def)
qed

lemma task_inv_write [simp]: "task_inv (snd (write_item wok item t)) = task_inv t"
  by (rule write_item_cases [of wok item t]) simp_all

section \<open>Outbound items, receipts, heartbeats\<close>

lemma pend_ok_remove: "pend_ok sess p \<Longrightarrow> pend_ok sess (hm_remove i p)"
  by (fastforce simp: pend_ok_def dest: hm_remove_subset)

lemma task_inv_forget: "task_inv t \<Longrightarrow> task_inv (on_shared (forget_pending i) t)"
  using pend_ok_remove
  by (auto simp: task_inv_def pend_inv_def wake_inv_def backoff_inv_def on_shared_def
      forget_pending_def)

lemma task_inv_outbound:
  assumes "task_inv t" and "handle_outbound wok now out t = (t', fl)"
  shows "task_inv t'"
proof (cases "writable_in out (session t)")
  case None
  then show ?thesis using assms by (simp add: handle_outbound_def)
next
  case (Some item)
  obtain t1 where t1: "t1 = (case item of
      Frame f \<Rightarrow> if command f = ''UNSUBSCRIBE'' then
          (case get_header f ''id'' of Some i \<Rightarrow> on_shared (forget_pending i) t | None \<Rightarrow> t)
        else t
    | Heartbeat \<Rightarrow> t)"
    by blast
  have inv1: "task_inv t1"
    using assms(1) task_inv_forget [OF assms(1)]
    by (simp add: t1 split: stomp_item.split option.split)
  have "handle_outbound wok now out t = (case write_item wok item t1 of
       (False, t) \<Rightarrow> (t, BreakConn) | (True, t) \<Rightarrow> (t\<lparr>last_sent := now\<rparr>, Continue))"
    using Some by (simp add: handle_outbound_def Let_def t1)
  then show ?thesis
    using assms(2) inv1 by (cases rule: write_item_cases [of wok item t1]) auto
qed

lemma task_inv_settle:
  assumes "task_inv t"
  shows "task_inv (on_shared (settle_receipt f oc) t)"
proof -
  have same: "subscriptions (settle_receipt f oc s) = subscriptions s"
    "pending (settle_receipt f oc s) = pending s"
    "sub_id_counter (settle_receipt f oc s) = sub_id_counter s"
    "reg_inv (settle_receipt f oc s) = reg_inv s" for s :: "('a, 'b) conn"
    by (auto simp: settle_receipt_def split: option.split)
  show ?thesis
    using assms receipts_inv_settle [of "shared t" f oc]
    by (simp add: task_inv_def pend_inv_def wake_inv_def backoff_inv_def on_shared_def same)
qed

lemma task_inv_hb_tick:
  assumes "task_inv t" and "handle_hb_tick wok now si t = (t', fl)"
  shows "task_inv t'"
  using assms
  by (cases rule: write_item_cases [of wok Heartbeat t])
    (auto simp: handle_hb_tick_def split: option.splits if_splits)

section \<open>Entries filtered and updated in place\<close>

text \<open>
  Every pass over the registry keeps some of the entries it selects, possibly with a new
  overflow queue, and leaves the others alone.
\<close>

definition processed ::
  "(sub_entry \<Rightarrow> bool) \<Rightarrow> (sub_entry \<Rightarrow> bool) \<Rightarrow> (sub_entry \<Rightarrow> sub_entry) \<Rightarrow> sub_entry list \<Rightarrow> sub_entry list" where
  "processed sel keepf newf es =
     map (\<lambda>e. if sel e then newf e else e) (filter (\<lambda>e. sel e \<longrightarrow> keepf e) es)"

lemma delivered_processed:
  "delivered_entries ts f cs sel es =
     processed sel (\<lambda>e. dk_outcome ts f cs e = Taken) (dk_entry ts f cs) es"
  by (simp add: delivered_entries_def processed_def)

definition same_place :: "sub_entry \<Rightarrow> sub_entry \<Rightarrow> bool" where
  "same_place e e' \<longleftrightarrow>
     sub_id e' = sub_id e \<and> sub_sender e' = sub_sender e \<and> sub_ended e' = sub_ended e"

lemma in_processed:
  "e' \<in> set (processed sel keepf newf es) \<longleftrightarrow>
     (\<exists>e\<in>set es. (sel e \<longrightarrow> keepf e) \<and> e' = (if sel e then newf e else e))"
  by (auto simp: processed_def image_iff)

lemma all_distinct_processed:
  assumes "all_distinct es" and "\<forall>e\<in>set es. sel e \<and> keepf e \<longrightarrow> same_place e (newf e)"
  shows "all_distinct (processed sel keepf newf es)"
proof -
  have "all_distinct (filter (\<lambda>e. sel e \<longrightarrow> keepf e) es)"
    by (rule all_distinct_filter [OF assms(1)])
  moreover have "map sub_id (processed sel keepf newf es) = map sub_id (filter (\<lambda>e. sel e \<longrightarrow> keepf e) es)"
    "map sub_sender (processed sel keepf newf es) = map sub_sender (filter (\<lambda>e. sel e \<longrightarrow> keepf e) es)"
    "map sub_ended (processed sel keepf newf es) = map sub_ended (filter (\<lambda>e. sel e \<longrightarrow> keepf e) es)"
    using assms(2) by (simp_all add: processed_def same_place_def)
  ultimately show ?thesis by (simp only: all_distinct_def)
qed

lemma reg_inv_processed:
  assumes inv: "reg_inv s"
    and ents: "entries m' = processed sel keepf newf (entries (subscriptions s))"
    and m': "hm_ok m'" "\<forall>(d, v)\<in>set m'. v \<noteq> []"
    and place: "\<forall>e\<in>set (entries (subscriptions s)). sel e \<and> keepf e \<longrightarrow>
      same_place e (newf e) \<and> ov_inv (sub_overflow (newf e))"
    and kept: "\<forall>e\<in>set (entries (subscriptions s)). (sel e \<longrightarrow> keepf e) \<longrightarrow> cs (sub_ended e) = None"
    and fresh: "\<forall>a \<ge> next_cell s. cs a = None"
  shows "reg_inv (s\<lparr>subscriptions := m', cells := cs, chans := ch\<rparr>)"
proof -
  let ?s = "s\<lparr>subscriptions := m', cells := cs, chans := ch\<rparr>"
  have "entry_ok ?s e'" if e': "e' \<in> set (entries m')" for e'
  proof -
    obtain e where e: "e \<in> set (entries (subscriptions s))" "sel e \<longrightarrow> keepf e"
      "e' = (if sel e then newf e else e)"
      using e' by (auto simp: ents in_processed)
    have "same_place e e'" "ov_inv (sub_overflow e')"
      using e place inv by (auto simp: same_place_def reg_inv_def entry_ok_def)
    moreover have "entry_ok s e" using e inv by (simp add: reg_inv_def)
    moreover have "cs (sub_ended e) = None" using e kept by blast
    ultimately show ?thesis by (simp add: entry_ok_def same_place_def)
  qed
  moreover have "all_distinct (entries m')"
    unfolding ents using inv place by (intro all_distinct_processed) (auto simp: reg_inv_def)
  ultimately show ?thesis
    using inv m' fresh by (simp add: reg_inv_def)
qed

lemma in_prune: "x \<in> set (prune_parked pk m) \<longleftrightarrow>
    x \<in> set pk \<and> (\<exists>e\<in>set (entries m). sub_id e = fst x \<and> ov_queue (sub_overflow e) \<noteq> [])"
  unfolding prune_parked_def entries_def [symmetric] by (auto simp: list_ex_iff)

lemma wake_inv_processed:
  assumes wake: "wake_inv t"
    and ents: "entries (subscriptions s') = processed sel keepf newf (entries (subscriptions (shared t)))"
    and place: "\<forall>e\<in>set (entries (subscriptions (shared t))). sel e \<and> keepf e \<longrightarrow> same_place e (newf e)"
    and cnt: "sub_id_counter s' = sub_id_counter (shared t)"
    and new: "\<forall>(i, ch)\<in>set pk. (i, ch) \<in> set (parked t) \<or>
      (\<exists>e\<in>set (entries (subscriptions (shared t))). i = sub_id e \<and> ch = sub_sender e)"
    and old: "\<forall>e\<in>set (entries (subscriptions (shared t))). (sel e \<longrightarrow> keepf e) \<and>
      ov_queue (sub_overflow (if sel e then newf e else e)) \<noteq> [] \<longrightarrow> sub_id e \<in> fst ` set pk"
    and inv: "reg_inv (shared t)"
  shows "wake_inv (t\<lparr>shared := s', parked := pk\<rparr>)"
proof -
  let ?es = "entries (subscriptions (shared t))"
  have orig: "\<exists>e\<in>set ?es. (sel e \<longrightarrow> keepf e) \<and> e' = (if sel e then newf e else e) \<and> same_place e e'"
    if "e' \<in> set (entries (subscriptions s'))" for e'
    using that place by (auto simp: ents in_processed same_place_def)
  have "sub_id e' \<in> fst ` set pk"
    if "e' \<in> set (entries (subscriptions s'))" "ov_queue (sub_overflow e') \<noteq> []" for e'
    using orig [OF that(1)] that(2) old by (auto simp: same_place_def)
  moreover have "(\<exists>k < sub_id_counter (shared t). i = show_nat k) \<and>
      (\<forall>e'\<in>set (entries (subscriptions s')). sub_id e' = i \<longrightarrow> sub_sender e' = ch)"
    if x: "(i, ch) \<in> set pk" for i ch
  proof -
    consider "(i, ch) \<in> set (parked t)" | e where "e \<in> set ?es" "i = sub_id e" "ch = sub_sender e"
      using new x by blast
    then show ?thesis
    proof cases
      case 1
      then show ?thesis
        using wake orig by (fastforce simp: wake_inv_def same_place_def)
    next
      case (2 e)
      then have "\<exists>k < sub_id_counter (shared t). i = show_nat k"
        using inv by (simp add: reg_inv_def entry_ok_def)
      moreover have "sub_sender e' = ch"
        if e': "e' \<in> set (entries (subscriptions s'))" and i: "sub_id e' = i" for e'
      proof -
        obtain e0 where "e0 \<in> set ?es" "same_place e0 e'" using orig [OF e'] by blast
        then show ?thesis
          using 2 i inv all_distinct_id [of ?es e0 e] by (auto simp: same_place_def reg_inv_def)
      qed
      ultimately show ?thesis by blast
    qed
  qed
  ultimately show ?thesis
    using cnt by (auto simp: wake_inv_def)
qed

lemma wake_inv_shrink:
  assumes "wake_inv t" and "set pk \<subseteq> set (parked t)"
    and "\<forall>x\<in>set (parked t). (\<exists>e\<in>set (entries (subscriptions (shared t))).
      sub_id e = fst x \<and> ov_queue (sub_overflow e) \<noteq> []) \<longrightarrow> x \<in> set pk"
  shows "wake_inv (t\<lparr>parked := pk\<rparr>)"
proof -
  have "sub_id e \<in> fst ` set pk"
    if e: "e \<in> set (entries (subscriptions (shared t)))" "ov_queue (sub_overflow e) \<noteq> []" for e
  proof -
    have "sub_id e \<in> fst ` set (parked t)" using assms(1) e by (simp add: wake_inv_def)
    then obtain x where x: "x \<in> set (parked t)" "sub_id e = fst x" by auto
    have "x \<in> set pk" using assms(3) [rule_format, OF x(1)] e x(2) by blast
    then show ?thesis by (simp add: x(2))
  qed
  moreover have "\<forall>(i, ch)\<in>set pk. (\<exists>k < sub_id_counter (shared t). i = show_nat k) \<and>
      (\<forall>e\<in>set (entries (subscriptions (shared t))). sub_id e = i \<longrightarrow> sub_sender e = ch)"
    using assms(1,2) unfolding wake_inv_def by blast
  ultimately show ?thesis by (simp add: wake_inv_def)
qed

lemma wake_inv_prune:
  "wake_inv t \<Longrightarrow> wake_inv (t\<lparr>parked := prune_parked (parked t) (subscriptions (shared t))\<rparr>)"
  by (rule wake_inv_shrink) (auto simp: in_prune)

lemma task_inv_loop_top: "task_inv t \<Longrightarrow> task_inv (loop_top t)"
  using wake_inv_prune
  by (auto simp: task_inv_def loop_top_def pend_inv_def backoff_inv_def)

section \<open>A MESSAGE\<close>

lemma pend_ok_push:
  assumes "pend_ok sess p" and "pm_session pm = sess"
  shows "pend_ok sess (push_pending pm i p)"
proof -
  have "\<forall>x\<in>set (unwrap_or [] (hm_get p i)). pm_session x = sess"
    using assms(1) by (cases "hm_get p i") (auto simp: pend_ok_def dest: map_of_SomeD)
  then show ?thesis
    using assms by (fastforce simp: pend_ok_def push_pending_def dest: set_hm_insertD)
qed

lemma pend_ok_record: "pend_ok sess p \<Longrightarrow> pend_ok sess (record_pending h f sess m p)"
proof -
  assume p: "pend_ok sess p"
  have "pend_ok sess (foldl (\<lambda>p i. push_pending (pending_message_new a mid f sess) i p) p is)"
    for a mid "is"
    using p by (induction "is" arbitrary: p) (simp_all add: pend_ok_push pending_message_new_def)
  then show ?thesis
    using p by (simp add: record_pending_def split: option.split)
qed

lemma pend_ok_sweep: "pend_ok sess p \<Longrightarrow> pend_ok sess (sweep_pending live p)"
  by (auto simp: pend_ok_def sweep_pending_def split: option.split)

text \<open>
  A task state that differs at most in the wake list, the socket log and times, the ids failed
  for overflow, and the inbound channel.
\<close>

definition quiet :: "('c, 'q) task \<Rightarrow> ('c, 'q) task \<Rightarrow> bool" where
  "quiet t t' \<longleftrightarrow>
     (let s = shared t; s' = shared t' in
      subscriptions s' = subscriptions s \<and> pending s' = pending s \<and>
      pending_receipts s' = pending_receipts s \<and> outbound_tx s' = outbound_tx s \<and>
      sub_id_counter s' = sub_id_counter s \<and> receipt_counter s' = receipt_counter s \<and>
      next_chan s' = next_chan s \<and> cells s' = cells s \<and> next_cell s' = next_cell s \<and>
      outcomes s' = outcomes s \<and> next_oneshot s' = next_oneshot s \<and>
      (\<forall>a. a \<noteq> inbound_chan \<longrightarrow> chans s' a = chans s a)) \<and>
     session t' = session t \<and> sub_errors t' = sub_errors t \<and>
     abandoned_ids t' = abandoned_ids t \<and> backoff_secs t' = backoff_secs t \<and>
     last_received t' = last_received t \<and> hb_notified t' = hb_notified t"

lemma quiet_refl [simp]: "quiet t t"
  by (simp add: quiet_def)

lemma quiet_trans: "quiet t t' \<Longrightarrow> quiet t' t'' \<Longrightarrow> quiet t t''"
  by (simp add: quiet_def Let_def)

lemma quiet_forward: "quiet t (forward ts f t)"
  by (simp add: quiet_def forward_def on_shared_def)

lemma quiet_fields [simp]:
  "quiet t (t\<lparr>parked := pk\<rparr>)" "quiet t (t\<lparr>overflowed_ids := ids\<rparr>)" "quiet t (t\<lparr>last_sent := n\<rparr>)"
  "quiet t (t\<lparr>wire := w\<rparr>)"
  by (simp_all add: quiet_def)

lemma forward_fields [simp]:
  "parked (forward ts f t) = parked t" "overflowed_ids (forward ts f t) = overflowed_ids t"
  "wire (forward ts f t) = wire t" "session (forward ts f t) = session t"
  by (simp_all add: forward_def on_shared_def)

text \<open>What failing the overflowed subscriptions changes.\<close>

lemma fail_overflowed_result:
  "fail_overflowed ts wok now ovs t = (t', fl) \<Longrightarrow>
     quiet t t' \<and> set (parked t') \<subseteq> set (parked t) \<and>
     (\<forall>x\<in>set (parked t). fst x \<notin> fst ` set ovs \<longrightarrow> x \<in> set (parked t'))"
proof (induction ovs arbitrary: t)
  case (Cons ov ovs)
  let ?pk = "filter (\<lambda>(parked_id, _). parked_id \<noteq> fst ov) (parked t)"
  let ?t1 = "forward ts (overflow_frame ov) (t\<lparr>parked := ?pk\<rparr>)"
  let ?t = "?t1\<lparr>overflowed_ids := insert (fst ov) (overflowed_ids ?t1)\<rparr>"
  have q: "quiet t ?t"
    by (rule quiet_trans [OF quiet_fields(1)], rule quiet_trans [OF quiet_forward], rule quiet_fields(2))
  have pk: "set (parked ?t) \<subseteq> set (parked t)"
    "\<forall>x\<in>set (parked t). fst x \<notin> fst ` set (ov # ovs) \<longrightarrow> x \<in> set (parked ?t)"
    by auto
  show ?case
  proof (cases rule: write_item_cases [of wok "Frame (unsubscribe_frame (fst ov))" ?t])
    case Written
    let ?w = "?t\<lparr>wire := wire ?t @ [(session ?t, Frame (unsubscribe_frame (fst ov)))]\<rparr>"
    let ?u = "?w\<lparr>last_sent := now\<rparr>"
    have u: "quiet t ?u"
      by (rule quiet_trans [OF q], rule quiet_trans [OF quiet_fields(4) quiet_fields(3)])
    have "fail_overflowed ts wok now ovs ?u = (t', fl)"
      using Cons.prems Written by (simp add: Let_def)
    from Cons.IH [OF this] have "quiet ?u t'" "set (parked t') \<subseteq> set (parked ?t)"
      "\<forall>x\<in>set (parked ?t). fst x \<notin> fst ` set ovs \<longrightarrow> x \<in> set (parked t')"
      by simp_all
    then show ?thesis using quiet_trans [OF u] pk by auto
  next
    case Failed
    then have "t' = ?t" using Cons.prems by (simp add: Let_def)
    then show ?thesis using q pk by auto
  qed
qed simp

lemma reg_inv_quiet:
  assumes "quiet t t'"
  shows "reg_inv (shared t') = reg_inv (shared t)" "receipts_inv (shared t') = receipts_inv (shared t)"
    "pend_inv t' = pend_inv t" "backoff_inv t' = backoff_inv t"
    "subscriptions (shared t') = subscriptions (shared t)"
    "sub_id_counter (shared t') = sub_id_counter (shared t)"
  using assms
  by (simp_all add: quiet_def Let_def reg_inv_def entry_ok_def receipts_inv_def pend_inv_def backoff_inv_def)

lemma task_inv_quiet:
  assumes inv: "task_inv t" and q: "quiet t t'" and pk: "set (parked t') \<subseteq> set (parked t)"
    and keep: "\<forall>x\<in>set (parked t). (\<exists>e\<in>set (entries (subscriptions (shared t))).
      sub_id e = fst x \<and> ov_queue (sub_overflow e) \<noteq> []) \<longrightarrow> x \<in> set (parked t')"
  shows "task_inv t'"
proof -
  have "wake_inv (t\<lparr>parked := parked t'\<rparr>)"
    using inv by (intro wake_inv_shrink [OF _ pk keep]) (simp add: task_inv_def)
  then have "wake_inv t'"
    by (simp add: wake_inv_def reg_inv_quiet [OF q])
  then show ?thesis
    using inv by (simp add: task_inv_def reg_inv_quiet [OF q])
qed

definition message_pass :: "('c, 'q) task \<Rightarrow> 'c pass" where
  "message_pass t =
     \<lparr>ps_delivered = False, ps_overflowed = [], ps_parked = parked t, ps_cells = cells (shared t),
      ps_chans = chans (shared t)\<rparr>"

definition after_pass :: "frame \<Rightarrow> subscriptions \<Rightarrow> string set option \<Rightarrow> 'c pass \<Rightarrow> ('c, 'q) task \<Rightarrow> ('c, 'q) task" where
  "after_pass f m live p t =
     t\<lparr>shared := (shared t)\<lparr>subscriptions := m,
         pending := sweep_pending live
           (record_pending (scan_headers (headers f)) f (session t) (subscriptions (shared t))
             (pending (shared t))),
         cells := ps_cells p, chans := ps_chans p\<rparr>,
       parked := ps_parked p\<rparr>"

definition skipped :: "frame \<Rightarrow> ('c, 'q) task \<Rightarrow> bool" where
  "skipped f t \<longleftrightarrow>
     (case mh_sub (scan_headers (headers f)) of Some sid \<Rightarrow> sid \<in> overflowed_ids t | None \<Rightarrow> False)"

text \<open>The entries of the registry a MESSAGE is delivered to.\<close>

definition targets :: "frame \<Rightarrow> ('c, 'q) task \<Rightarrow> sub_entry \<Rightarrow> bool" where
  "targets f t = selected (scan_headers (headers f)) (subscriptions (shared t))"

context frame_channel
begin

lemma after_pass_result:
  assumes inv: "task_inv t" and mem: "memory_ok t"
  shows "\<exists>m live p.
    deliver_pass ts f (scan_headers (headers f)) (subscriptions (shared t)) (message_pass t) =
      Some (m, live, p) \<and>
    entries m = delivered_entries ts f (chans (shared t)) (targets f t)
      (entries (subscriptions (shared t))) \<and>
    pass_result ts f (chans (shared t)) (filter (targets f t) (entries (subscriptions (shared t))))
      (message_pass t) p \<and>
    task_inv (after_pass f m live p t) \<and>
    live = (if mh_sub (scan_headers (headers f)) = None \<and> mh_dest (scan_headers (headers f)) = None
            then None else Some (live_ids m))"
proof -
  let ?h = "scan_headers (headers f)" and ?m = "subscriptions (shared t)" and ?cs = "chans (shared t)"
  let ?es = "entries ?m" and ?p = "message_pass t"
  have reg: "reg_inv (shared t)" and wake: "wake_inv t" using inv by (simp_all add: task_inv_def)
  have small: "\<forall>e\<in>set ?es. entry_small e"
    using reg mem by (simp add: reg_inv_def entry_ok_def entry_small_def memory_ok_def)
  have p0: "ps_chans ?p = ?cs" "ps_cells ?p = cells (shared t)" "ps_parked ?p = parked t"
    by (simp_all add: message_pass_def)
  obtain m p where
    pass: "deliver_pass ts f ?h ?m ?p =
      Some (m, if mh_sub ?h = None \<and> mh_dest ?h = None then None else Some (live_ids m), p)"
    and ents: "entries m = delivered_entries ts f ?cs (targets f t) ?es"
    and res: "pass_result ts f ?cs (filter (targets f t) ?es) ?p p"
    and m: "hm_ok m" "\<forall>(d, v)\<in>set m. v \<noteq> []"
    using deliver_pass_result [of ?m ?h f ?p] small reg
    by (auto simp: reg_inv_def targets_def p0)
  let ?live = "if mh_sub ?h = None \<and> mh_dest ?h = None then None else Some (live_ids m)"
  let ?keep = "\<lambda>e. dk_outcome ts f ?cs e = Taken" and ?new = "dk_entry ts f ?cs"
  have ents': "entries m = processed (targets f t) ?keep ?new ?es"
    by (simp add: ents delivered_processed)
  have place: "same_place e (?new e)" "?keep e \<Longrightarrow> ov_inv (sub_overflow (?new e))"
    if "e \<in> set ?es" for e
  proof -
    have e: "entry_small e" using small that by blast
    show "same_place e (?new e)" using dk_keeps [OF e] by (simp add: same_place_def)
    show "ov_inv (sub_overflow (?new e))" if "?keep e"
      using e by (cases rule: dk_cases [where f = f and cs = ?cs]) (use that in simp_all)
  qed
  have cells: "ps_cells p (sub_ended e) = None" if e: "e \<in> set ?es" "targets f t e \<longrightarrow> ?keep e" for e
  proof -
    have "x = e" if "x \<in> set ?es" "sub_ended x = sub_ended e" for x
      using that e(1) reg all_distinct_cell [of ?es x e] by (simp add: reg_inv_def)
    then have "sub_ended e \<notin> sub_ended ` {x \<in> set (filter (targets f t) ?es). dk_outcome ts f ?cs x = Overflowed}"
      using e(2) by fastforce
    then show ?thesis
      using pass_cell_other [OF res] e(1) reg by (simp add: p0 reg_inv_def entry_ok_def)
  qed
  have fresh: "ps_cells p a = None" if "a \<ge> next_cell (shared t)" for a
  proof -
    have "a \<notin> sub_ended ` {x \<in> set (filter (targets f t) ?es). dk_outcome ts f ?cs x = Overflowed}"
      using that reg by (auto simp: reg_inv_def entry_ok_def)
    then show ?thesis
      using pass_cell_other [OF res] that reg by (simp add: p0 reg_inv_def)
  qed
  let ?s = "(shared t)\<lparr>subscriptions := m, cells := ps_cells p, chans := ps_chans p\<rparr>"
  have reg': "reg_inv ?s"
    using place cells fresh by (intro reg_inv_processed [OF reg ents' m]) auto
  have wake': "wake_inv (t\<lparr>shared := ?s, parked := ps_parked p\<rparr>)"
  proof (rule wake_inv_processed [OF wake _ _ _ _ _ reg, where sel = "targets f t" and keepf = ?keep and newf = ?new])
    show "entries (subscriptions ?s) = processed (targets f t) ?keep ?new ?es" by (simp add: ents')
    show "\<forall>e\<in>set ?es. targets f t e \<and> ?keep e \<longrightarrow> same_place e (?new e)" using place by blast
    show "\<forall>(i, ch)\<in>set (ps_parked p). (i, ch) \<in> set (parked t) \<or>
        (\<exists>e\<in>set ?es. i = sub_id e \<and> ch = sub_sender e)"
      using pass_parked_new [OF res] by (auto simp: p0)
    show "\<forall>e\<in>set ?es. (targets f t e \<longrightarrow> ?keep e) \<and>
        ov_queue (sub_overflow (if targets f t e then ?new e else e)) \<noteq> [] \<longrightarrow>
        sub_id e \<in> fst ` set (ps_parked p)"
    proof (intro ballI impI)
      fix e
      assume e: "e \<in> set ?es" and c: "(targets f t e \<longrightarrow> ?keep e) \<and>
        ov_queue (sub_overflow (if targets f t e then ?new e else e)) \<noteq> []"
      show "sub_id e \<in> fst ` set (ps_parked p)"
      proof (cases "targets f t e")
        case True
        then show ?thesis using pass_wakes [OF res] e c by simp
      next
        case False
        then have "sub_id e \<in> fst ` set (parked t)"
          using wake e c by (simp add: wake_inv_def)
        then show ?thesis using pass_parked [OF res] by (auto simp: p0)
      qed
    qed
  qed simp
  have "task_inv (after_pass f m ?live p t)"
  proof -
    have "pend_ok (session t) (sweep_pending ?live (record_pending ?h f (session t) ?m (pending (shared t))))"
      using inv by (intro pend_ok_sweep pend_ok_record) (simp add: task_inv_def pend_inv_def)
    then show ?thesis
      using inv reg' wake'
      by (simp add: task_inv_def after_pass_def pend_inv_def wake_inv_def backoff_inv_def reg_inv_def
          entry_ok_def)
  qed
  then show ?thesis using pass ents res by blast
qed

lemma overflowed_gone:
  assumes inv: "task_inv t" and mem: "memory_ok t"
    and ents: "entries m = delivered_entries ts f (chans (shared t)) (targets f t)
      (entries (subscriptions (shared t)))"
    and res: "pass_result ts f (chans (shared t)) (filter (targets f t) (entries (subscriptions (shared t))))
      (message_pass t) p"
    and i: "i \<in> fst ` set (ps_overflowed p)"
  shows "i \<notin> sub_id ` set (entries m)"
proof
  let ?es = "entries (subscriptions (shared t))" and ?cs = "chans (shared t)"
  assume "i \<in> sub_id ` set (entries m)"
  then obtain e where e: "e \<in> set ?es" "targets f t e \<longrightarrow> dk_outcome ts f ?cs e = Taken"
    "i = sub_id (if targets f t e then dk_entry ts f ?cs e else e)"
    by (auto simp: ents delivered_processed in_processed)
  have "entry_small e"
    using e(1) inv mem
    by (simp add: task_inv_def reg_inv_def entry_ok_def entry_small_def memory_ok_def)
  then have i_e: "i = sub_id e" using e(3) by (simp add: dk_keeps split: if_splits)
  have "i \<in> set (map fst (ps_overflowed p))" using i by simp
  then have "i \<in> sub_id ` {x \<in> set ?es. targets f t x \<and> dk_outcome ts f ?cs x = Overflowed}"
    unfolding pass_overflowed [OF res] by (auto simp: message_pass_def)
  then obtain x where x: "x \<in> set ?es" "targets f t x" "dk_outcome ts f ?cs x = Overflowed" "i = sub_id x"
    by blast
  then have "x = e"
    using i_e e(1) inv all_distinct_id [of ?es x e] by (simp add: task_inv_def reg_inv_def)
  then show False using x e(2) by simp
qed

lemma handle_message_result:
  assumes inv: "task_inv t" and mem: "memory_ok t" and live: "\<not> skipped f t"
  shows "\<exists>m lv p t2 fl.
    entries m = delivered_entries ts f (chans (shared t)) (targets f t)
      (entries (subscriptions (shared t))) \<and>
    pass_result ts f (chans (shared t)) (filter (targets f t) (entries (subscriptions (shared t))))
      (message_pass t) p \<and>
    task_inv (after_pass f m lv p t) \<and>
    fail_overflowed ts wok now (ps_overflowed p) (after_pass f m lv p t) = (t2, fl) \<and> task_inv t2 \<and>
    handle_message ts wok now f t =
      Some (if fl = BreakConn then (t2, BreakConn)
            else if ps_delivered p \<or> ps_overflowed p \<noteq> [] then (t2, Continue)
            else (forward ts f t2, Continue)) \<and>
    lv = (if mh_sub (scan_headers (headers f)) = None \<and> mh_dest (scan_headers (headers f)) = None
          then None else Some (live_ids m))"
proof -
  obtain m lv p where
    pass: "deliver_pass ts f (scan_headers (headers f)) (subscriptions (shared t)) (message_pass t) =
      Some (m, lv, p)"
    and ents: "entries m = delivered_entries ts f (chans (shared t)) (targets f t)
      (entries (subscriptions (shared t)))"
    and res: "pass_result ts f (chans (shared t)) (filter (targets f t) (entries (subscriptions (shared t))))
      (message_pass t) p"
    and inv1: "task_inv (after_pass f m lv p t)"
    and lv: "lv = (if mh_sub (scan_headers (headers f)) = None \<and> mh_dest (scan_headers (headers f)) = None
          then None else Some (live_ids m))"
    using after_pass_result [OF inv mem, of f] by blast
  let ?t1 = "after_pass f m lv p t"
  obtain t2 fl where fo: "fail_overflowed ts wok now (ps_overflowed p) ?t1 = (t2, fl)"
    by fastforce
  note fr = fail_overflowed_result [OF fo]
  have t1: "entries (subscriptions (shared ?t1)) = entries m" "parked ?t1 = ps_parked p"
    by (simp_all add: after_pass_def)
  have "task_inv t2"
  proof (rule task_inv_quiet [OF inv1])
    show "quiet ?t1 t2" "set (parked t2) \<subseteq> set (parked ?t1)" using fr by simp_all
    show "\<forall>x\<in>set (parked ?t1). (\<exists>e\<in>set (entries (subscriptions (shared ?t1))).
        sub_id e = fst x \<and> ov_queue (sub_overflow e) \<noteq> []) \<longrightarrow> x \<in> set (parked t2)"
    proof (intro ballI impI)
      fix x
      assume x: "x \<in> set (parked ?t1)" "\<exists>e\<in>set (entries (subscriptions (shared ?t1))).
        sub_id e = fst x \<and> ov_queue (sub_overflow e) \<noteq> []"
      then have "fst x \<in> sub_id ` set (entries m)" unfolding t1 by (metis imageI)
      then have "fst x \<notin> fst ` set (ps_overflowed p)"
        using overflowed_gone [OF inv mem ents res, of "fst x"] by blast
      then show "x \<in> set (parked t2)" using fr x(1) by blast
    qed
  qed
  moreover have "handle_message ts wok now f t =
      Some (if fl = BreakConn then (t2, BreakConn)
            else if ps_delivered p \<or> ps_overflowed p \<noteq> [] then (t2, Continue)
            else (forward ts f t2, Continue))"
    using live pass fo
    by (cases fl) (simp_all add: handle_message_def skipped_def Let_def message_pass_def after_pass_def)
  ultimately show ?thesis using ents res inv1 fo lv by blast
qed

lemma task_inv_message:
  assumes "task_inv t" and "memory_ok t"
  shows "\<exists>t' fl. handle_message ts wok now f t = Some (t', fl) \<and> task_inv t'"
proof (cases "skipped f t")
  case True
  then show ?thesis using assms by (simp add: handle_message_def skipped_def Let_def)
next
  case False
  show ?thesis
    using handle_message_result [OF assms False, of wok now] by (elim exE conjE) auto
qed

end

section \<open>An ERROR\<close>

lemma retain_append: "retain_entries keep (m @ m') = retain_entries keep m @ retain_entries keep m'"
  by (simp add: retain_entries_def)

lemma retain_all:
  "\<forall>(d, v)\<in>set m. v \<noteq> [] \<Longrightarrow> \<forall>e\<in>set (entries m). keep e \<Longrightarrow> retain_entries keep m = m"
  by (induction m) (auto simp: retain_simps filter_True)

lemma hm_remove_retain:
  assumes "reg_inv s" and "hm_get (subscriptions s) d = Some v"
  shows "hm_remove d (subscriptions s) = retain_entries (\<lambda>e. e \<notin> set v) (subscriptions s)"
    and "filter (\<lambda>e. e \<in> set v) (entries (subscriptions s)) = v"
proof -
  have ok: "hm_ok (subscriptions s)" and full: "\<forall>(d, v)\<in>set (subscriptions s). v \<noteq> []"
    and dist: "all_distinct (entries (subscriptions s))"
    using assms(1) by (simp_all add: reg_inv_def)
  obtain m1 m2 where m: "subscriptions s = m1 @ (d, v) # m2"
    "hm_remove d (subscriptions s) = m1 @ m2"
    using hm_split [OF ok assms(2)] by metis
  have out: "\<forall>e\<in>set (entries m1). e \<notin> set v" "\<forall>e\<in>set (entries m2). e \<notin> set v"
    using dist by (auto simp: m(1) all_distinct_def)
  have "retain_entries (\<lambda>e. e \<notin> set v) m1 = m1" "retain_entries (\<lambda>e. e \<notin> set v) m2 = m2"
    using full out by (intro retain_all; simp add: m(1))+
  then show "hm_remove d (subscriptions s) = retain_entries (\<lambda>e. e \<notin> set v) (subscriptions s)"
    unfolding m(2) unfolding m(1) by (simp add: retain_append retain_simps filter_False)
  show "filter (\<lambda>e. e \<in> set v) (entries (subscriptions s)) = v"
    unfolding m(1) using out by (simp add: filter_False filter_True)
qed

lemma wake_inv_subset:
  assumes "wake_inv t" and "reg_inv (shared t)"
    and "entries (subscriptions s') = filter keep (entries (subscriptions (shared t)))"
    and "sub_id_counter s' = sub_id_counter (shared t)"
  shows "wake_inv (t\<lparr>shared := s'\<rparr>)"
proof -
  have "wake_inv (t\<lparr>shared := s', parked := parked t\<rparr>)"
  proof (rule wake_inv_processed [OF assms(1) _ _ assms(4) _ _ assms(2),
        where sel = "\<lambda>e. \<not> keep e" and keepf = "\<lambda>_. False" and newf = id])
    show "entries (subscriptions s') =
        processed (\<lambda>e. \<not> keep e) (\<lambda>_. False) id (entries (subscriptions (shared t)))"
      by (simp add: assms(3) processed_def map_idI)
    show "\<forall>e\<in>set (entries (subscriptions (shared t))). (\<not> keep e \<longrightarrow> False) \<and>
        ov_queue (sub_overflow (if \<not> keep e then id e else e)) \<noteq> [] \<longrightarrow> sub_id e \<in> fst ` set (parked t)"
      using assms(1) by (simp add: wake_inv_def)
  qed auto
  then show ?thesis by simp
qed

lemma abandon_result:
  assumes "reg_inv (shared t)" and "hm_get (subscriptions (shared t)) dest = Some v"
  shows "\<exists>ids. abandon ts f sid dest n t =
    forward ts (abandon_frame n dest)
      (t\<lparr>shared := (shared t)\<lparr>
           subscriptions := retain_entries (\<lambda>e. e \<notin> set v) (subscriptions (shared t)),
           cells := end_all v (Abandoned (unwrap_or [] (get_header f ''message''))) (cells (shared t))\<rparr>,
         abandoned_ids := ids\<rparr>) \<and>
    ids = (case sid of Some i \<Rightarrow> insert i (abandoned_ids t) | None \<Rightarrow> abandoned_ids t)"
  using assms hm_remove_retain(1) [OF assms]
  by (cases sid) (simp_all add: abandon_def Let_def)

lemma task_inv_abandon:
  assumes "task_inv t"
  shows "task_inv (abandon ts f sid dest n t)"
proof (cases "hm_get (subscriptions (shared t)) dest")
  case None
  then show ?thesis using assms by (simp add: abandon_def Let_def)
next
  case (Some v)
  have reg: "reg_inv (shared t)" using assms by (simp add: task_inv_def)
  obtain ids where r: "abandon ts f sid dest n t =
    forward ts (abandon_frame n dest)
      (t\<lparr>shared := (shared t)\<lparr>
           subscriptions := retain_entries (\<lambda>e. e \<notin> set v) (subscriptions (shared t)),
           cells := end_all v (Abandoned (unwrap_or [] (get_header f ''message''))) (cells (shared t))\<rparr>,
         abandoned_ids := ids\<rparr>)"
    using abandon_result [OF reg Some] by metis
  let ?s = "(shared t)\<lparr>subscriptions := retain_entries (\<lambda>e. e \<notin> set v) (subscriptions (shared t)),
    cells := end_all v (Abandoned (unwrap_or [] (get_header f ''message''))) (cells (shared t))\<rparr>"
  have "reg_inv ?s"
    using reg_inv_end_retain [OF reg, of "\<lambda>e. e \<notin> set v"] hm_remove_retain(2) [OF reg Some] by simp
  moreover have "wake_inv (t\<lparr>shared := ?s\<rparr>)"
    using assms by (intro wake_inv_subset [where keep = "\<lambda>e. e \<notin> set v"]) (simp_all add: task_inv_def)
  ultimately have "task_inv (t\<lparr>shared := ?s\<rparr>)"
    using assms by (simp add: task_inv_def pend_inv_def backoff_inv_def)
  then show ?thesis unfolding r by simp
qed

lemma task_inv_error:
  assumes "task_inv t" and "handle_error ts f t = Some (t', fl)"
  shows "task_inv t'"
proof -
  let ?t1 = "on_shared (settle_receipt f (Inl (server_error_from_frame f))) t"
  have inv1: "task_inv ?t1" by (rule task_inv_settle [OF assms(1)])
  have step: "task_inv (abandon ts f sid dest n (?t1\<lparr>sub_errors := se\<rparr>))" for sid dest n se
    by (rule task_inv_abandon) (simp add: inv1)
  show ?thesis
    using assms(2) inv1 step
    by (auto simp: handle_error_def Let_def split: option.splits if_splits)
qed

context frame_channel
begin

lemma handle_frame_inv:
  assumes inv: "task_inv t" and mem: "memory_ok t" and step: "handle_frame ts wok now f t = Some (t', fl)"
  shows "task_inv t'"
proof -
  let ?t = "t\<lparr>last_received := now\<rparr>"
  have inv1: "task_inv ?t" and mem1: "memory_ok ?t" using inv mem by (simp_all add: memory_ok_def)
  show ?thesis
  proof (cases "command f = ''MESSAGE''")
    case True
    then show ?thesis
      using step task_inv_message [OF inv1 mem1, of wok now f]
      by (auto simp: handle_frame_def Let_def)
  next
    case False
    then show ?thesis
      using step inv1 task_inv_settle [OF inv1] task_inv_error [OF inv1]
      by (auto simp: handle_frame_def handle_receipt_def Let_def split: if_splits)
  qed
qed

end

section \<open>Draining a parked subscription\<close>

lemma drain_vec_other:
  "sid \<notin> sub_id ` set es \<Longrightarrow> drain_vec ts sid es closed cs = (es, closed, cs)"
  by (induction es) auto

lemma drain_vec_append:
  "drain_vec ts sid (es @ es') closed cs =
     (case drain_vec ts sid es closed cs of
        (r, closed, cs) \<Rightarrow> (case drain_vec ts sid es' closed cs of (r', x) \<Rightarrow> (r @ r', x)))"
  by (induction es arbitrary: closed cs) (auto split: prod.split)

lemma drain_map_other:
  "sid \<notin> sub_id ` set (entries m) \<Longrightarrow> drain_map ts sid m closed cs = (m, closed, cs)"
  by (induction m) (auto simp: drain_vec_other image_Un)

lemma drain_map_append:
  "drain_map ts sid (m @ m') closed cs =
     (case drain_map ts sid m closed cs of
        (r, closed, cs) \<Rightarrow> (case drain_map ts sid m' closed cs of (r', x) \<Rightarrow> (r @ r', x)))"
  by (induction m arbitrary: closed cs) (auto split: prod.split)

lemma processed_append:
  "processed sel kf nf (xs @ ys) = processed sel kf nf xs @ processed sel kf nf ys"
  by (simp add: processed_def)

lemma processed_other:
  "sid \<notin> sub_id ` set es \<Longrightarrow> processed (\<lambda>x. sub_id x = sid) kf nf es = es"
  by (induction es) (auto simp: processed_def)

text \<open>At most one entry has the id; it is drained into its own channel.\<close>

lemma drain_map_result:
  assumes dist: "distinct (map sub_id (entries m))" and e: "e \<in> set (entries m)" "sub_id e = sid"
    and drain: "drain_overflow ts e (cs (sub_sender e)) = (alive, e', c)"
    and place: "sub_id e' = sub_id e"
  shows "\<exists>m'. drain_map ts sid m closed cs = (m', \<not> alive, cs(sub_sender e := c)) \<and>
    map fst m' = map fst m \<and>
    entries m' = processed (\<lambda>x. sub_id x = sid) (\<lambda>_. alive) (\<lambda>_. e') (entries m)"
proof -
  obtain d v where dv: "(d, v) \<in> set m" "e \<in> set v"
    using e(1) by (auto simp: set_entries)
  obtain m1 m2 where m: "m = m1 @ (d, v) # m2" using dv(1) by (auto simp: in_set_conv_decomp)
  obtain l r where v: "v = l @ e # r" using dv(2) by (auto simp: in_set_conv_decomp)
  have out: "sid \<notin> sub_id ` set (entries m1)" "sid \<notin> sub_id ` set (entries m2)"
    "sid \<notin> sub_id ` set l" "sid \<notin> sub_id ` set r"
    using dist e(2) by (auto simp: m v)
  let ?e = "if alive then [e'] else []"
  have "drain_vec ts sid v closed cs = (l @ ?e @ r, \<not> alive, cs(sub_sender e := c))"
    using out e(2) drain by (simp add: v drain_vec_append drain_vec_other)
  then have "drain_map ts sid m closed cs = (m1 @ (d, l @ ?e @ r) # m2, \<not> alive, cs(sub_sender e := c))"
    using out by (simp add: m drain_map_append drain_map_other)
  moreover have "processed (\<lambda>x. sub_id x = sid) (\<lambda>_. alive) (\<lambda>_. e') (entries m) =
      entries m1 @ l @ ?e @ r @ entries m2"
  proof -
    have es: "entries m = entries m1 @ l @ [e] @ r @ entries m2" by (simp add: m v)
    have "processed (\<lambda>x. sub_id x = sid) (\<lambda>_. alive) (\<lambda>_. e') [e] = ?e"
      using e(2) by (simp add: processed_def)
    then show ?thesis
      unfolding es processed_append
      by (simp only: processed_other [OF out(1)] processed_other [OF out(2)]
          processed_other [OF out(3)] processed_other [OF out(4)])
  qed
  ultimately show ?thesis by (simp add: m)
qed

lemma drop_empty_ok:
  "hm_ok m \<Longrightarrow> hm_ok (drop_empty m)" "\<forall>(d, v)\<in>set (drop_empty m). v \<noteq> []"
  by (auto simp: drop_empty_def)

lemma drop_empty_id: "\<forall>(d, v)\<in>set m. v \<noteq> [] \<Longrightarrow> drop_empty m = m"
  by (induction m) (auto simp: drop_empty_def)

context frame_channel
begin

text \<open>The frames between the broker and the consumer of one entry, in order.\<close>

lemma handle_parked_result:
  assumes inv: "task_inv t"
  shows "task_inv (handle_parked ts sid t)"
proof -
  let ?s = "shared t" and ?m = "subscriptions (shared t)"
  have reg: "reg_inv ?s" and wake: "wake_inv t" using inv by (simp_all add: task_inv_def)
  have ok: "hm_ok ?m" "\<forall>(d, v)\<in>set ?m. v \<noteq> []" "all_distinct (entries ?m)"
    using reg by (simp_all add: reg_inv_def)
  show ?thesis
  proof (cases "sid \<in> sub_id ` set (entries ?m)")
    case False
    then have "handle_parked ts sid t =
        t\<lparr>parked := prune_parked (parked t) (subscriptions (shared t))\<rparr>"
      by (simp add: handle_parked_def drain_map_other drop_empty_id [OF ok(2)] on_shared_def Let_def)
    then show ?thesis
      using inv wake_inv_prune [OF wake] by (simp add: task_inv_def pend_inv_def backoff_inv_def)
  next
    case True
    then obtain e where e: "e \<in> set (entries ?m)" "sub_id e = sid" by auto
    have ov: "ov_inv (sub_overflow e)" using e(1) reg by (simp add: reg_inv_def entry_ok_def)
    obtain alive ov' c where d: "drain_overflow ts e (chans ?s (sub_sender e)) =
        (alive, e\<lparr>sub_overflow := ov'\<rparr>, c)" and ov': "alive \<longrightarrow> ov_inv ov'"
      and rest: "ov_queue ov' \<noteq> [] \<longrightarrow> ov_queue (sub_overflow e) \<noteq> []"
      using ov by (cases rule: drain_overflow_cases [of e "chans ?s (sub_sender e)"]) auto
    let ?e' = "e\<lparr>sub_overflow := ov'\<rparr>"
    let ?sel = "\<lambda>x. sub_id x = sid" and ?keep = "\<lambda>_ :: sub_entry. alive" and ?new = "\<lambda>_ :: sub_entry. ?e'"
    obtain m' where m': "drain_map ts sid ?m False (chans ?s) =
        (m', \<not> alive, (chans ?s)(sub_sender e := c))" "map fst m' = map fst ?m"
      "entries m' = processed ?sel ?keep ?new (entries ?m)"
      using drain_map_result [OF _ e, of ts "chans ?s" alive ?e' c False] d ok(3)
      by (auto simp: all_distinct_def)
    have only: "x = e" if "x \<in> set (entries ?m)" "sub_id x = sid" for x
      using that e ok(3) all_distinct_id by blast
    have place: "\<forall>x\<in>set (entries ?m). ?sel x \<and> ?keep x \<longrightarrow>
        same_place x (?new x) \<and> ov_inv (sub_overflow (?new x))"
      using only ov' by (auto simp: same_place_def)
    let ?dm = "drop_empty m'" and ?cs = "(chans ?s)(sub_sender e := c)"
    have reg1: "reg_inv (?s\<lparr>subscriptions := ?dm, cells := cells ?s, chans := ?cs\<rparr>)"
      using place reg m' ok(1) drop_empty_ok
      by (intro reg_inv_processed [OF reg, where sel = ?sel and keepf = ?keep and newf = ?new])
        (auto simp: reg_inv_def entry_ok_def)
    have reg': "reg_inv (?s\<lparr>subscriptions := ?dm, chans := ?cs\<rparr>)"
      using reg1 by simp
    let ?t1 = "t\<lparr>shared := ?s\<lparr>subscriptions := ?dm, chans := ?cs\<rparr>\<rparr>"
    have "wake_inv (t\<lparr>shared := ?s\<lparr>subscriptions := ?dm, chans := ?cs\<rparr>, parked := parked t\<rparr>)"
    proof (rule wake_inv_processed [OF wake _ _ _ _ _ reg, where sel = ?sel and keepf = ?keep and newf = ?new])
      show "entries (subscriptions (?s\<lparr>subscriptions := ?dm, chans := ?cs\<rparr>)) =
          processed ?sel ?keep ?new (entries ?m)" by (simp add: m'(3))
      show "\<forall>x\<in>set (entries ?m). ?sel x \<and> ?keep x \<longrightarrow> same_place x (?new x)"
        using place by blast
      show "\<forall>x\<in>set (entries ?m). (?sel x \<longrightarrow> ?keep x) \<and>
          ov_queue (sub_overflow (if ?sel x then ?new x else x)) \<noteq> [] \<longrightarrow> sub_id x \<in> fst ` set (parked t)"
        using wake only rest by (auto simp: wake_inv_def)
    qed auto
    then have "task_inv ?t1"
      using inv reg' by (simp add: task_inv_def pend_inv_def backoff_inv_def)
    then have "task_inv (?t1\<lparr>parked := prune_parked (parked t) ?dm\<rparr>)"
      using wake_inv_prune [of ?t1] by (simp add: task_inv_def pend_inv_def backoff_inv_def)
    moreover have "handle_parked ts sid t =
        (let u = ?t1\<lparr>parked := prune_parked (parked t) ?dm\<rparr>
         in if alive then u else on_shared (forget_pending sid) u)"
      by (simp add: handle_parked_def Let_def m'(1) on_shared_def)
    ultimately show ?thesis
      by (simp add: Let_def task_inv_forget)
  qed
qed

end

section \<open>Sessions\<close>

lemma write_all_quiet: "quiet t (write_all wok fs t) \<and> parked (write_all wok fs t) = parked t"
proof (induction fs arbitrary: t)
  case (Cons f fs)
  have "quiet t (snd (write_item wok (Frame f) t)) \<and> parked (snd (write_item wok (Frame f) t)) = parked t"
    by (cases rule: write_item_cases [of wok "Frame f" t]) simp_all
  then show ?case using Cons [of "snd (write_item wok (Frame f) t)"] quiet_trans by auto
qed simp

lemma task_inv_write_all: "task_inv t \<Longrightarrow> task_inv (write_all wok fs t)"
  by (erule task_inv_quiet) (simp_all add: write_all_quiet)

lemma entries_map: "entries (map (\<lambda>(d, v). (d, map g v)) m) = map g (entries m)"
  by (induction m) auto

lemma discard_parked_place:
  "same_place e (discard_parked e)"
  "ov_inv (sub_overflow e) \<Longrightarrow> ov_inv (sub_overflow (discard_parked e))"
  by (auto simp: same_place_def discard_parked_def ov_inv_def reset_warnings_def)

lemma task_inv_begin_session:
  assumes inv: "task_inv t"
  shows "task_inv (begin_session wok now rc t)"
proof -
  let ?s = "shared t" and ?m = "subscriptions (shared t)"
  let ?dm = "map (\<lambda>(d, v). (d, map discard_parked v)) ?m"
  have reg: "reg_inv ?s" and wake: "wake_inv t" using inv by (simp_all add: task_inv_def)
  have ents: "entries ?dm = processed (\<lambda>_. True) (\<lambda>_. True) discard_parked (entries ?m)"
    by (simp add: entries_map processed_def)
  have ok: "hm_ok ?dm" "\<forall>(d, v)\<in>set ?dm. v \<noteq> []"
    using reg by (simp_all add: reg_inv_def map_fst_map_snd del: map_map) auto
  have "reg_inv (?s\<lparr>subscriptions := ?dm, cells := cells ?s, chans := chans ?s\<rparr>)"
    using reg discard_parked_place
    by (intro reg_inv_processed [OF reg ents ok]) (auto simp: reg_inv_def entry_ok_def)
  then have reg': "reg_inv (?s\<lparr>subscriptions := ?dm\<rparr>)" by simp
  let ?t1 = "t\<lparr>shared := ?s\<lparr>subscriptions := ?dm\<rparr>\<rparr>"
  have "wake_inv (t\<lparr>shared := ?s\<lparr>subscriptions := ?dm\<rparr>, parked := parked t\<rparr>)"
  proof (rule wake_inv_processed [OF wake _ _ _ _ _ reg, where sel = "\<lambda>_. True" and keepf = "\<lambda>_. True" and newf = discard_parked])
    show "\<forall>e\<in>set (entries ?m). (True \<longrightarrow> True) \<and>
        ov_queue (sub_overflow (if True then discard_parked e else e)) \<noteq> [] \<longrightarrow> sub_id e \<in> fst ` set (parked t)"
      using wake by (auto simp: wake_inv_def discard_parked_def reset_warnings_def)
  qed (use ents discard_parked_place in auto)
  then have "task_inv ?t1"
    using inv reg' by (simp add: task_inv_def pend_inv_def backoff_inv_def)
  then have "task_inv (?t1\<lparr>parked := prune_parked (parked t) ?dm\<rparr>)"
    using wake_inv_prune [of ?t1] by (simp add: task_inv_def pend_inv_def backoff_inv_def)
  then have "task_inv ((?t1\<lparr>parked := prune_parked (parked t) ?dm\<rparr>)\<lparr>last_received := now, last_sent := now\<rparr>)"
    by (simp only: task_inv_irrelevant)
  moreover have "begin_session wok now rc t =
      (let u = (?t1\<lparr>parked := prune_parked (parked t) ?dm\<rparr>)\<lparr>last_received := now, last_sent := now\<rparr>
       in if rc then write_all wok (resubscribe_frames ?dm) u else u)"
    by (simp add: begin_session_def Let_def on_shared_def)
  ultimately show ?thesis by (simp add: Let_def task_inv_write_all)
qed

lemma backoff_bounds:
  "1 \<le> b \<Longrightarrow> b \<le> 30 \<Longrightarrow> 1 \<le> backoff_double b \<and> backoff_double b \<le> 30 \<and> b \<le> backoff_double b"
  "1 \<le> b \<Longrightarrow> b \<le> 30 \<Longrightarrow> 1 \<le> backoff_after_session d b \<and> backoff_after_session d b \<le> 30"
  by (auto simp: backoff_double_def backoff_after_session_def)

lemma task_inv_end_session: "task_inv t \<Longrightarrow> task_inv (end_session d t)"
  using backoff_bounds(2) [of "backoff_secs t" d]
  by (simp add: task_inv_def end_session_def on_shared_def pend_inv_def pend_ok_def wake_inv_def
      backoff_inv_def)

lemma task_inv_failed_attempt: "task_inv t \<Longrightarrow> task_inv (failed_attempt t)"
  using backoff_bounds(1) [of "backoff_secs t"]
  by (simp add: task_inv_def failed_attempt_def pend_inv_def wake_inv_def backoff_inv_def)

lemma task_inv_end_task:
  assumes "task_inv t"
  shows "task_inv (end_task t)"
proof -
  have reg: "reg_inv (shared t)" using assms by (simp add: task_inv_def)
  have "retain_entries (\<lambda>_. False) m = []" for m
    by (induction m) (auto simp: retain_simps)
  then have reg': "reg_inv ((shared t)\<lparr>subscriptions := [],
      cells := end_all (entries (subscriptions (shared t))) ConnectionClosed (cells (shared t))\<rparr>)"
    using reg_inv_end_retain [OF reg, of "\<lambda>_. False" ConnectionClosed] by (simp add: filter_True)
  moreover have "wake_inv (t\<lparr>shared := (shared t)\<lparr>subscriptions := [],
      cells := end_all (entries (subscriptions (shared t))) ConnectionClosed (cells (shared t))\<rparr>\<rparr>)"
    using assms reg by (intro wake_inv_subset [where keep = "\<lambda>_. False"]) (simp_all add: task_inv_def)
  ultimately show ?thesis
    using assms by (simp add: task_inv_def end_task_def on_shared_def pend_inv_def backoff_inv_def)
qed

section \<open>A concrete MESSAGE\<close>

lemma scan_demo: "scan_headers (headers (demo_message ''m1'')) =
   \<lparr>mh_dest = Some ''/queue/a'', mh_sub = Some ''1'', mh_msg_id = Some ''m1'', mh_ack = Some ''ack-m1''\<rparr>"
  by (simp add: demo_message_def scan_headers_def scan_header_def frame_builders to_lowercase_ascii is_ascii_def ascii_lower_def)

definition demo_task :: "(frame bounded_chan, outbound bounded_chan) task" where
  "demo_task = task_new 0 one_sub_conn"

abbreviation "all_written \<equiv> (\<lambda>_ _. True) :: write_oracle"

lemma demo_pass:
  "case deliver_pass bc_try_send (demo_message ''m1'') (scan_headers (headers (demo_message ''m1'')))
      (subscriptions one_sub_conn) (message_pass demo_task) of
     None \<Rightarrow> False
   | Some (m, live, p) \<Rightarrow> ps_overflowed p = [] \<and> ps_delivered p \<and> live = Some {''1''} \<and>
       bc_buf (ps_chans p 1) = [demo_message ''m1'']"
  unfolding scan_demo by code_simp

lemma demo_record:
  "record_pending (scan_headers (headers (demo_message ''m1''))) (demo_message ''m1'') 0
     (subscriptions one_sub_conn) [] = [(''1'', [demo_pending ''m1''])]"
  unfolding scan_demo by code_simp

lemma demo_delivered:
  "\<exists>t. handle_frame bc_try_send all_written 0 (demo_message ''m1'') demo_task = Some (t, Continue) \<and>
     pending (shared t) = [(''1'', [demo_pending ''m1''])] \<and> bc_buf (chans (shared t) 1) = [demo_message ''m1'']"
proof -
  have sm: "command (demo_message ''m1'') = ''MESSAGE''" by (simp add: demo_message_def)
  have t: "demo_task\<lparr>last_received := 0\<rparr> = demo_task" "session demo_task = 0" "overflowed_ids demo_task = {}"
    "shared demo_task = one_sub_conn" "pending one_sub_conn = []"
    by (simp_all add: demo_task_def task_new_def one_sub_conn_def register_def fresh_conn_def conn_new_def Let_def)
  obtain m live p where pass: "deliver_pass bc_try_send (demo_message ''m1'')
      (scan_headers (headers (demo_message ''m1''))) (subscriptions one_sub_conn) (message_pass demo_task) = Some (m, live, p)"
    "ps_overflowed p = []" "ps_delivered p" "live = Some {''1''}"
    "bc_buf (ps_chans p 1) = [demo_message ''m1'']"
    using demo_pass by (auto split: option.splits)
  show ?thesis
    using pass demo_record
    by (simp add: handle_frame_def sm t handle_message_def Let_def message_pass_def scan_demo sweep_pending_def)
qed

end
