(* ===== verification/Stomp_Handlers.thy ===== *)
theory Stomp_Handlers
  imports Stomp_Invariants
begin

text \<open>
  What each handler of the background task does to a subscription: a MESSAGE, an ERROR, room in
  the channel of a parked subscription, a new session and the end of the task.
\<close>

section \<open>A MESSAGE\<close>

definition live_sub_ids :: "('c, 'q) task \<Rightarrow> string set" where
  "live_sub_ids t = sub_id ` set (entries (subscriptions (shared t)))"

text \<open>The fate of one addressed subscription: taken, dead, or failed at its limit.\<close>

definition message_fate ::
  "('c \<Rightarrow> frame list) \<Rightarrow> ('c \<Rightarrow> bool) \<Rightarrow> frame \<Rightarrow> ('c, 'q) task \<Rightarrow> ('c, 'q) task \<Rightarrow> sub_entry \<Rightarrow> bool" where
  "message_fate queued rx_closed f t t' e \<longleftrightarrow>
     (let c = chans (shared t) (sub_sender e); c' = chans (shared t') (sub_sender e);
          limit = ov_limit (sub_overflow e); parked_before = ov_queue (sub_overflow e) in
      (\<exists>e'\<in>set (entries (subscriptions (shared t'))). sub_id e' = sub_id e \<and>
         queued c' @ ov_queue (sub_overflow e') = queued c @ parked_before @ [f]) \<or>
      (sub_id e \<notin> live_sub_ids t' \<and> rx_closed c \<and> c' = c) \<or>
      (sub_id e \<notin> live_sub_ids t' \<and> cells (shared t') (sub_ended e) = Some (Overflowed_at limit) \<and>
         limit \<le> length (queued c @ parked_before) \<and>
         queued c' = take (length (queued c @ parked_before) - limit) (queued c @ parked_before)))"

context frame_channel
begin

lemma quiet_facts:
  assumes "quiet t t'"
  shows "cells (shared t') = cells (shared t)"
    "a \<noteq> inbound_chan \<Longrightarrow> chans (shared t') a = chans (shared t) a"
    "live_sub_ids t' = live_sub_ids t"
  using assms by (simp_all add: quiet_def Let_def live_sub_ids_def)

lemma message_fate_quiet:
  assumes "quiet t1 t'" and "sub_sender e \<noteq> inbound_chan"
  shows "message_fate queued rx_closed f t t' e = message_fate queued rx_closed f t t1 e"
  using assms quiet_facts [OF assms(1)] reg_inv_quiet(5) [OF assms(1)]
  by (simp add: message_fate_def)

lemma not_taken_gone:
  assumes inv: "task_inv t" and mem: "memory_ok t"
    and e: "e \<in> set (entries (subscriptions (shared t)))" "sel e" "dk_outcome ts f cs e \<noteq> Taken"
  shows "sub_id e \<notin> sub_id ` set (delivered_entries ts f cs sel (entries (subscriptions (shared t))))"
proof
  let ?es = "entries (subscriptions (shared t))"
  assume "sub_id e \<in> sub_id ` set (delivered_entries ts f cs sel ?es)"
  then obtain x where x: "x \<in> set ?es" "sel x \<longrightarrow> dk_outcome ts f cs x = Taken"
    "sub_id e = sub_id (if sel x then dk_entry ts f cs x else x)"
    by (auto simp: delivered_processed in_processed)
  have "entry_small x"
    using x(1) inv mem
    by (simp add: task_inv_def reg_inv_def entry_ok_def entry_small_def memory_ok_def)
  then have "sub_id e = sub_id x" using x(3) by (simp add: dk_keeps split: if_splits)
  then have "e = x"
    using e(1) x(1) inv all_distinct_id [of ?es e x] by (simp add: task_inv_def reg_inv_def)
  then show False using e x(2) by simp
qed

lemma after_pass_fate:
  assumes inv: "task_inv t" and mem: "memory_ok t"
    and ents: "entries m = delivered_entries ts f (chans (shared t)) (targets f t)
      (entries (subscriptions (shared t)))"
    and res: "pass_result ts f (chans (shared t)) (filter (targets f t) (entries (subscriptions (shared t))))
      (message_pass t) p"
    and e: "e \<in> set (entries (subscriptions (shared t)))" and target: "targets f t e"
  shows "message_fate queued rx_closed f t (after_pass f m lv p t) e"
proof -
  let ?t1 = "after_pass f m lv p t" and ?cs = "chans (shared t)"
  have small: "entry_small e"
    using inv mem e by (auto simp: task_inv_def reg_inv_def entry_ok_def memory_ok_def entry_small_def)
  have e': "e \<in> set (filter (targets f t) (entries (subscriptions (shared t))))" using e target by simp
  have chan: "chans (shared ?t1) (sub_sender e) = dk_chan ts f ?cs e"
    using pass_chan [OF res] e' by (simp add: after_pass_def)
  have ents1: "entries (subscriptions (shared ?t1)) =
      delivered_entries ts f ?cs (targets f t) (entries (subscriptions (shared t)))"
    using ents by (simp add: after_pass_def)
  have gone: "sub_id e \<notin> live_sub_ids ?t1" if "dk_outcome ts f ?cs e \<noteq> Taken"
    using not_taken_gone [of t e "targets f t" f ?cs] inv mem e target that by (simp add: live_sub_ids_def ents1)
  show ?thesis
    using small
  proof (cases rule: dk_cases [of e f ?cs])
    case (Taken ov)
    have "dk_entry ts f ?cs e \<in> set (entries (subscriptions (shared ?t1)))"
      using e target Taken(2) by (auto simp: ents1 delivered_processed in_processed intro!: bexI [of _ e])
    with Taken chan show ?thesis
      by (auto simp: message_fate_def Let_def intro!: bexI [of _ "dk_entry ts f ?cs e"])
  next
    case (Dead ov)
    with gone chan show ?thesis by (simp add: message_fate_def Let_def)
  next
    case (Overflowed ov)
    have "cells (shared t) (sub_ended e) = None"
      using inv e by (auto simp: task_inv_def reg_inv_def entry_ok_def)
    then have "cells (shared ?t1) (sub_ended e) = Some (Overflowed_at (ov_limit (sub_overflow e)))"
      using pass_cell [OF res] e' Overflowed(2) by (auto simp: after_pass_def message_pass_def)
    moreover have "ov_limit (sub_overflow e) \<le> length (queued (?cs (sub_sender e)) @ ov_queue (sub_overflow e))"
      "queued (dk_chan ts f ?cs e) = take (length (queued (?cs (sub_sender e)) @ ov_queue (sub_overflow e)) -
         ov_limit (sub_overflow e)) (queued (?cs (sub_sender e)) @ ov_queue (sub_overflow e))"
      using Overflowed(4,6) unfolding Overflowed(5) [symmetric] by simp_all
    ultimately show ?thesis
      using Overflowed gone chan by (simp add: message_fate_def Let_def)
  qed
qed

lemma message_other:
  assumes inv: "task_inv t" and mem: "memory_ok t"
    and ents: "entries m = delivered_entries ts f (chans (shared t)) (targets f t)
      (entries (subscriptions (shared t)))"
    and res: "pass_result ts f (chans (shared t)) (filter (targets f t) (entries (subscriptions (shared t))))
      (message_pass t) p"
    and e: "e \<in> set (entries (subscriptions (shared t)))" and other: "\<not> targets f t e"
  shows "e \<in> set (entries (subscriptions (shared (after_pass f m lv p t))))"
    and "chans (shared (after_pass f m lv p t)) (sub_sender e) = chans (shared t) (sub_sender e)"
proof -
  show "e \<in> set (entries (subscriptions (shared (after_pass f m lv p t))))"
    using ents e other by (auto simp: after_pass_def delivered_processed in_processed intro!: bexI [of _ e])
  have "sub_sender e \<noteq> sub_sender x" if "x \<in> set (entries (subscriptions (shared t)))" "targets f t x" for x
  proof
    assume "sub_sender e = sub_sender x"
    then have "e = x"
      using inv e that(1) by (auto simp: task_inv_def reg_inv_def all_distinct_def distinct_map dest: inj_onD)
    then show False using other that(2) by simp
  qed
  then have "sub_sender e \<notin> sub_sender ` set (filter (targets f t) (entries (subscriptions (shared t))))"
    by auto
  then show "chans (shared (after_pass f m lv p t)) (sub_sender e) = chans (shared t) (sub_sender e)"
    using pass_chan_other [OF res] by (simp add: after_pass_def message_pass_def)
qed

text \<open>Every addressed subscription meets one of the three fates; the others are untouched.\<close>

lemma handle_message_fates:
  assumes inv: "task_inv t" and mem: "memory_ok t" and new: "\<not> skipped f t"
  shows "\<exists>t' fl. handle_message ts wok now f t = Some (t', fl) \<and> task_inv t' \<and>
    (\<forall>e\<in>set (entries (subscriptions (shared t))).
       if targets f t e then message_fate queued rx_closed f t t' e
       else e \<in> set (entries (subscriptions (shared t'))) \<and>
            chans (shared t') (sub_sender e) = chans (shared t) (sub_sender e))"
proof -
  obtain m lv p t2 fl where
    ents: "entries m = delivered_entries ts f (chans (shared t)) (targets f t)
      (entries (subscriptions (shared t)))"
    and res: "pass_result ts f (chans (shared t)) (filter (targets f t) (entries (subscriptions (shared t))))
      (message_pass t) p"
    and fo: "fail_overflowed ts wok now (ps_overflowed p) (after_pass f m lv p t) = (t2, fl)"
    and t2: "task_inv t2"
    and step: "handle_message ts wok now f t =
      Some (if fl = BreakConn then (t2, BreakConn)
            else if ps_delivered p \<or> ps_overflowed p \<noteq> [] then (t2, Continue)
            else (forward ts f t2, Continue))"
    using handle_message_result [OF inv mem new, of wok now] by blast
  obtain t' fl' where t': "handle_message ts wok now f t = Some (t', fl')" "t' = t2 \<or> t' = forward ts f t2"
    using step by (auto split: if_splits)
  have q: "quiet (after_pass f m lv p t) t'"
    using fail_overflowed_result [OF fo] t'(2) quiet_trans [OF _ quiet_forward] by blast
  have "task_inv t'" using t2 t'(2) by auto
  moreover have "if targets f t e then message_fate queued rx_closed f t t' e
       else e \<in> set (entries (subscriptions (shared t'))) \<and>
            chans (shared t') (sub_sender e) = chans (shared t) (sub_sender e)"
    if e: "e \<in> set (entries (subscriptions (shared t)))" for e
  proof -
    have s: "sub_sender e \<noteq> inbound_chan"
      using inv e by (auto simp: task_inv_def reg_inv_def entry_ok_def inbound_chan_def)
    show ?thesis
      using after_pass_fate [OF inv mem ents res e] message_other [OF inv mem ents res e]
        quiet_facts(2) [OF q s] reg_inv_quiet(5) [OF q]
      by (simp add: message_fate_quiet [OF q s])
  qed
  ultimately show ?thesis using t'(1) by blast
qed

text \<open>Recording a message under a subscription that acknowledges, and forgetting the dead.\<close>

lemma pending_after_message:
  assumes inv: "task_inv t" and mem: "memory_ok t" and new: "\<not> skipped f t"
    and step: "handle_message ts wok now f t = Some (t', fl)"
  shows "pending (shared t') =
    (let h = scan_headers (headers f);
         pend = record_pending h f (session t) (subscriptions (shared t)) (pending (shared t))
     in if mh_sub h = None \<and> mh_dest h = None then pend
        else filter (\<lambda>(i, _). i \<in> live_sub_ids t') pend)"
proof -
  let ?h = "scan_headers (headers f)"
  obtain m lv p t2 fl2 where
    fo: "fail_overflowed ts wok now (ps_overflowed p) (after_pass f m lv p t) = (t2, fl2)"
    and step': "handle_message ts wok now f t =
      Some (if fl2 = BreakConn then (t2, BreakConn)
            else if ps_delivered p \<or> ps_overflowed p \<noteq> [] then (t2, Continue)
            else (forward ts f t2, Continue))"
    and lv: "lv = (if mh_sub ?h = None \<and> mh_dest ?h = None then None else Some (live_ids m))"
    using handle_message_result [OF inv mem new, of wok now] by blast
  have "t' = t2 \<or> t' = forward ts f t2"
    using step step' by (auto split: if_splits)
  then have q: "quiet (after_pass f m lv p t) t'"
    using fail_overflowed_result [OF fo] quiet_trans [OF _ quiet_forward] by blast
  have "live_sub_ids t' = live_ids m"
    by (simp add: quiet_facts(3) [OF q]) (simp add: live_sub_ids_def after_pass_def live_ids_def entries_def)
  moreover have "pending (shared t') = pending (shared (after_pass f m lv p t))"
    using q by (simp add: quiet_def Let_def)
  ultimately show ?thesis
    by (simp add: after_pass_def lv sweep_pending_def Let_def)
qed

section \<open>Room in a parked subscription's channel\<close>

lemma parked_effect:
  assumes inv: "task_inv t" and e: "e \<in> set (entries (subscriptions (shared t)))" "sub_id e = sid"
    and drain: "drain_overflow ts e (chans (shared t) (sub_sender e)) = (alive, e', c)"
    and place: "sub_id e' = sub_id e"
  shows "entries (subscriptions (shared (handle_parked ts sid t))) =
      processed (\<lambda>x. sub_id x = sid) (\<lambda>_. alive) (\<lambda>_. e') (entries (subscriptions (shared t)))"
    and "chans (shared (handle_parked ts sid t)) = (chans (shared t))(sub_sender e := c)"
    and "pending (shared (handle_parked ts sid t)) =
      (if alive then pending (shared t) else hm_remove sid (pending (shared t)))"
proof -
  have "distinct (map sub_id (entries (subscriptions (shared t))))"
    using inv by (simp add: task_inv_def reg_inv_def all_distinct_def)
  then obtain m' where "drain_map ts sid (subscriptions (shared t)) False (chans (shared t)) =
        (m', \<not> alive, (chans (shared t))(sub_sender e := c))"
      "entries m' = processed (\<lambda>x. sub_id x = sid) (\<lambda>_. alive) (\<lambda>_. e') (entries (subscriptions (shared t)))"
    using drain_map_result [where cs = "chans (shared t)", OF _ e drain place, of False] by blast
  then show "entries (subscriptions (shared (handle_parked ts sid t))) =
      processed (\<lambda>x. sub_id x = sid) (\<lambda>_. alive) (\<lambda>_. e') (entries (subscriptions (shared t)))"
    "chans (shared (handle_parked ts sid t)) = (chans (shared t))(sub_sender e := c)"
    "pending (shared (handle_parked ts sid t)) =
      (if alive then pending (shared t) else hm_remove sid (pending (shared t)))"
    by (simp_all add: handle_parked_def Let_def on_shared_def forget_pending_def)
qed

lemma parked_other:
  assumes inv: "task_inv t" and e: "e \<in> set (entries (subscriptions (shared t)))"
    and x: "x \<in> set (entries (subscriptions (shared t)))" "sub_id x \<noteq> sub_id e"
  shows "x \<in> set (entries (subscriptions (shared (handle_parked ts (sub_id e) t))))"
    and "chans (shared (handle_parked ts (sub_id e) t)) (sub_sender x) = chans (shared t) (sub_sender x)"
proof -
  have ov: "ov_inv (sub_overflow e)" and dist: "distinct (map sub_sender (entries (subscriptions (shared t))))"
    using e inv by (auto simp: task_inv_def reg_inv_def entry_ok_def all_distinct_def)
  obtain alive e' c where d: "drain_overflow ts e (chans (shared t) (sub_sender e)) = (alive, e', c)"
    "sub_id e' = sub_id e"
    using ov by (cases rule: drain_overflow_cases [of e "chans (shared t) (sub_sender e)"]) auto
  note eff = parked_effect [OF inv e refl d]
  show "x \<in> set (entries (subscriptions (shared (handle_parked ts (sub_id e) t))))"
    using x by (auto simp: eff in_processed intro!: bexI [of _ x])
  have "sub_sender x \<noteq> sub_sender e"
    using x e dist by (metis distinct_map inj_onD)
  then show "chans (shared (handle_parked ts (sub_id e) t)) (sub_sender x) = chans (shared t) (sub_sender x)"
    by (simp add: eff)
qed

lemma parked_drain:
  assumes inv: "task_inv t" and e: "e \<in> set (entries (subscriptions (shared t)))" "sub_id e = sid"
  shows "(let t' = handle_parked ts sid t; c = chans (shared t) (sub_sender e);
      c' = chans (shared t') (sub_sender e) in
    (\<exists>e'\<in>set (entries (subscriptions (shared t'))). sub_id e' = sid \<and>
       queued c' @ ov_queue (sub_overflow e') = queued c @ ov_queue (sub_overflow e) \<and>
       drained ts (ov_queue (sub_overflow e')) c') \<or>
    (rx_closed c \<and> sid \<notin> live_sub_ids t' \<and> hm_get (pending (shared t')) sid = None))"
proof -
  have ov: "ov_inv (sub_overflow e)" using e inv by (auto simp: task_inv_def reg_inv_def entry_ok_def)
  show ?thesis
    using ov
  proof (cases rule: drain_overflow_cases [of e "chans (shared t) (sub_sender e)"])
    case (Alive sent ov c')
    note eff = parked_effect [OF inv e Alive(1)]
    have "e\<lparr>sub_overflow := ov\<rparr> \<in> set (entries (subscriptions (shared (handle_parked ts sid t))))"
      using e by (auto simp: eff in_processed)
    with Alive e show ?thesis
      by (auto simp: eff Let_def intro!: bexI [of _ "e\<lparr>sub_overflow := ov\<rparr>"])
  next
    case (Dead ov)
    note eff = parked_effect [OF inv e Dead(1)]
    have "sid \<notin> live_sub_ids (handle_parked ts sid t)"
      by (auto simp: live_sub_ids_def eff in_processed)
    with Dead e show ?thesis by (simp add: eff Let_def delete_conv)
  qed
qed

end

section \<open>Errors\<close>

lemma settle_receipt_fields [simp]:
  "subscriptions (settle_receipt f oc s) = subscriptions s" "cells (settle_receipt f oc s) = cells s"
  "pending (settle_receipt f oc s) = pending s"
  by (simp_all add: settle_receipt_def split: option.split)

lemma error_destination_settle [simp]:
  "error_destination f sid (settle_receipt g oc s) = error_destination f sid s"
  by (simp add: error_destination_def lookup_destination_by_sub_id_def split: option.split)

lemma forward_registry [simp]:
  "subscriptions (shared (forward ts f t)) = subscriptions (shared t)"
  "cells (shared (forward ts f t)) = cells (shared t)" "sub_errors (forward ts f t) = sub_errors t"
  "abandoned_ids (forward ts f t) = abandoned_ids t"
  by (simp_all add: forward_def on_shared_def)

lemma handle_error_dest:
  assumes "handle_error ts f t = Some (t', fl)"
    and "extract_subscription_id_from_error f = Some sid"
    and "case sid of Some i \<Rightarrow> i \<notin> abandoned_ids t | None \<Rightarrow> True"
    and "error_destination f sid (shared t) = Some d"
  obtains t1 n where "n = unwrap_or 0 (hm_get (sub_errors t) d) + 1"
    "t1 = (on_shared (settle_receipt f (Inl (server_error_from_frame f))) t)\<lparr>
       sub_errors := hm_insert d n (sub_errors t)\<rparr>"
    "t' = forward ts f (if n \<ge> SUBSCRIPTION_ERROR_THRESHOLD then abandon ts f sid d n t1 else t1)"
  using assms
  by (auto simp: handle_error_def Let_def on_shared_def split: option.splits)

lemma abandon_registry:
  assumes "reg_inv (shared t)"
  shows "hm_get (subscriptions (shared (abandon ts f sid d n t))) d = None"
    and "d' \<noteq> d \<Longrightarrow> hm_get (subscriptions (shared (abandon ts f sid d n t))) d' =
      hm_get (subscriptions (shared t)) d'"
    and "cells (shared (abandon ts f sid d n t)) =
      end_all (unwrap_or [] (hm_get (subscriptions (shared t)) d))
        (Abandoned (unwrap_or [] (get_header f ''message''))) (cells (shared t))"
    and "sub_errors (abandon ts f sid d n t) = sub_errors t"
  by (simp_all add: abandon_def Let_def delete_conv split: option.split)

section \<open>A session begins\<close>

lemma resubscribe_discard:
  "resubscribe_frames (map (\<lambda>(d, v). (d, map discard_parked v)) m) = resubscribe_frames m"
proof -
  have "resub_snapshot (map (\<lambda>(d, v). (d, map discard_parked v)) m) = resub_snapshot m"
    by (induction m) (auto simp: resub_snapshot_def discard_parked_def)
  then show ?thesis by (simp add: resubscribe_frames_def)
qed

lemma list_all2_discard:
  "list_all2 (\<lambda>e e'. sub_id e' = sub_id e \<and> sub_sender e' = sub_sender e \<and> sub_ack e' = sub_ack e \<and>
       sub_hdrs e' = sub_hdrs e \<and> sub_ended e' = sub_ended e \<and>
       ov_queue (sub_overflow e') = (if sub_ack e = Auto then ov_queue (sub_overflow e) else []))
     es (map discard_parked es)"
  by (induction es) (auto simp: discard_parked_def reset_warnings_def)

lemma write_all_written:
  "write_all all_written fs t = t\<lparr>wire := wire t @ map (\<lambda>f. (session t, Frame f)) fs\<rparr>"
  by (induction fs arbitrary: t) (simp_all add: write_item_def)

section \<open>Properties\<close>

lemma task_inv_demo: "task_inv demo_task"
proof -
  have "receipts_inv one_sub_conn"
    by (simp add: receipts_inv_def one_sub_conn_def register_def Let_def fresh_conn_def conn_new_def)
  moreover have "pending one_sub_conn = []"
    by (simp add: one_sub_conn_def register_def Let_def fresh_conn_def conn_new_def)
  ultimately show ?thesis
    using reg_inv_one_sub
    by (simp add: task_inv_def demo_task_def task_new_def pend_inv_def pend_ok_def wake_inv_def
        backoff_inv_def one_sub_simps overflow_new_def)
qed

lemma memory_ok_demo: "memory_ok demo_task"
  by (simp add: memory_ok_def demo_task_def task_new_def one_sub_simps overflow_new_def)

lemma not_skipped_demo: "\<not> skipped (demo_message ''m1'') demo_task"
  by (simp add: skipped_def scan_demo demo_task_def task_new_def)



lemma record_one:
  assumes "mh_sub h = Some sid" and "mh_msg_id h = Some i"
    and "\<exists>e\<in>set (entries m). sub_id e = sid \<and> sub_ack e \<noteq> Auto"
  shows "record_pending h f sess m p = push_pending (pending_message_new (mh_ack h) i f sess) sid p"
proof -
  have "need_pending h m" using assms by (auto simp: need_pending_def list_ex_iff)
  then show ?thesis using assms by (simp add: record_pending_def pending_targets_def)
qed

lemma hm_get_filter: "hm_get (filter (\<lambda>(i, _). i \<in> A) m) k = (if k \<in> A then hm_get m k else None)"
  by (induction m) auto

text \<open>
  C11. A message that must be acknowledged is remembered. When a MESSAGE names a subscription with a
  client ack mode and carries a message-id, it is appended to that subscription's pending queue
  with the broker's ack id (the message-id when there is none) and the current session, unless
  the subscription did not survive the delivery, in which case nothing stays pending for it.
\<close>

theorem message_recorded:
  assumes "frame_channel ts queued rx_closed"
    and "task_inv t" and "memory_ok t" and "\<not> skipped f t"
    and "handle_message ts wok now f t = Some (t', fl)"
    and h: "mh_sub (scan_headers (headers f)) = Some sid" "mh_msg_id (scan_headers (headers f)) = Some i"
    and e: "e \<in> set (entries (subscriptions (shared t)))" "sub_id e = sid" "sub_ack e \<noteq> Auto"
  shows "hm_get (pending (shared t')) sid =
    (if sid \<in> live_sub_ids t' then
       Some (unwrap_or [] (hm_get (pending (shared t)) sid) @
         [pending_message_new (mh_ack (scan_headers (headers f))) i f (session t)])
     else None)"
proof -
  have "\<exists>e\<in>set (entries (subscriptions (shared t))). sub_id e = sid \<and> sub_ack e \<noteq> Auto"
    using e by blast
  then show ?thesis
    using frame_channel.pending_after_message [OF assms(1-5)] h
    by (simp add: Let_def record_one hm_get_filter push_pending_def)
qed

theorem message_recorded_witness:
  "\<exists>t' fl. handle_message bc_try_send all_written 0 (demo_message ''m1'') demo_task = Some (t', fl) \<and>
     hm_get (pending (shared t')) ''1'' =
       (if ''1'' \<in> live_sub_ids t' then Some [pending_message_new (Some ''ack-m1'') ''m1'' (demo_message ''m1'') 0]
        else None)"
proof -
  obtain t' fl where step: "handle_message bc_try_send all_written 0 (demo_message ''m1'') demo_task = Some (t', fl)"
    using frame_channel.handle_message_fates [OF bounded_frames.frame_channel_axioms task_inv_demo
        memory_ok_demo not_skipped_demo] by blast
  have "session demo_task = 0" "pending (shared demo_task) = []"
    by (simp_all add: demo_task_def task_new_def one_sub_conn_def register_def Let_def fresh_conn_def
        conn_new_def)
  then show ?thesis
    using message_recorded [OF bounded_frames.frame_channel_axioms task_inv_demo memory_ok_demo
        not_skipped_demo step, of "''1''" "''m1''"] step
    by (auto simp: scan_demo demo_task_def task_new_def one_sub_simps)
qed

text \<open>
  C13. Room in a parked subscription's channel: parked frames move into it until none is left or the
  channel is full again, and what the consumer will read (the channel's frames, then the parked
  ones) stays the same, in order; or the receiver
  is gone, and then the subscription is no longer registered and nothing is pending for it.
  Other subscriptions keep their entries and their channels.
\<close>

theorem parked_frames_move:
  assumes "frame_channel ts queued rx_closed" and "task_inv t"
    and e: "e \<in> set (entries (subscriptions (shared t)))"
  shows "let t' = handle_parked ts (sub_id e) t; c = chans (shared t) (sub_sender e);
      c' = chans (shared t') (sub_sender e) in
    ((\<exists>e'\<in>set (entries (subscriptions (shared t'))). sub_id e' = sub_id e \<and>
       queued c' @ ov_queue (sub_overflow e') = queued c @ ov_queue (sub_overflow e) \<and>
       (ov_queue (sub_overflow e') = [] \<or>
        ts c' (hd (ov_queue (sub_overflow e'))) = (Full (hd (ov_queue (sub_overflow e'))), c'))) \<or>
     (rx_closed c \<and> sub_id e \<notin> live_sub_ids t' \<and> hm_get (pending (shared t')) (sub_id e) = None)) \<and>
    (\<forall>x\<in>set (entries (subscriptions (shared t))). sub_id x \<noteq> sub_id e \<longrightarrow>
       x \<in> set (entries (subscriptions (shared t'))) \<and>
       chans (shared t') (sub_sender x) = chans (shared t) (sub_sender x))"
  using frame_channel.parked_drain [OF assms(1,2) e refl]
    frame_channel.parked_other [OF assms(1,2) e] by (simp add: Let_def drained_def)

theorem parked_frames_move_witness:
  "\<exists>e. e \<in> set (entries (subscriptions (shared demo_task))) \<and>
     (let t' = handle_parked bc_try_send (sub_id e) demo_task; c = chans (shared demo_task) (sub_sender e);
        c' = chans (shared t') (sub_sender e) in
      (\<exists>e'\<in>set (entries (subscriptions (shared t'))). sub_id e' = sub_id e \<and>
         bc_buf c' @ ov_queue (sub_overflow e') = bc_buf c @ ov_queue (sub_overflow e)) \<or> bc_closed c)"
proof -
  obtain e where e: "e \<in> set (entries (subscriptions (shared demo_task)))"
    by (simp add: demo_task_def task_new_def one_sub_simps)
  show ?thesis
    using parked_frames_move [OF bounded_frames.frame_channel_axioms task_inv_demo e] e
    by (intro exI [of _ e]) (auto simp: Let_def)
qed

text \<open>
  C15. Repeated ERRORs about one destination. Each one that is not about a subscription already
  given up is counted. Up to two leave the registry and the handles alone; from the third on the
  destination's subscriptions are removed (and so not replayed after a reconnect), each handle
  reads the broker's message as the reason, and no other destination is touched.
\<close>

theorem error_threshold:
  assumes inv: "task_inv t" and step: "handle_error ts f t = Some (t', fl)"
    and sid: "extract_subscription_id_from_error f = Some sid"
      "case sid of Some i \<Rightarrow> i \<notin> abandoned_ids t | None \<Rightarrow> True"
    and dest: "error_destination f sid (shared t) = Some d"
  shows "let n = unwrap_or 0 (hm_get (sub_errors t) d) + 1 in
    hm_get (sub_errors t') d = Some n \<and>
    (if n < 3
     then subscriptions (shared t') = subscriptions (shared t) \<and> cells (shared t') = cells (shared t)
     else hm_get (subscriptions (shared t')) d = None \<and>
       (\<forall>d'. d' \<noteq> d \<longrightarrow> hm_get (subscriptions (shared t')) d' = hm_get (subscriptions (shared t)) d') \<and>
       (\<forall>e\<in>set (unwrap_or [] (hm_get (subscriptions (shared t)) d)).
          cells (shared t') (sub_ended e) = Some (Abandoned (unwrap_or [] (get_header f ''message'')))))"
proof -
  have reg: "reg_inv (shared t)" using inv by (simp add: task_inv_def)
  obtain t1 n where n: "n = unwrap_or 0 (hm_get (sub_errors t) d) + 1"
    and t1: "t1 = (on_shared (settle_receipt f (Inl (server_error_from_frame f))) t)\<lparr>
       sub_errors := hm_insert d n (sub_errors t)\<rparr>"
    and t': "t' = forward ts f (if n \<ge> SUBSCRIPTION_ERROR_THRESHOLD then abandon ts f sid d n t1 else t1)"
    using handle_error_dest [OF step sid dest] by blast
  have same: "subscriptions (shared t1) = subscriptions (shared t)" "cells (shared t1) = cells (shared t)"
    "sub_errors t1 = hm_insert d n (sub_errors t)"
    by (simp_all add: t1 on_shared_def)
  have reg1: "reg_inv (shared t1)"
    using task_inv_settle [OF inv, of f "Inl (server_error_from_frame f)"] by (simp add: t1 task_inv_def)
  have open_cells: "cells (shared t) (sub_ended e) = None"
    if "hm_get (subscriptions (shared t)) d = Some v" "e \<in> set v" for v e
    using reg that by (force simp: reg_inv_def entry_ok_def entries_def dest: map_of_SomeD)
  show ?thesis
  proof (cases "n < 3")
    case True
    then show ?thesis using n t' same by (simp add: SUBSCRIPTION_ERROR_THRESHOLD_def Let_def)
  next
    case False
    then have "t' = forward ts f (abandon ts f sid d n t1)"
      using t' by (simp add: SUBSCRIPTION_ERROR_THRESHOLD_def)
    moreover have "cells (shared (abandon ts f sid d n t1)) (sub_ended e) =
        Some (Abandoned (unwrap_or [] (get_header f ''message'')))"
      if e: "e \<in> set (unwrap_or [] (hm_get (subscriptions (shared t)) d))" for e
    proof -
      have "cells (shared t) (sub_ended e) = None"
        using e open_cells by (cases "hm_get (subscriptions (shared t)) d") auto
      then show ?thesis using e by (simp add: abandon_registry [OF reg1] same end_all_apply)
    qed
    ultimately show ?thesis
      using False n by (simp add: abandon_registry [OF reg1] same Let_def)
  qed
qed

definition demo_error :: frame where
  "demo_error = with_header ''destination'' ''/queue/a'' (with_header ''message'' ''denied'' (frame_new ''ERROR''))"

lemma demo_error_ids:
  "extract_subscription_id_from_error demo_error = Some None"
  "error_destination demo_error None s = Some ''/queue/a''"
proof -
  have "error_text demo_error = ''denied ''" by code_simp
  moreover have "is_ascii ''denied ''" by code_simp
  moreover have "str_find ''subscription '' (map ascii_lower ''denied '') = None" by code_simp
  ultimately show "extract_subscription_id_from_error demo_error = Some None"
    by (simp add: extract_subscription_id_from_error_def to_lowercase_ascii Let_def)
  have "get_header demo_error ''destination'' = Some ''/queue/a''" by code_simp
  then show "error_destination demo_error None s = Some ''/queue/a''"
    by (simp add: error_destination_def extract_destination_from_error_def)
qed

theorem error_threshold_witness:
  "\<exists>t' fl. handle_error bc_try_send demo_error (demo_task\<lparr>sub_errors := [(''/queue/a'', 2)]\<rparr>) = Some (t', fl) \<and>
     hm_get (subscriptions (shared t')) ''/queue/a'' = None \<and>
     cells (shared t') 0 = Some (Abandoned ''denied'')"
proof -
  let ?t = "demo_task\<lparr>sub_errors := [(''/queue/a'', 2)]\<rparr>"
  obtain t' fl where step: "handle_error bc_try_send demo_error ?t = Some (t', fl)"
    by (simp add: handle_error_def demo_error_ids Let_def)
  have inv: "task_inv ?t" by (simp add: task_inv_demo)
  have msg: "get_header demo_error ''message'' = Some ''denied''" by code_simp
  show ?thesis
    using error_threshold [OF inv step demo_error_ids(1) _ demo_error_ids(2)] step msg
    by (simp add: Let_def demo_task_def task_new_def one_sub_simps)
qed

lemma resubscribe_frames_spelled:
  "resubscribe_frames m = concat (map (\<lambda>(d, es). map (\<lambda>e. \<lparr>command = ''SUBSCRIBE'',
     headers = [(''id'', sub_id e), (''destination'', d),
       (''ack'', case sub_ack e of Auto \<Rightarrow> ''auto'' | Client \<Rightarrow> ''client'' | ClientIndividual \<Rightarrow> ''client-individual'')] @
       sub_hdrs e, body = []\<rparr>) es) m)"
proof -
  have "ack_as_str a = (case a of Auto \<Rightarrow> ''auto'' | Client \<Rightarrow> ''client'' | ClientIndividual \<Rightarrow> ''client-individual'')" for a
    by (cases a) simp_all
  then show ?thesis
    by (simp add: resubscribe_frames_def resub_snapshot_def map_concat comp_def case_prod_beta' subscribe_frame_headers)
qed

text \<open>
  C14. A reconnect, when every write succeeds: for every entry of the registry, in order, and for
  nothing else, a SUBSCRIBE with the entry's id, its destination, its ack mode and then its own
  headers is written, before anything else of the new session; every subscription stays
  registered; one in a client ack mode drops its parked frames (the broker redelivers them), one
  in auto mode keeps them; pending messages and channels are untouched.
\<close>

theorem session_replay:
  "let t' = begin_session all_written now True t in
   wire t' = wire t @ map (\<lambda>g. (session t, Frame g))
     (concat (map (\<lambda>(d, es). map (\<lambda>e. \<lparr>command = ''SUBSCRIBE'',
        headers = [(''id'', sub_id e), (''destination'', d), (''ack'', case sub_ack e of
            Auto \<Rightarrow> ''auto'' | Client \<Rightarrow> ''client'' | ClientIndividual \<Rightarrow> ''client-individual'')] @ sub_hdrs e,
        body = []\<rparr>) es) (subscriptions (shared t)))) \<and>
   map fst (subscriptions (shared t')) = map fst (subscriptions (shared t)) \<and>
   list_all2 (\<lambda>e e'. sub_id e' = sub_id e \<and> sub_sender e' = sub_sender e \<and> sub_ack e' = sub_ack e \<and>
       sub_hdrs e' = sub_hdrs e \<and> sub_ended e' = sub_ended e \<and>
       ov_queue (sub_overflow e') = (if sub_ack e = Auto then ov_queue (sub_overflow e) else []))
     (entries (subscriptions (shared t))) (entries (subscriptions (shared t'))) \<and>
   pending (shared t') = pending (shared t) \<and> chans (shared t') = chans (shared t)"
proof -
  let ?m = "map (\<lambda>(d, v). (d, map discard_parked v)) (subscriptions (shared t))"
  let ?t = "t\<lparr>shared := (shared t)\<lparr>subscriptions := ?m\<rparr>, parked := prune_parked (parked t) ?m,
    last_received := now, last_sent := now\<rparr>"
  have eq: "begin_session all_written now True t = write_all all_written (resubscribe_frames ?m) ?t"
    by (simp add: begin_session_def on_shared_def Let_def)
  have frames: "resubscribe_frames ?m = resubscribe_frames (subscriptions (shared t))"
    by (rule resubscribe_discard)
  have "list_all2 (\<lambda>e e'. sub_id e' = sub_id e \<and> sub_sender e' = sub_sender e \<and> sub_ack e' = sub_ack e \<and>
       sub_hdrs e' = sub_hdrs e \<and> sub_ended e' = sub_ended e \<and>
       ov_queue (sub_overflow e') = (if sub_ack e = Auto then ov_queue (sub_overflow e) else []))
     (entries (subscriptions (shared t))) (entries ?m)"
    unfolding entries_map by (rule list_all2_discard)
  then show ?thesis
    unfolding eq Let_def write_all_written frames
    unfolding resubscribe_frames_spelled by (simp add: split_beta)
qed

text \<open>
  C25. The end of the task: no subscription stays registered, every one that was registered reads
  \<^verbatim>\<open>ConnectionClosed\<close>, and a handle that already had a reason keeps it.
\<close>

theorem task_end_notifies:
  assumes "task_inv t"
  shows "subscriptions (shared (end_task t)) = [] \<and>
    (\<forall>e\<in>set (entries (subscriptions (shared t))).
       cells (shared (end_task t)) (sub_ended e) = Some ConnectionClosed) \<and>
    (\<forall>c r. cells (shared t) c = Some r \<longrightarrow> cells (shared (end_task t)) c = Some r)"
  using assms
  by (auto simp: end_task_def on_shared_def end_all_apply task_inv_def reg_inv_def entry_ok_def)

theorem task_end_notifies_witness:
  "cells (shared (end_task demo_task)) 0 = Some ConnectionClosed"
  using task_end_notifies [OF task_inv_demo] by (simp add: demo_task_def task_new_def one_sub_simps)

end
