(* ===== verification/Stomp_Sections.thy ===== *)
theory Stomp_Sections
  imports Stomp_Handlers
begin

text \<open>
  The critical sections of the handlers (\<^verbatim>\<open>src/connection.rs\<close>). A handler that takes more than one
  lock is cut where it lets go of one, because a method of the handle may run there: a MESSAGE
  into the look at the registry, the collection of ids, the recording, the delivery pass, the
  sweep and the notices; an ERROR into the receipt, the look-up and the count; a wake-up into the
  drain and the clean-up; a new session into the discard and the replay. Run back to back the
  sections are the handler.
\<close>

section \<open>A MESSAGE\<close>

abbreviation msg_of :: "frame \<Rightarrow> msg_headers" where
  "msg_of f \<equiv> scan_headers (headers f)"

definition collect_ids :: "frame \<Rightarrow> bool \<Rightarrow> subscriptions \<Rightarrow> string list" where
  "collect_ids f need m =
     (if need \<and> mh_msg_id (msg_of f) \<noteq> None then pending_targets (msg_of f) m else [])"

definition record_ids :: "frame \<Rightarrow> nat \<Rightarrow> string list \<Rightarrow> pending_map \<Rightarrow> pending_map" where
  "record_ids f sess ids p =
     (case mh_msg_id (msg_of f) of
        Some msg_id \<Rightarrow>
          foldl (\<lambda>p i. push_pending (pending_message_new (mh_ack (msg_of f)) msg_id f sess) i p) p ids
      | None \<Rightarrow> p)"

definition record_section :: "frame \<Rightarrow> string list \<Rightarrow> ('c, 'q) task \<Rightarrow> ('c, 'q) task" where
  "record_section f ids t = on_shared (\<lambda>s. s\<lparr>pending := record_ids f (session t) ids (pending s)\<rparr>) t"

text \<open>The delivery pass, with the ids still live, the subscriptions to fail, and whether any took it.\<close>

definition deliver_section ::
  "('c, frame) try_send \<Rightarrow> frame \<Rightarrow> ('c, 'q) task \<Rightarrow>
   (('c, 'q) task \<times> string set option \<times> (string \<times> string \<times> nat) list \<times> bool) option" where
  "deliver_section ts f t =
     map_option (\<lambda>(m, live, p).
         (t\<lparr>shared := (shared t)\<lparr>subscriptions := m, cells := ps_cells p, chans := ps_chans p\<rparr>,
            parked := ps_parked p\<rparr>, live, ps_overflowed p, ps_delivered p))
       (deliver_pass ts f (msg_of f) (subscriptions (shared t)) (message_pass t))"

definition sweep_section :: "string set option \<Rightarrow> ('c, 'q) task \<Rightarrow> ('c, 'q) task" where
  "sweep_section live t = on_shared (\<lambda>s. s\<lparr>pending := sweep_pending live (pending s)\<rparr>) t"

definition fail_section ::
  "('c, frame) try_send \<Rightarrow> write_oracle \<Rightarrow> nat \<Rightarrow> frame \<Rightarrow> (string \<times> string \<times> nat) list \<Rightarrow> bool \<Rightarrow>
   ('c, 'q) task \<Rightarrow> ('c, 'q) task \<times> flow" where
  "fail_section ts wok now f ovs delivered t =
     (case fail_overflowed ts wok now ovs t of
        (t, BreakConn) \<Rightarrow> (t, BreakConn)
      | (t, Continue) \<Rightarrow>
          if delivered \<or> ovs \<noteq> [] then (t, Continue) else (forward ts f t, Continue))"

lemma record_collect:
  "record_ids f sess (collect_ids f (need_pending (msg_of f) m) m) p = record_pending (msg_of f) f sess m p"
  by (simp add: record_ids_def collect_ids_def record_pending_def split: option.split)

lemma message_after_pass:
  assumes "\<not> skipped f t"
    and "deliver_pass ts f (msg_of f) (subscriptions (shared t)) (message_pass t) = Some (m, lv, p)"
  shows "handle_message ts wok now f t =
    Some (fail_section ts wok now f (ps_overflowed p) (ps_delivered p) (after_pass f m lv p t))"
  using assms
  by (auto simp: handle_message_def skipped_def message_pass_def after_pass_def fail_section_def Let_def
      split: prod.splits flow.splits)

lemma sections_after_pass:
  "t1 = record_section f (collect_ids f (need_pending (msg_of f) (subscriptions (shared t)))
     (subscriptions (shared t))) t \<Longrightarrow>
   sweep_section lv (t1\<lparr>shared := (shared t1)\<lparr>subscriptions := m, cells := ps_cells p, chans := ps_chans p\<rparr>,
     parked := ps_parked p\<rparr>) = after_pass f m lv p t"
  by (cases t; cases "shared t")
    (simp add: sweep_section_def record_section_def record_collect after_pass_def on_shared_def)

lemma message_sections:
  assumes "\<not> skipped f t"
    and t1: "t1 = record_section f (collect_ids f (need_pending (msg_of f) (subscriptions (shared t)))
      (subscriptions (shared t))) t"
  shows "handle_message ts wok now f t =
    (case deliver_section ts f t1 of
       None \<Rightarrow> None
     | Some (t2, live, ovs, delivered) \<Rightarrow>
         Some (fail_section ts wok now f ovs delivered (sweep_section live t2)))"
proof -
  have eq: "message_pass t1 = message_pass t" "subscriptions (shared t1) = subscriptions (shared t)"
    by (simp_all add: t1 message_pass_def record_section_def on_shared_def)
  show ?thesis
  proof (cases "deliver_pass ts f (msg_of f) (subscriptions (shared t)) (message_pass t)")
    case None
    then have "handle_message ts wok now f t = None"
      using assms(1) by (simp add: handle_message_def skipped_def message_pass_def Let_def)
    then show ?thesis using None by (simp add: deliver_section_def eq)
  next
    case (Some r)
    then obtain m lv p where r: "r = (m, lv, p)" by (cases r) auto
    show ?thesis
      using message_after_pass [OF assms(1) Some [unfolded r], of wok now] Some
      by (simp add: deliver_section_def eq r sections_after_pass [OF t1])
  qed
qed

section \<open>An ERROR, a wake-up, a session\<close>

definition error_settle :: "frame \<Rightarrow> ('c, 'q) task \<Rightarrow> ('c, 'q) task" where
  "error_settle f t = on_shared (settle_receipt f (Inl (server_error_from_frame f))) t"

definition given_up :: "string option \<Rightarrow> ('c, 'q) task \<Rightarrow> bool" where
  "given_up sid t = (case sid of Some i \<Rightarrow> i \<in> abandoned_ids t | None \<Rightarrow> False)"

definition error_count ::
  "('c, frame) try_send \<Rightarrow> frame \<Rightarrow> string option \<Rightarrow> string option \<Rightarrow> ('c, 'q) task \<Rightarrow> ('c, 'q) task" where
  "error_count ts f sid dest t =
     forward ts f
       (case dest of
          None \<Rightarrow> t
        | Some dest \<Rightarrow>
            let cnt = unwrap_or 0 (hm_get (sub_errors t) dest) + 1;
                t = t\<lparr>sub_errors := hm_insert dest cnt (sub_errors t)\<rparr>
            in if cnt \<ge> SUBSCRIPTION_ERROR_THRESHOLD then abandon ts f sid dest cnt t else t)"

lemma error_sections:
  "handle_error ts f t =
     (let t = error_settle f t
      in case extract_subscription_id_from_error f of
           None \<Rightarrow> None
         | Some sid \<Rightarrow>
             if given_up sid t then Some (t, Continue)
             else Some (error_count ts f sid (error_destination f sid (shared t)) t, Continue))"
  by (cases "extract_subscription_id_from_error f")
    (simp_all add: handle_error_def error_settle_def given_up_def error_count_def Let_def)

definition drain_section ::
  "('c, frame) try_send \<Rightarrow> string \<Rightarrow> ('c, 'q) task \<Rightarrow> ('c, 'q) task \<times> bool" where
  "drain_section ts sid t =
     (case drain_map ts sid (subscriptions (shared t)) False (chans (shared t)) of
        (m, closed, cs) \<Rightarrow>
          let m = drop_empty m
          in ((on_shared (\<lambda>s. s\<lparr>subscriptions := m, chans := cs\<rparr>) t)\<lparr>parked := prune_parked (parked t) m\<rparr>,
              closed))"

lemma parked_sections:
  "handle_parked ts sid t =
     (case drain_section ts sid t of
        (t, closed) \<Rightarrow> if closed then on_shared (forget_pending sid) t else t)"
  by (simp add: handle_parked_def drain_section_def on_shared_def Let_def split: prod.split)

definition discard_section :: "nat \<Rightarrow> ('c, 'q) task \<Rightarrow> ('c, 'q) task" where
  "discard_section now t =
     (let m = map (\<lambda>(d, v). (d, map discard_parked v)) (subscriptions (shared t))
      in (on_shared (\<lambda>s. s\<lparr>subscriptions := m\<rparr>) t)\<lparr>parked := prune_parked (parked t) m,
           last_received := now, last_sent := now\<rparr>)"

definition replay_section :: "write_oracle \<Rightarrow> ('c, 'q) task \<Rightarrow> ('c, 'q) task" where
  "replay_section wok t = write_all wok (resubscribe_frames (subscriptions (shared t))) t"

lemma session_sections:
  "begin_session wok now rc t =
     (let t = discard_section now t in if rc then replay_section wok t else t)"
  by (simp add: begin_session_def discard_section_def replay_section_def on_shared_def Let_def)

text \<open>
  The critical sections of a handler, run back to back, are the handler. The code's nested
  conditions and early returns for a MESSAGE (record what is pending, deliver, sweep, fail the
  overflowed), an ERROR (settle a receipt, count against a destination), room in a parked channel
  (drain, forget) and the start of a session (discard, replay) compute, in every state, what the
  sections compute one after the other when nothing falls between them.
\<close>

theorem sections_are_handlers:
  "handle_message ts wok now f t =
     (if skipped f t then Some (t, Continue)
      else
        let t1 = record_section f (collect_ids f (need_pending (msg_of f) (subscriptions (shared t)))
                   (subscriptions (shared t))) t
        in case deliver_section ts f t1 of
             None \<Rightarrow> None
           | Some (t2, live, ovs, delivered) \<Rightarrow>
               Some (fail_section ts wok now f ovs delivered (sweep_section live t2))) \<and>
   handle_error ts f t =
     (let t = error_settle f t
      in case extract_subscription_id_from_error f of
           None \<Rightarrow> None
         | Some sid \<Rightarrow>
             if given_up sid t then Some (t, Continue)
             else Some (error_count ts f sid (error_destination f sid (shared t)) t, Continue)) \<and>
   handle_parked ts sid t =
     (case drain_section ts sid t of
        (t, closed) \<Rightarrow> if closed then on_shared (forget_pending sid) t else t) \<and>
   begin_session wok now rc t =
     (let t = discard_section now t in if rc then replay_section wok t else t)"
proof -
  have "handle_message ts wok now f t = Some (t, Continue)" if "skipped f t"
    using that by (simp add: handle_message_def skipped_def Let_def)
  then show ?thesis
    using message_sections [OF _ refl, of f t ts wok now]
    by (intro conjI error_sections parked_sections session_sections) (simp add: Let_def)
qed

section \<open>Each section keeps the task invariant\<close>

lemma task_inv_pending:
  assumes "task_inv (t\<lparr>shared := (shared t)\<lparr>pending := p'\<rparr>\<rparr>)" and "pend_ok (session t) p"
  shows "task_inv (t\<lparr>shared := (shared t)\<lparr>pending := p\<rparr>\<rparr>)"
  using assms by (simp add: task_inv_def pend_inv_def wake_inv_def backoff_inv_def reg_inv_def entry_ok_def)

lemma task_inv_pending_self:
  assumes "task_inv t" and "pend_ok (session t) p"
  shows "task_inv (t\<lparr>shared := (shared t)\<lparr>pending := p\<rparr>\<rparr>)"
  using task_inv_pending [where t = t and p' = "pending (shared t)"] assms by simp

lemma pend_ok_record_ids: "pend_ok sess p \<Longrightarrow> pend_ok sess (record_ids f sess ids p)"
proof -
  assume p: "pend_ok sess p"
  have "pend_ok sess (foldl (\<lambda>p i. push_pending (pending_message_new a mid f sess) i p) p ids)" for a mid
    using p by (induction ids arbitrary: p) (simp_all add: pend_ok_push pending_message_new_def)
  then show ?thesis using p by (simp add: record_ids_def split: option.split)
qed

lemma pend_ok_task: "task_inv t \<Longrightarrow> pend_ok (session t) (pending (shared t))"
  by (simp add: task_inv_def pend_inv_def)

lemma task_inv_record: "task_inv t \<Longrightarrow> task_inv (record_section f ids t)"
  unfolding record_section_def on_shared_def
  by (intro task_inv_pending_self pend_ok_record_ids pend_ok_task)

lemma task_inv_sweep: "task_inv t \<Longrightarrow> task_inv (sweep_section live t)"
  unfolding sweep_section_def on_shared_def
  by (intro task_inv_pending_self pend_ok_sweep pend_ok_task)

lemma task_inv_error_settle: "task_inv t \<Longrightarrow> task_inv (error_settle f t)"
  unfolding error_settle_def by (rule task_inv_settle)

lemma task_inv_error_count: "task_inv t \<Longrightarrow> task_inv (error_count ts f sid dest t)"
  by (simp add: error_count_def Let_def task_inv_abandon split: option.split)

lemma task_inv_discard: "task_inv t \<Longrightarrow> task_inv (discard_section now t)"
  using task_inv_begin_session [of t _ now False] by (simp add: session_sections)

lemma task_inv_replay: "task_inv t \<Longrightarrow> task_inv (replay_section wok t)"
  unfolding replay_section_def by (rule task_inv_write_all)

text \<open>Ids the registry has handed out so far.\<close>

definition old_ids :: "('c, 'q) task \<Rightarrow> string set" where
  "old_ids t = {show_nat k | k. k < sub_id_counter (shared t)}"

lemma live_old: "task_inv t \<Longrightarrow> live_sub_ids t \<subseteq> old_ids t"
  by (auto simp: task_inv_def reg_inv_def entry_ok_def live_sub_ids_def old_ids_def)

text \<open>The subscriptions about to be failed are no longer registered, and never will be again.\<close>

definition gone :: "(string \<times> string \<times> nat) list \<Rightarrow> ('c, 'q) task \<Rightarrow> bool" where
  "gone ovs t \<longleftrightarrow> fst ` set ovs \<subseteq> old_ids t - live_sub_ids t"

lemma task_inv_fail:
  assumes "task_inv t" and "gone ovs t" and "fail_section ts wok now f ovs delivered t = (t', fl)"
  shows "task_inv t'"
proof -
  obtain t2 fl2 where fo: "fail_overflowed ts wok now ovs t = (t2, fl2)" by fastforce
  note fr = fail_overflowed_result [OF fo]
  have "task_inv t2"
  proof (rule task_inv_quiet [OF assms(1)])
    show "quiet t t2" "set (parked t2) \<subseteq> set (parked t)" using fr by simp_all
    show "\<forall>x\<in>set (parked t). (\<exists>e\<in>set (entries (subscriptions (shared t))).
        sub_id e = fst x \<and> ov_queue (sub_overflow e) \<noteq> []) \<longrightarrow> x \<in> set (parked t2)"
      using fr assms(2) by (force simp: gone_def live_sub_ids_def)
  qed
  moreover have "t' = t2 \<or> t' = forward ts f t2"
    using assms(3) fo by (auto simp: fail_section_def split: flow.splits if_splits)
  ultimately show ?thesis by auto
qed

context frame_channel
begin

lemma task_inv_drain:
  assumes inv: "task_inv t" and drain: "drain_section ts sid t = (t', closed)"
  shows "task_inv t'"
proof -
  have "task_inv (handle_parked ts sid t)" by (rule handle_parked_result [OF inv])
  then have "task_inv (if closed then on_shared (forget_pending sid) t' else t')"
    using drain by (simp add: parked_sections)
  moreover have "pend_ok (session t') (pending (shared t'))"
    using drain pend_ok_task [OF inv] by (auto simp: drain_section_def on_shared_def Let_def split: prod.splits)
  ultimately show ?thesis
    using task_inv_pending [where t = t' and p' = "hm_remove sid (pending (shared t'))" and p = "pending (shared t')"]
    by (simp add: on_shared_def forget_pending_def split: if_splits)
qed

text \<open>The delivery pass returns, and what it hands to the later sections.\<close>

lemma deliver_section_result:
  assumes inv: "task_inv t" and mem: "memory_ok t"
  obtains t' live ovs d where "deliver_section ts f t = Some (t', live, ovs, d)" "task_inv t'"
    "pending (shared t') = pending (shared t)" "sub_id_counter (shared t') = sub_id_counter (shared t)"
    "gone ovs t'" "live = None \<or> live = Some (live_sub_ids t')"
proof -
  obtain m lv p where
    pass: "deliver_pass ts f (msg_of f) (subscriptions (shared t)) (message_pass t) = Some (m, lv, p)"
    and ents: "entries m = delivered_entries ts f (chans (shared t)) (targets f t)
      (entries (subscriptions (shared t)))"
    and res: "pass_result ts f (chans (shared t)) (filter (targets f t) (entries (subscriptions (shared t))))
      (message_pass t) p"
    and inv1: "task_inv (after_pass f m lv p t)"
    and lv: "lv = (if mh_sub (msg_of f) = None \<and> mh_dest (msg_of f) = None then None else Some (live_ids m))"
    using after_pass_result [OF inv mem, of f] by blast
  let ?t = "t\<lparr>shared := (shared t)\<lparr>subscriptions := m, cells := ps_cells p, chans := ps_chans p\<rparr>,
    parked := ps_parked p\<rparr>"
  have sect: "deliver_section ts f t = Some (?t, lv, ps_overflowed p, ps_delivered p)"
    by (simp add: deliver_section_def pass)
  have "task_inv ?t"
  proof -
    have "?t\<lparr>shared := (shared ?t)\<lparr>pending := pending (shared (after_pass f m lv p t))\<rparr>\<rparr> = after_pass f m lv p t"
      by (cases t; cases "shared t") (simp add: after_pass_def)
    then have full: "task_inv (?t\<lparr>shared := (shared ?t)\<lparr>pending := pending (shared (after_pass f m lv p t))\<rparr>\<rparr>)"
      using inv1 by simp
    have "pend_ok (session ?t) (pending (shared t))" using pend_ok_task [OF inv] by simp
    from task_inv_pending [OF full this]
    have "task_inv (?t\<lparr>shared := (shared ?t)\<lparr>pending := pending (shared t)\<rparr>\<rparr>)" .
    moreover have "?t\<lparr>shared := (shared ?t)\<lparr>pending := pending (shared t)\<rparr>\<rparr> = ?t"
      by (cases t; cases "shared t") simp
    ultimately show ?thesis by metis
  qed
  moreover have "gone (ps_overflowed p) ?t"
  proof -
    have ids: "live_sub_ids ?t = sub_id ` set (entries m)" "old_ids ?t = old_ids t"
      by (simp_all add: live_sub_ids_def old_ids_def)
    have "fst ` set (ps_overflowed p) = set (map fst (ps_overflowed p))" by simp
    also have "\<dots> \<subseteq> live_sub_ids t"
      unfolding pass_overflowed [OF res] by (auto simp: message_pass_def live_sub_ids_def)
    also have "\<dots> \<subseteq> old_ids t" by (rule live_old [OF inv])
    finally have old: "fst ` set (ps_overflowed p) \<subseteq> old_ids t" .
    show ?thesis
      unfolding gone_def ids
      by (intro subsetI DiffI) (erule subsetD [OF old], erule overflowed_gone [OF inv mem ents res])
  qed
  ultimately show ?thesis
    using lv by (intro that [OF sect]) (auto simp: live_sub_ids_def live_ids_def)
qed

end

end
