(* ===== verification/Stomp_System.thy ===== *)
theory Stomp_System
  imports Stomp_Sections
begin

text \<open>
  The whole connection as a transition system: the critical sections of the handle's methods
  interleave freely with the handlers of the background task, across sessions, back-off and
  shutdown. The invariant of every reachable state: the task invariant, and where each
  acknowledgement on its way to the broker comes from.
\<close>

section \<open>Client operations keep the task invariant\<close>

lemma task_inv_shared:
  assumes "task_inv t" and "reg_inv s'" "receipts_inv s'" "pend_ok (session t) (pending s')"
    and "subscriptions s' = subscriptions (shared t)" "sub_id_counter s' = sub_id_counter (shared t)"
  shows "task_inv (t\<lparr>shared := s'\<rparr>)"
  using assms by (simp add: task_inv_def pend_inv_def wake_inv_def backoff_inv_def)

lemma task_inv_sent:
  assumes "task_inv t"
  shows "task_inv (t\<lparr>shared := (shared t)\<lparr>outbound_tx := q\<rparr>\<rparr>)"
  by (rule task_inv_shared [OF assms]) (use assms in \<open>simp_all add: task_inv_def pend_inv_def\<close>)

lemma task_inv_register:
  assumes inv: "task_inv t"
  shows "task_inv (on_shared (\<lambda>s. snd (register mk d a hs cap lim s)) t)"
proof -
  let ?s = "shared t"
  obtain e s' where reg: "register mk d a hs cap lim ?s = (e, s')" by fastforce
  have r: "reg_inv ?s" "wake_inv t" using inv by (simp_all add: task_inv_def)
  note props = register_inv [OF r(1) reg]
  have s': "pending s' = pending ?s" "pending_receipts s' = pending_receipts ?s"
    "receipt_counter s' = receipt_counter ?s" "next_oneshot s' = next_oneshot ?s"
    "outcomes s' = outcomes ?s" "sub_id_counter s' = Suc (sub_id_counter ?s)"
    and e: "sub_id e = show_nat (sub_id_counter ?s)" "ov_queue (sub_overflow e) = []"
    using reg by (auto simp: register_def Let_def overflow_new_def)
  have ents: "set (entries (subscriptions s')) = insert e (set (entries (subscriptions ?s)))"
    using props(2) by (metis set_mset_add_mset_insert set_mset_mset)
  have "wake_inv (t\<lparr>shared := s'\<rparr>)"
    using r(2) e show_nat_inj unfolding wake_inv_def by (fastforce simp: ents s' less_Suc_eq)
  moreover have "receipts_inv s'"
    using inv by (simp add: task_inv_def receipts_inv_def s')
  ultimately show ?thesis
    using inv props(1) reg
    by (simp add: task_inv_def on_shared_def pend_inv_def backoff_inv_def s')
qed

lemma task_inv_deregister:
  assumes inv: "task_inv t"
  shows "task_inv (on_shared (\<lambda>s. snd (deregister sid s)) t)"
proof -
  have reg: "reg_inv (shared t)" using inv by (simp add: task_inv_def)
  let ?s' = "(shared t)\<lparr>subscriptions := retain_entries (\<lambda>e. sub_id e \<noteq> sid) (subscriptions (shared t)),
    cells := end_all (filter (\<lambda>e. sub_id e = sid) (entries (subscriptions (shared t)))) Unsubscribed
      (cells (shared t))\<rparr>"
  have "reg_inv ?s'"
    using reg_inv_end_retain [OF reg, of "\<lambda>e. sub_id e \<noteq> sid" Unsubscribed] by simp
  moreover have "wake_inv (t\<lparr>shared := ?s'\<rparr>)"
    using inv by (intro wake_inv_subset [where keep = "\<lambda>e. sub_id e \<noteq> sid"]) (simp_all add: task_inv_def)
  ultimately show ?thesis
    using inv by (simp add: task_inv_def on_shared_def deregister_eq [OF reg] pend_inv_def backoff_inv_def)
qed

lemma task_inv_best_effort:
  assumes inv: "task_inv t"
  shows "task_inv (on_shared (unsubscribe_best_effort tso a b sid) t)"
proof -
  let ?t1 = "if a then on_shared (\<lambda>s. snd (deregister sid s)) t else t"
  let ?t2 = "if b then on_shared (forget_pending sid) ?t1 else ?t1"
  have reg: "reg_inv (shared t)" using inv by (simp add: task_inv_def)
  have "task_inv ?t2"
    using inv by (simp add: task_inv_deregister task_inv_forget)
  moreover have "on_shared (unsubscribe_best_effort tso a b sid) t =
      ?t2\<lparr>shared := (shared ?t2)\<lparr>outbound_tx :=
        snd (tso (outbound_tx (shared ?t2)) (Item (Frame (unsubscribe_frame sid))))\<rparr>\<rparr>"
    by (simp add: unsubscribe_best_effort_def on_shared_def deregister_eq [OF reg] Let_def)
  ultimately show ?thesis using task_inv_sent by metis
qed

lemma pend_ok_settle:
  assumes "pend_ok sess p" and "settle_pending mode sid i p = (found, p')"
  shows "pend_ok sess p'"
proof (cases "hm_get p sid")
  case None
  then show ?thesis using assms by (simp add: settle_pending_def)
next
  case (Some q)
  show ?thesis
  proof (cases "settle_queue mode i q")
    case None
    then show ?thesis using assms Some by (simp add: settle_pending_def)
  next
    case sq: (Some mq)
    obtain m q' where mq: "mq = (m, q')" by (cases mq)
    have "set q' \<subseteq> set q"
      using settle_queue_SomeD [of mode i q m q'] sq mq by (auto split: if_splits)
    moreover have "\<forall>pm\<in>set q. pm_session pm = sess"
      using assms(1) Some by (auto simp: pend_ok_def dest: map_of_SomeD)
    ultimately have q': "\<forall>pm\<in>set q'. pm_session pm = sess" by blast
    then have "pend_ok sess (hm_insert sid q' p)"
      using assms(1) by (fastforce simp: pend_ok_def dest: set_hm_insertD)
    then show ?thesis
      using assms Some sq mq pend_ok_remove [OF assms(1)]
      by (auto simp: settle_pending_def split: if_splits)
  qed
qed

lemma task_inv_settled:
  assumes "task_inv t" and "settle_pending mode sid i (pending (shared t)) = (found, p)"
  shows "task_inv (t\<lparr>shared := (shared t)\<lparr>pending := p\<rparr>\<rparr>)"
proof (rule task_inv_shared [OF assms(1)])
  show "pend_ok (session t) (pending ((shared t)\<lparr>pending := p\<rparr>))"
    using pend_ok_settle [OF _ assms(2)] assms(1) by (simp add: task_inv_def pend_inv_def)
qed (use assms(1) in \<open>simp_all add: task_inv_def\<close>)

section \<open>The connection as a transition system\<close>

text \<open>
  Where the task is: before its first session, waiting in the \<^verbatim>\<open>'conn\<close> loop, out of the loop with the
  session not yet closed, between two sessions, ended, or between two critical sections of the
  handler that runs, with what that handler holds in its local variables.
\<close>

datatype phase =
    Fresh | Running | Broken | Backoff | Ended
  | Collecting frame bool
  | Recording frame "string list"
  | Delivering frame
  | Sweeping frame "string set option" "(string \<times> string \<times> nat) list" bool
  | Failing frame "(string \<times> string \<times> nat) list" bool
  | Finding frame "string option"
  | Counting frame "string option" "string option"
  | Clearing string
  | Replaying

text \<open>
  \<open>inflight\<close> holds the sends whose critical section is over and whose place in the outbound
  channel is not taken yet (\<^verbatim>\<open>send().await\<close> waiting for room). The rest is ghost state: \<open>recorded\<close>,
  every message ever recorded as pending under a subscription; \<open>acked\<close>, every acknowledgement
  written, with the session it was written in; \<open>got\<close>, by channel, the frames its receiver took out;
  \<open>offered\<close>, by channel, the MESSAGEs meant for its subscription, less those discarded at the start
  of a session; \<open>cancelled\<close>, the sends whose caller went away before they found their place.
\<close>

record ('c, 'q) sys =
  tk :: "('c, 'q) task"
  phase :: phase
  inflight :: "outbound list"
  recorded :: "(string \<times> pending_message) set"
  acked :: "(nat \<times> frame) set"
  got :: "chan_id \<Rightarrow> frame list"
  offered :: "chan_id \<Rightarrow> frame list"
  cancelled :: "outbound set"

definition pend_pairs :: "pending_map \<Rightarrow> (string \<times> pending_message) set" where
  "pend_pairs p = {(sid, pm). \<exists>q. (sid, q) \<in> set p \<and> pm \<in> set q}"

definition sys_new :: "nat \<Rightarrow> 'q \<Rightarrow> (chan_id \<Rightarrow> 'c) \<Rightarrow> ('c, 'q) sys" where
  "sys_new now q cs =
     \<lparr>tk = task_new now (conn_new q cs), phase = Fresh, inflight = [], recorded = {}, acked = {},
      got = (\<lambda>_. []), offered = (\<lambda>_. []), cancelled = {}\<rparr>"

definition after_flow :: "flow \<Rightarrow> phase" where
  "after_flow fl = (case fl of Continue \<Rightarrow> Running | BreakConn \<Rightarrow> Broken)"

text \<open>What the ghost log gains when an item taken from the outbound channel is written.\<close>

definition ack_written :: "outbound \<Rightarrow> ('c, 'q) task \<Rightarrow> ('c, 'q) task \<Rightarrow> (nat \<times> frame) set" where
  "ack_written out t t' =
     (case out of
        Item _ \<Rightarrow> {}
      | AckOut f _ \<Rightarrow> if length (wire t) < length (wire t') then {(session t, f)} else {})"

text \<open>What a delivery pass offers to the channels, and what the start of a session takes back.\<close>

definition offer :: "frame \<Rightarrow> ('c, 'q) task \<Rightarrow> (chan_id \<Rightarrow> frame list) \<Rightarrow> chan_id \<Rightarrow> frame list" where
  "offer f t log a =
     (if \<exists>e\<in>set (entries (subscriptions (shared t))). targets f t e \<and> sub_sender e = a
      then log a @ [f] else log a)"

definition withdraw :: "('c, 'q) task \<Rightarrow> (chan_id \<Rightarrow> frame list) \<Rightarrow> chan_id \<Rightarrow> frame list" where
  "withdraw t log a =
     (case List.find (\<lambda>e. sub_sender e = a \<and> sub_ack e \<noteq> Auto) (entries (subscriptions (shared t))) of
        Some e \<Rightarrow> take (length (log a) - length (ov_queue (sub_overflow e))) (log a)
      | None \<Rightarrow> log a)"

definition with_shared :: "('c, 'q) sys \<Rightarrow> ('c, 'q) conn \<Rightarrow> ('c, 'q) sys" where
  "with_shared S s = S\<lparr>tk := (tk S)\<lparr>shared := s\<rparr>\<rparr>"

text \<open>
  The steps. The client's are the critical sections of the handle's methods, in any order and
  at any time (so every interleaving of every number of clones of the handle is a run), a send
  finding its place, a send given up, and a receiver taking a frame from its channel or going away.
  The task's are the critical sections of its handlers. \<open>tro\<close> is the receiving side of the outbound
  channel, and \<open>rx\<close> that of the channels of frames (\<^const>\<open>None\<close> when the receiver goes away).
\<close>

inductive sys_step ::
  "('c, frame) try_send \<Rightarrow> ('q, outbound) try_send \<Rightarrow> ('q \<Rightarrow> (outbound \<times> 'q) option) \<Rightarrow>
   ('c \<Rightarrow> frame option \<Rightarrow> 'c \<Rightarrow> bool) \<Rightarrow> write_oracle \<Rightarrow> (nat \<Rightarrow> 'c) \<Rightarrow> ('c, 'q) sys \<Rightarrow> ('c, 'q) sys \<Rightarrow> bool"
  for ts tso tro rx wok mk where
  Register: "register mk d a hs cap lim (shared (tk S)) = (e, s) \<Longrightarrow>
    sys_step ts tso tro rx wok mk S
      ((with_shared S s)\<lparr>inflight := inflight S @ [Item (Frame (subscribe_frame (sub_id e) d a hs))]\<rparr>)"
| Deregister: "sys_step ts tso tro rx wok mk S (with_shared S (snd (deregister sid (shared (tk S)))))"
| Forget: "sys_step ts tso tro rx wok mk S (with_shared S (forget_pending sid (shared (tk S))))"
| BestEffort: "sys_step ts tso tro rx wok mk S
    (with_shared S (unsubscribe_best_effort tso a b sid (shared (tk S))))"
| Settle: "settle_pending mode sid i (pending (shared (tk S))) = (Some m, p) \<Longrightarrow>
    sys_step ts tso tro rx wok mk S
      ((with_shared S ((shared (tk S))\<lparr>pending := p\<rparr>))\<lparr>inflight :=
        inflight S @ [AckOut (ack_frame_of cmd (pm_ack_id m) sid) (pm_session m)]\<rparr>)"
| Send: "sys_step ts tso tro rx wok mk S (S\<lparr>inflight := inflight S @ [Item item]\<rparr>)"
| AskReceipt: "sys_step ts tso tro rx wok mk S (with_shared S (registered (shared (tk S))))"
| DropReceipt: "sys_step ts tso tro rx wok mk S (with_shared S
    ((shared (tk S))\<lparr>pending_receipts := hm_remove rid (pending_receipts (shared (tk S)))\<rparr>))"
| Enqueue: "inflight S = xs @ out # ys \<Longrightarrow> tso (outbound_tx (shared (tk S))) out = (Sent, q) \<Longrightarrow>
    sys_step ts tso tro rx wok mk S
      ((with_shared S ((shared (tk S))\<lparr>outbound_tx := q\<rparr>))\<lparr>inflight := xs @ ys\<rparr>)"
| GiveUp: "inflight S = xs @ out # ys \<Longrightarrow> sys_step ts tso tro rx wok mk S
    (S\<lparr>inflight := xs @ ys, cancelled := insert out (cancelled S)\<rparr>)"
| Receive: "a < next_chan (shared (tk S)) \<Longrightarrow> rx (chans (shared (tk S)) a) (Some f) c \<Longrightarrow>
    sys_step ts tso tro rx wok mk S
      ((with_shared S ((shared (tk S))\<lparr>chans := (chans (shared (tk S)))(a := c)\<rparr>))\<lparr>got :=
        (got S)(a := got S a @ [f])\<rparr>)"
| DropReceiver: "a < next_chan (shared (tk S)) \<Longrightarrow> rx (chans (shared (tk S)) a) None c \<Longrightarrow>
    sys_step ts tso tro rx wok mk S
      (with_shared S ((shared (tk S))\<lparr>chans := (chans (shared (tk S)))(a := c)\<rparr>))"
| Start: "phase S = Fresh \<Longrightarrow> sys_step ts tso tro rx wok mk S
    (S\<lparr>tk := discard_section now (tk S), phase := Running, offered := withdraw (tk S) (offered S)\<rparr>)"
| LoopTop: "phase S = Running \<Longrightarrow> sys_step ts tso tro rx wok mk S (S\<lparr>tk := loop_top (tk S)\<rparr>)"
| Outbound: "phase S = Running \<Longrightarrow> tro (outbound_tx (shared (tk S))) = Some (out, q) \<Longrightarrow>
    handle_outbound wok now out ((tk S)\<lparr>shared := (shared (tk S))\<lparr>outbound_tx := q\<rparr>\<rparr>) = (t, fl) \<Longrightarrow>
    sys_step ts tso tro rx wok mk S
      (S\<lparr>tk := t, phase := after_flow fl, acked := acked S \<union> ack_written out (tk S) t\<rparr>)"
| Arrive: "phase S = Running \<Longrightarrow> command f = ''MESSAGE'' \<Longrightarrow> \<not> skipped f (tk S) \<Longrightarrow>
    sys_step ts tso tro rx wok mk S
      (S\<lparr>tk := (tk S)\<lparr>last_received := now\<rparr>,
         phase := Collecting f (need_pending (msg_of f) (subscriptions (shared (tk S))))\<rparr>)"
| Skip: "phase S = Running \<Longrightarrow> command f = ''MESSAGE'' \<Longrightarrow> skipped f (tk S) \<Longrightarrow>
    sys_step ts tso tro rx wok mk S (S\<lparr>tk := (tk S)\<lparr>last_received := now\<rparr>\<rparr>)"
| Collect: "phase S = Collecting f need \<Longrightarrow> sys_step ts tso tro rx wok mk S
    (S\<lparr>phase := Recording f (collect_ids f need (subscriptions (shared (tk S))))\<rparr>)"
| Record: "phase S = Recording f ids \<Longrightarrow> t = record_section f ids (tk S) \<Longrightarrow>
    sys_step ts tso tro rx wok mk S
      (S\<lparr>tk := t, phase := Delivering f, recorded := recorded S \<union> pend_pairs (pending (shared t))\<rparr>)"
| Deliver: "phase S = Delivering f \<Longrightarrow> memory_ok (tk S) \<Longrightarrow>
    deliver_section ts f (tk S) = Some (t, live, ovs, delivered) \<Longrightarrow>
    sys_step ts tso tro rx wok mk S
      (S\<lparr>tk := t, phase := Sweeping f live ovs delivered, offered := offer f (tk S) (offered S)\<rparr>)"
| Sweep: "phase S = Sweeping f live ovs delivered \<Longrightarrow> sys_step ts tso tro rx wok mk S
    (S\<lparr>tk := sweep_section live (tk S), phase := Failing f ovs delivered\<rparr>)"
| Fail: "phase S = Failing f ovs delivered \<Longrightarrow>
    fail_section ts wok now f ovs delivered (tk S) = (t, fl) \<Longrightarrow>
    sys_step ts tso tro rx wok mk S (S\<lparr>tk := t, phase := after_flow fl\<rparr>)"
| Refused: "phase S = Running \<Longrightarrow> command f = ''ERROR'' \<Longrightarrow>
    extract_subscription_id_from_error f = Some sid \<Longrightarrow>
    t = error_settle f ((tk S)\<lparr>last_received := now\<rparr>) \<Longrightarrow>
    sys_step ts tso tro rx wok mk S (S\<lparr>tk := t, phase := if given_up sid t then Running else Finding f sid\<rparr>)"
| Panic: "phase S = Running \<Longrightarrow> command f = ''ERROR'' \<Longrightarrow> extract_subscription_id_from_error f = None \<Longrightarrow>
    sys_step ts tso tro rx wok mk S
      (S\<lparr>tk := error_settle f ((tk S)\<lparr>last_received := now\<rparr>), phase := Ended\<rparr>)"
| Find: "phase S = Finding f sid \<Longrightarrow> sys_step ts tso tro rx wok mk S
    (S\<lparr>phase := Counting f sid (error_destination f sid (shared (tk S)))\<rparr>)"
| Count: "phase S = Counting f sid dest \<Longrightarrow> sys_step ts tso tro rx wok mk S
    (S\<lparr>tk := error_count ts f sid dest (tk S), phase := Running\<rparr>)"
| Inbound: "phase S = Running \<Longrightarrow> command f \<noteq> ''MESSAGE'' \<Longrightarrow> command f \<noteq> ''ERROR'' \<Longrightarrow>
    handle_frame ts wok now f (tk S) = Some (t, fl) \<Longrightarrow>
    sys_step ts tso tro rx wok mk S (S\<lparr>tk := t, phase := after_flow fl\<rparr>)"
| BrokerBeat: "phase S = Running \<Longrightarrow>
    sys_step ts tso tro rx wok mk S (S\<lparr>tk := handle_heartbeat notify now (tk S)\<rparr>)"
| Parked: "phase S = Running \<Longrightarrow> sid \<in> fst ` set (parked (tk S)) \<Longrightarrow>
    drain_section ts sid (tk S) = (t, closed) \<Longrightarrow>
    sys_step ts tso tro rx wok mk S (S\<lparr>tk := t, phase := if closed then Clearing sid else Running\<rparr>)"
| Clear: "phase S = Clearing sid \<Longrightarrow> sys_step ts tso tro rx wok mk S
    (S\<lparr>tk := on_shared (forget_pending sid) (tk S), phase := Running\<rparr>)"
| Tick: "phase S = Running \<Longrightarrow> handle_hb_tick wok now si (tk S) = (t, fl) \<Longrightarrow>
    sys_step ts tso tro rx wok mk S (S\<lparr>tk := t, phase := after_flow fl\<rparr>)"
| Watchdog: "phase S = Running \<Longrightarrow>
    sys_step ts tso tro rx wok mk S (S\<lparr>phase := after_flow (handle_watchdog now ri (tk S))\<rparr>)"
| StreamGone: "phase S = Running \<Longrightarrow> sys_step ts tso tro rx wok mk S (S\<lparr>phase := Broken\<rparr>)"
| SessionOver: "phase S = Broken \<Longrightarrow>
    sys_step ts tso tro rx wok mk S (S\<lparr>tk := end_session lasted (tk S), phase := Backoff\<rparr>)"
| AttemptFailed: "phase S = Backoff \<Longrightarrow>
    sys_step ts tso tro rx wok mk S (S\<lparr>tk := failed_attempt (tk S)\<rparr>)"
| Reconnected: "phase S = Backoff \<Longrightarrow> sys_step ts tso tro rx wok mk S
    (S\<lparr>tk := discard_section now (tk S), phase := Replaying, offered := withdraw (tk S) (offered S)\<rparr>)"
| Replay: "phase S = Replaying \<Longrightarrow> sys_step ts tso tro rx wok mk S
    (S\<lparr>tk := replay_section wok (tk S), phase := Running\<rparr>)"
| Shutdown: "phase S \<in> {Fresh, Running, Broken, Backoff} \<Longrightarrow>
    sys_step ts tso tro rx wok mk S (S\<lparr>tk := end_task (tk S), phase := Ended\<rparr>)"

inductive reachable ::
  "('c, frame) try_send \<Rightarrow> ('q, outbound) try_send \<Rightarrow> ('q \<Rightarrow> (outbound \<times> 'q) option) \<Rightarrow>
   ('c \<Rightarrow> frame option \<Rightarrow> 'c \<Rightarrow> bool) \<Rightarrow> write_oracle \<Rightarrow> (nat \<Rightarrow> 'c) \<Rightarrow> 'q \<Rightarrow> ('c, 'q) sys \<Rightarrow> bool"
  for ts tso tro rx wok mk q0 where
  Init: "reachable ts tso tro rx wok mk q0 (sys_new now q0 cs)"
| Step: "reachable ts tso tro rx wok mk q0 S \<Longrightarrow> sys_step ts tso tro rx wok mk S S' \<Longrightarrow>
    reachable ts tso tro rx wok mk q0 S'"

inductive_cases sys_stepE: "sys_step ts tso tro rx wok mk S S'"

section \<open>What a handler leaves alone\<close>

text \<open>
  The session and the outbound channel stay, and what is written is added to the log under this
  session.
\<close>

definition keeps :: "('c, 'q) task \<Rightarrow> ('c, 'q) task \<Rightarrow> bool" where
  "keeps t t' \<longleftrightarrow> session t' = session t \<and> outbound_tx (shared t') = outbound_tx (shared t) \<and>
     (\<exists>ws. wire t' = wire t @ ws \<and> (\<forall>w\<in>set ws. fst w = session t))"

lemma keepsI [intro]:
  "session t' = session t \<Longrightarrow> outbound_tx (shared t') = outbound_tx (shared t) \<Longrightarrow>
     wire t' = wire t \<Longrightarrow> keeps t t'"
  by (simp add: keeps_def)

lemma keeps_refl [simp]: "keeps t t"
  by (simp add: keeps_def)

lemma keeps_trans [trans]: "keeps t t' \<Longrightarrow> keeps t' t'' \<Longrightarrow> keeps t t''"
  by (auto simp: keeps_def)

lemma keeps_forward [simp]: "keeps t' (forward ts f t) = keeps t' t"
  by (simp add: keeps_def forward_def on_shared_def)

lemma outbound_forward [simp]: "outbound_tx (shared (forward ts f t)) = outbound_tx (shared t)"
  by (simp add: forward_def on_shared_def)

lemma keeps_fields [simp]:
  "keeps t' (t\<lparr>last_sent := n\<rparr>) = keeps t' t" "keeps t' (t\<lparr>last_received := n\<rparr>) = keeps t' t"
  "keeps t' (t\<lparr>hb_notified := n\<rparr>) = keeps t' t" "keeps t' (t\<lparr>parked := pk\<rparr>) = keeps t' t"
  "keeps t' (t\<lparr>overflowed_ids := ids\<rparr>) = keeps t' t" "keeps t' (t\<lparr>sub_errors := se\<rparr>) = keeps t' t"
  by (simp_all add: keeps_def)

lemma keeps_write: "keeps t (snd (write_item wok item t))"
  by (simp add: write_item_def keeps_def)

lemma keeps_fail_overflowed: "keeps t (fst (fail_overflowed ts wok now ovs t))"
proof (induction ovs arbitrary: t)
  case (Cons ov ovs)
  let ?t = "(forward ts (overflow_frame ov)
    (t\<lparr>parked := filter (\<lambda>(i, _). i \<noteq> fst ov) (parked t)\<rparr>))\<lparr>overflowed_ids := insert (fst ov) (overflowed_ids t)\<rparr>"
  have t: "keeps t ?t" by (intro keepsI) (simp_all add: forward_def on_shared_def)
  obtain ok t2 where w: "write_item wok (Frame (unsubscribe_frame (fst ov))) ?t = (ok, t2)" by fastforce
  have t2: "keeps t t2" using keeps_trans [OF t] keeps_write [of ?t] w by (metis snd_conv)
  show ?case
  proof (cases ok)
    case True
    have "keeps t2 (fst (fail_overflowed ts wok now ovs (t2\<lparr>last_sent := now\<rparr>)))"
      using Cons.IH [of "t2\<lparr>last_sent := now\<rparr>"] by (simp add: keeps_def)
    from keeps_trans [OF t2 this] show ?thesis using w True by (simp add: Let_def)
  qed (use w t2 in \<open>simp add: Let_def\<close>)
qed (simp add: keepsI)

lemma settle_receipt_outbound [simp]: "outbound_tx (settle_receipt f oc s) = outbound_tx s"
  by (simp add: settle_receipt_def split: option.split)

lemma keeps_message:
  assumes "handle_message ts wok now f t = Some (t', fl)"
  shows "keeps t t'"
proof (cases "skipped f t")
  case True
  then show ?thesis using assms by (auto simp: handle_message_def skipped_def Let_def)
next
  case False
  then obtain m lv p where
    pass: "deliver_pass ts f (scan_headers (headers f)) (subscriptions (shared t)) (message_pass t) =
      Some (m, lv, p)"
    using assms
    by (auto simp: handle_message_def skipped_def message_pass_def Let_def split: option.splits)
  obtain t2 fl2 where fo: "fail_overflowed ts wok now (ps_overflowed p) (after_pass f m lv p t) = (t2, fl2)"
    by fastforce
  have "keeps t (after_pass f m lv p t)" by (intro keepsI) (simp_all add: after_pass_def)
  then have "keeps t t2"
    using keeps_fail_overflowed [of "after_pass f m lv p t"] fo keeps_trans by (metis fst_conv)
  moreover have "t' = t2 \<or> t' = forward ts f t2"
    using assms False pass fo
    by (cases fl2) (auto simp: handle_message_def skipped_def Let_def message_pass_def after_pass_def split: if_splits)
  ultimately show ?thesis by auto
qed

lemma abandon_fields [simp]:
  "session (abandon ts f sid dest n t) = session t" "wire (abandon ts f sid dest n t) = wire t"
  "outbound_tx (shared (abandon ts f sid dest n t)) = outbound_tx (shared t)"
  by (simp_all add: abandon_def Let_def split: option.split)

lemma keeps_error: "handle_error ts f t = Some (t', fl) \<Longrightarrow> keeps t t'"
  by (auto simp: handle_error_def Let_def on_shared_def split: option.splits if_splits)

lemma keeps_frame: "handle_frame ts wok now f t = Some (t', fl) \<Longrightarrow> keeps t t'"
  using keeps_message [of ts wok now f "t\<lparr>last_received := now\<rparr>" t' fl]
    keeps_error [of ts f "t\<lparr>last_received := now\<rparr>" t' fl]
  by (auto simp: handle_frame_def handle_receipt_def Let_def on_shared_def keeps_def split: if_splits)

text \<open>A RECEIPT, or a frame of any other kind.\<close>

lemma other_frame:
  assumes "task_inv t" and "command f \<noteq> ''MESSAGE''" "command f \<noteq> ''ERROR''"
    and "handle_frame ts wok now f t = Some (t', fl)"
  shows "task_inv t'" "keeps t t'" "pending (shared t') = pending (shared t)"
    "sub_id_counter (shared t') = sub_id_counter (shared t)"
proof -
  let ?t = "t\<lparr>last_received := now\<rparr>"
  have cases: "t' = on_shared (settle_receipt f (Inr ())) ?t \<or> t' = forward ts f ?t"
    using assms(2-4) by (auto simp: handle_frame_def handle_receipt_def Let_def split: if_splits)
  then show "task_inv t'" using assms(1) task_inv_settle [of ?t] by auto
  show "keeps t t'" by (rule keeps_frame [OF assms(4)])
  show "pending (shared t') = pending (shared t)" "sub_id_counter (shared t') = sub_id_counter (shared t)"
    using cases by (auto simp: on_shared_def forward_def settle_receipt_def split: option.splits)
qed

lemma keeps_hb_tick: "handle_hb_tick wok now si t = (t', fl) \<Longrightarrow> keeps t t'"
  using keeps_write [of t wok Heartbeat]
  by (auto simp: handle_hb_tick_def keeps_def split: option.splits if_splits prod.splits bool.splits)

lemma keeps_parked: "keeps t (handle_parked ts sid t)"
  by (intro keepsI) (simp_all add: handle_parked_def on_shared_def forget_pending_def Let_def split: prod.split)

lemma pend_pairs_remove: "pend_pairs (hm_remove i p) \<subseteq> pend_pairs p"
  by (auto simp: pend_pairs_def dest: hm_remove_subset)

lemma pend_pairs_forget: "pend_pairs (pending (forget_pending sid s)) \<subseteq> pend_pairs (pending s)"
  using pend_pairs_remove by (simp add: forget_pending_def)

lemma pending_parked: "pend_pairs (pending (shared (handle_parked ts sid t))) \<subseteq> pend_pairs (pending (shared t))"
  using pend_pairs_remove
  by (simp add: handle_parked_def on_shared_def forget_pending_def Let_def split: prod.split)

lemma keeps_write_all: "keeps t (write_all wok fs t)"
proof (induction fs arbitrary: t)
  case (Cons f fs)
  show ?case
    using keeps_trans [OF keeps_write Cons.IH] by simp
qed (simp add: keepsI)

lemma keeps_begin_session: "keeps t (begin_session wok now rc t)"
proof -
  let ?m = "map (\<lambda>(d, v). (d, map discard_parked v)) (subscriptions (shared t))"
  let ?t = "t\<lparr>shared := (shared t)\<lparr>subscriptions := ?m\<rparr>, parked := prune_parked (parked t) ?m,
    last_received := now, last_sent := now\<rparr>"
  have eq: "begin_session wok now rc t = (if rc then write_all wok (resubscribe_frames ?m) ?t else ?t)"
    by (simp add: begin_session_def on_shared_def Let_def)
  have t: "keeps t ?t" by (intro keepsI) simp_all
  show ?thesis
    unfolding eq using t keeps_trans [OF t keeps_write_all, of wok "resubscribe_frames ?m"]
    by (cases rc) (simp_all only: if_True if_False)
qed

lemma pending_write_all [simp]: "pending (shared (write_all wok fs t)) = pending (shared t)"
  using write_all_quiet [of t wok fs] by (simp add: quiet_def Let_def)

lemma pending_begin_session [simp]:
  "pending (shared (begin_session wok now rc t)) = pending (shared t)"
  by (simp add: begin_session_def on_shared_def Let_def)

lemma keeps_sections:
  "keeps t (record_section f ids t)" "keeps t (sweep_section live t)" "keeps t (error_settle f t)"
  "keeps t (error_count ts f sid dest t)" "keeps t (discard_section now t)" "keeps t (replay_section wok t)"
  "keeps t (on_shared (forget_pending i) t)"
  using keeps_write_all [of t wok "resubscribe_frames (subscriptions (shared t))"]
  by (auto simp: record_section_def sweep_section_def error_settle_def error_count_def discard_section_def
      replay_section_def on_shared_def forget_pending_def Let_def split: option.split)

lemma keeps_deliver: "deliver_section ts f t = Some (t', live, ovs, d) \<Longrightarrow> keeps t t'"
  by (auto simp: deliver_section_def)

lemma keeps_drain: "drain_section ts sid t = (t', closed) \<Longrightarrow> keeps t t'"
  by (auto simp: drain_section_def on_shared_def Let_def split: prod.splits)

lemma keeps_fail: "fail_section ts wok now f ovs d t = (t', fl) \<Longrightarrow> keeps t t'"
  using keeps_fail_overflowed [of t ts wok now ovs]
  by (auto simp: fail_section_def split: prod.splits flow.splits if_splits)

text \<open>What the sections do to the pending messages.\<close>

lemma pending_sections:
  "pending (shared (error_settle f t)) = pending (shared t)"
  "pending (shared (error_count ts f sid dest t)) = pending (shared t)"
  "pending (shared (discard_section now t)) = pending (shared t)"
  "pending (shared (replay_section wok t)) = pending (shared t)"
  "pend_pairs (pending (shared (sweep_section live t))) \<subseteq> pend_pairs (pending (shared t))"
  by (auto simp: error_settle_def error_count_def discard_section_def replay_section_def sweep_section_def
      on_shared_def forward_def abandon_def sweep_pending_def pend_pairs_def Let_def split: option.split)

lemma pending_drain: "drain_section ts sid t = (t', closed) \<Longrightarrow> pending (shared t') = pending (shared t)"
  by (auto simp: drain_section_def on_shared_def Let_def split: prod.splits)

lemma pending_fail:
  assumes "fail_section ts wok now f ovs d t = (t', fl)"
  shows "pending (shared t') = pending (shared t)" "sub_id_counter (shared t') = sub_id_counter (shared t)"
proof -
  obtain t2 fl2 where fo: "fail_overflowed ts wok now ovs t = (t2, fl2)" by fastforce
  have "t' = t2 \<or> t' = forward ts f t2"
    using assms fo by (auto simp: fail_section_def split: flow.splits if_splits)
  then show "pending (shared t') = pending (shared t)" "sub_id_counter (shared t') = sub_id_counter (shared t)"
    using fail_overflowed_result [OF fo] by (auto simp: quiet_def forward_def on_shared_def Let_def)
qed

lemma handle_outbound_cases:
  assumes "handle_outbound wok now out t = (t', fl)"
  obtains (Stale) "writable_in out (session t) = None" "t' = t" "fl = Continue"
  | (Unwritten) item where "writable_in out (session t) = Some item" "fl = BreakConn"
      "session t' = session t" "outbound_tx (shared t') = outbound_tx (shared t)" "wire t' = wire t"
      "pend_pairs (pending (shared t')) \<subseteq> pend_pairs (pending (shared t))"
  | (Written) item where "writable_in out (session t) = Some item" "fl = Continue"
      "session t' = session t" "outbound_tx (shared t') = outbound_tx (shared t)"
      "wire t' = wire t @ [(session t, item)]"
      "pend_pairs (pending (shared t')) \<subseteq> pend_pairs (pending (shared t))"
proof (cases "writable_in out (session t)")
  case None
  then show ?thesis using assms by (intro Stale) (simp_all add: handle_outbound_def)
next
  case (Some item)
  let ?t = "case item of
      Frame f \<Rightarrow> if command f = ''UNSUBSCRIBE'' then
        (case get_header f ''id'' of Some i \<Rightarrow> on_shared (forget_pending i) t | None \<Rightarrow> t) else t
    | Heartbeat \<Rightarrow> t"
  have t: "session ?t = session t" "outbound_tx (shared ?t) = outbound_tx (shared t)" "wire ?t = wire t"
    "pend_pairs (pending (shared ?t)) \<subseteq> pend_pairs (pending (shared t))"
    using pend_pairs_remove
    by (simp_all add: on_shared_def forget_pending_def split: stomp_item.split option.split)
  have eq: "handle_outbound wok now out t =
      (case write_item wok item ?t of
         (False, t) \<Rightarrow> (t, BreakConn) | (True, t) \<Rightarrow> (t\<lparr>last_sent := now\<rparr>, Continue))"
    using Some by (simp add: handle_outbound_def Let_def)
  show ?thesis
  proof (cases "wok (wire ?t) item")
    case True
    then show ?thesis
      using assms t unfolding eq
      by (intro Written [OF Some]) (auto simp: write_item_def)
  next
    case False
    then show ?thesis
      using assms t unfolding eq
      by (intro Unwritten [OF Some]) (auto simp: write_item_def)
  qed
qed

section \<open>The invariant of the system\<close>

text \<open>
  An acknowledgement on its way is known: it answers a message once recorded for that
  subscription, by the id the broker gave it, and is tagged with that message's session.
\<close>

definition ack_known :: "(string \<times> pending_message) set \<Rightarrow> outbound \<Rightarrow> bool" where
  "ack_known rec out \<longleftrightarrow>
     (case out of
        Item _ \<Rightarrow> True
      | AckOut f n \<Rightarrow> \<exists>cmd sid pm. (sid, pm) \<in> rec \<and> pm_session pm = n \<and>
          f = ack_frame_of cmd (pm_ack_id pm) sid)"

definition sys_inv :: "('q \<Rightarrow> outbound list) \<Rightarrow> ('c, 'q) sys \<Rightarrow> bool" where
  "sys_inv out_queued S \<longleftrightarrow>
     task_inv (tk S) \<and> pend_pairs (pending (shared (tk S))) \<subseteq> recorded S \<and>
     (\<forall>out\<in>set (inflight S) \<union> set (out_queued (outbound_tx (shared (tk S)))). ack_known (recorded S) out) \<and>
     (\<forall>(n, f)\<in>acked S. ack_known (recorded S) (AckOut f n) \<and> (n, Frame f) \<in> set (wire (tk S)))"

lemma ack_known_mono: "ack_known r out \<Longrightarrow> r \<subseteq> r' \<Longrightarrow> ack_known r' out"
  unfolding ack_known_def by (cases out) auto

lemma sys_invD:
  assumes "sys_inv oq S"
  shows "task_inv (tk S)" "pend_pairs (pending (shared (tk S))) \<subseteq> recorded S"
  using assms by (simp_all add: sys_inv_def)

lemma sys_inv_logs [simp]:
  "sys_inv oq (S\<lparr>got := g\<rparr>) = sys_inv oq S" "sys_inv oq (S\<lparr>offered := o'\<rparr>) = sys_inv oq S"
  "sys_inv oq (S\<lparr>cancelled := c\<rparr>) = sys_inv oq S"
  by (simp_all add: sys_inv_def)

text \<open>A step of the task that sends nothing through the channel and records nothing new.\<close>

lemma sys_inv_task:
  assumes "sys_inv oq S" and "task_inv t" and "keeps (tk S) t"
    and "pend_pairs (pending (shared t)) \<subseteq> recorded S \<union> new"
  shows "sys_inv oq (S\<lparr>tk := t, phase := ph, recorded := recorded S \<union> new\<rparr>)"
  using assms ack_known_mono [of "recorded S" _ "recorded S \<union> new"]
  by (fastforce simp: sys_inv_def keeps_def)

lemma sys_inv_quiet:
  assumes "sys_inv oq S" and "task_inv t" and "keeps (tk S) t"
    and "pend_pairs (pending (shared t)) \<subseteq> pend_pairs (pending (shared (tk S)))"
  shows "sys_inv oq (S\<lparr>tk := t, phase := ph\<rparr>)" "sys_inv oq (S\<lparr>tk := t\<rparr>)"
proof -
  have "pend_pairs (pending (shared t)) \<subseteq> recorded S \<union> {}"
    using assms(4) sys_invD(2) [OF assms(1)] by blast
  from sys_inv_task [OF assms(1-3) this, of ph] sys_inv_task [OF assms(1-3) this, of "phase S"]
  show "sys_inv oq (S\<lparr>tk := t, phase := ph\<rparr>)" "sys_inv oq (S\<lparr>tk := t\<rparr>)"
    by (simp_all add: sys_inv_def)
qed

text \<open>A critical section of the client: the shared state changes, and sends may start.\<close>

lemma sys_inv_client:
  assumes "sys_inv oq S" and "task_inv ((tk S)\<lparr>shared := s\<rparr>)"
    and "outbound_tx s = outbound_tx (shared (tk S))"
    and "pend_pairs (pending s) \<subseteq> pend_pairs (pending (shared (tk S)))"
    and "\<forall>out\<in>set new. ack_known (recorded S) out"
  shows "sys_inv oq ((with_shared S s)\<lparr>inflight := inflight S @ new\<rparr>)" "sys_inv oq (with_shared S s)"
  using assms by (auto simp: sys_inv_def with_shared_def)

section \<open>Ids between the sections of a handler\<close>

text \<open>
  Everything recorded is recorded under an id the registry has handed out. Between the delivery
  pass and the sweep, a subscription that is registered and has pending messages is one the pass
  saw; the subscriptions to be failed stay out of the registry.
\<close>

definition ids_of :: "pending_map \<Rightarrow> string set" where
  "ids_of p = fst ` set p"

definition pend_ids :: "('c, 'q) task \<Rightarrow> string set" where
  "pend_ids t = ids_of (pending (shared t))"

lemma ids_of_remove: "ids_of (hm_remove i p) \<subseteq> ids_of p"
  by (auto simp: ids_of_def dest: hm_remove_subset)

lemma ids_of_insert: "ids_of (hm_insert i q p) = insert i (ids_of p)"
  by (simp add: ids_of_def dom_update)

fun phase_inv :: "phase \<Rightarrow> ('c, 'q) task \<Rightarrow> bool" where
  "phase_inv (Collecting f need) t \<longleftrightarrow>
     (need \<longrightarrow> (\<forall>sid. mh_sub (msg_of f) = Some sid \<longrightarrow> sid \<in> old_ids t))"
| "phase_inv (Recording f ids) t \<longleftrightarrow> set ids \<subseteq> old_ids t"
| "phase_inv (Sweeping f live ovs d) t \<longleftrightarrow>
     gone ovs t \<and> (\<forall>ids. live = Some ids \<longrightarrow> live_sub_ids t \<inter> pend_ids t \<subseteq> ids)"
| "phase_inv (Failing f ovs d) t \<longleftrightarrow> gone ovs t"
| "phase_inv _ t \<longleftrightarrow> True"

definition ids_inv :: "('c, 'q) sys \<Rightarrow> bool" where
  "ids_inv S \<longleftrightarrow> pend_ids (tk S) \<subseteq> old_ids (tk S) \<and> phase_inv (phase S) (tk S)"

text \<open>What the rest of the program may do to the ids: forget some, and register fresh ones.\<close>

definition ids_change :: "('c, 'q) task \<Rightarrow> ('c, 'q) task \<Rightarrow> bool" where
  "ids_change t t' \<longleftrightarrow>
     old_ids t \<subseteq> old_ids t' \<and> live_sub_ids t' - live_sub_ids t \<subseteq> old_ids t' - old_ids t \<and>
     pend_ids t' \<subseteq> pend_ids t"

lemma ids_changeI:
  assumes "sub_id_counter (shared t') = sub_id_counter (shared t)"
    and "live_sub_ids t' \<subseteq> live_sub_ids t" and "pend_ids t' \<subseteq> pend_ids t"
  shows "ids_change t t'"
  using assms by (auto simp: ids_change_def old_ids_def)

lemma ids_inv_change:
  assumes "ids_inv S" and "ids_change (tk S) t'" and "tk S' = t'" and "phase S' = phase S"
  shows "ids_inv S'"
proof -
  have ch: "old_ids (tk S) \<subseteq> old_ids t'" "live_sub_ids t' - live_sub_ids (tk S) \<subseteq> old_ids t' - old_ids (tk S)"
    "pend_ids t' \<subseteq> pend_ids (tk S)"
    using assms(2) by (simp_all add: ids_change_def)
  have inv: "pend_ids (tk S) \<subseteq> old_ids (tk S)" "phase_inv (phase S) (tk S)"
    using assms(1) by (simp_all add: ids_inv_def)
  have gone: "gone ovs t'" if "gone ovs (tk S)" for ovs
    using that ch(1,2) unfolding gone_def by blast
  have "phase_inv (phase S) t'"
  proof (cases "phase S")
    case (Sweeping f live ovs d)
    then have "gone ovs (tk S)" "live = Some ids \<Longrightarrow> live_sub_ids (tk S) \<inter> pend_ids (tk S) \<subseteq> ids" for ids
      using inv(2) by simp_all
    moreover have "live_sub_ids t' \<inter> pend_ids t' \<subseteq> live_sub_ids (tk S) \<inter> pend_ids (tk S)"
      using ch inv(1) by blast
    ultimately show ?thesis using gone Sweeping by (simp del: Int_subset_iff) blast
  qed (use inv(2) ch(1) gone in \<open>auto\<close>)
  moreover have "pend_ids t' \<subseteq> old_ids t'" using ch inv(1) by blast
  ultimately show ?thesis using assms(3,4) by (simp add: ids_inv_def)
qed

text \<open>A step of the task hands out no id, and records under none.\<close>

definition keeps_ids :: "('c, 'q) task \<Rightarrow> ('c, 'q) task \<Rightarrow> bool" where
  "keeps_ids t t' \<longleftrightarrow>
     sub_id_counter (shared t') = sub_id_counter (shared t) \<and> pend_ids t' \<subseteq> pend_ids t"

lemma ids_inv_task:
  assumes "ids_inv S" and "keeps_ids (tk S) t'" and "tk S' = t'" and "phase_inv (phase S') t'"
  shows "ids_inv S'"
  using assms by (auto simp: ids_inv_def old_ids_def keeps_ids_def)

lemma keeps_idsI:
  "sub_id_counter (shared t') = sub_id_counter (shared t) \<Longrightarrow> pending (shared t') = pending (shared t) \<Longrightarrow>
     keeps_ids t t'"
  by (simp add: keeps_ids_def pend_ids_def)

lemma pend_ids_forget: "pend_ids (on_shared (forget_pending i) t) \<subseteq> pend_ids t"
  by (simp add: pend_ids_def on_shared_def forget_pending_def ids_of_remove)

lemma ids_of_push: "ids_of (push_pending pm i p) = insert i (ids_of p)"
  by (simp add: push_pending_def ids_of_insert)

lemma pend_ids_record: "pend_ids (record_section f ids t) \<subseteq> pend_ids t \<union> set ids"
proof -
  have "ids_of (foldl (\<lambda>p i. push_pending (pending_message_new a mid f sess) i p) p ids) = ids_of p \<union> set ids"
    for a mid sess p
    by (induction ids arbitrary: p) (auto simp: ids_of_push)
  then show ?thesis
    by (auto simp: pend_ids_def record_section_def on_shared_def record_ids_def split: option.splits)
qed

lemma pend_ids_sweep: "pend_ids (sweep_section live t) \<subseteq> pend_ids t"
  by (auto simp: pend_ids_def ids_of_def sweep_section_def on_shared_def sweep_pending_def split: option.split)

lemma need_registered:
  assumes "task_inv t" and "need_pending (msg_of f) (subscriptions (shared t))"
    and "mh_sub (msg_of f) = Some sid"
  shows "sid \<in> old_ids t"
proof -
  have "sid \<in> live_sub_ids t"
    using assms(2,3) by (auto simp: need_pending_def list_ex_iff live_sub_ids_def)
  then show ?thesis using live_old [OF assms(1)] by blast
qed

lemma collected_old:
  assumes "task_inv t" and "phase_inv (Collecting f need) t"
  shows "set (collect_ids f need (subscriptions (shared t))) \<subseteq> old_ids t"
proof -
  have "set (map sub_id (filter P (unwrap_or [] (hm_get (subscriptions (shared t)) d)))) \<subseteq> live_sub_ids t" for P d
    by (cases "hm_get (subscriptions (shared t)) d") (force simp: live_sub_ids_def entries_def dest: map_of_SomeD)+
  then show ?thesis
    using assms(2) live_old [OF assms(1)]
    by (fastforce simp: collect_ids_def pending_targets_def split: option.splits if_splits)
qed

lemma pend_ids_settle:
  assumes "settle_pending mode sid i (pending (shared t)) = (found, p)"
  shows "pend_ids (t\<lparr>shared := (shared t)\<lparr>pending := p\<rparr>\<rparr>) \<subseteq> pend_ids t"
proof (cases "hm_get (pending (shared t)) sid")
  case None
  then show ?thesis using assms by (auto simp: settle_pending_def pend_ids_def)
next
  case (Some q)
  then have "sid \<in> ids_of (pending (shared t))" by (force simp: ids_of_def dest: map_of_SomeD)
  then show ?thesis
    using assms Some ids_of_remove [of sid "pending (shared t)"]
    by (cases "settle_queue mode i q") (auto simp: settle_pending_def pend_ids_def ids_of_insert split: if_splits)
qed

lemma keeps_ids_outbound:
  assumes "handle_outbound wok now out t = (t', fl)"
  shows "keeps_ids t t'"
proof (cases "writable_in out (session t)")
  case None
  then show ?thesis using assms by (simp add: handle_outbound_def keeps_ids_def)
next
  case (Some item)
  show ?thesis
    using assms Some ids_of_remove [THEN subsetD, of _ _ "pending (shared t)"]
    by (cases item)
      (auto simp: handle_outbound_def keeps_ids_def write_item_def Let_def on_shared_def forget_pending_def
        pend_ids_def split: option.splits if_splits)
qed

lemma keeps_ids_forget: "keeps_ids t (on_shared (forget_pending i) t)"
  by (simp add: keeps_ids_def pend_ids_forget) (simp add: on_shared_def forget_pending_def)

lemma keeps_ids_handlers:
  "keeps_ids t (error_settle f (t\<lparr>last_received := now\<rparr>))" "keeps_ids t (error_count ts f sid dest t)"
  "keeps_ids t (discard_section now t)" "keeps_ids t (replay_section wok t)" "keeps_ids t (loop_top t)"
  "keeps_ids t (handle_heartbeat notify now t)" "keeps_ids t (failed_attempt t)" "keeps_ids t (end_task t)"
  using write_all_quiet [of t wok "resubscribe_frames (subscriptions (shared t))"]
  by (auto simp: error_settle_def settle_receipt_def error_count_def abandon_def
      forward_def discard_section_def replay_section_def loop_top_def handle_heartbeat_def failed_attempt_def
      end_task_def on_shared_def quiet_def Let_def intro!: keeps_idsI split: option.split)

lemma keeps_ids_fewer: "keeps_ids t (end_session lasted t)" "keeps_ids t (sweep_section live t)"
  by (simp_all add: keeps_ids_def pend_ids_sweep)
    (simp_all add: end_session_def sweep_section_def on_shared_def pend_ids_def ids_of_def)

lemma keeps_ids_drain: "drain_section ts sid t = (t', closed) \<Longrightarrow> keeps_ids t t'"
  by (auto simp: drain_section_def keeps_ids_def pend_ids_def on_shared_def Let_def split: prod.splits)

lemma keeps_ids_hb_tick: "handle_hb_tick wok now si t = (t', fl) \<Longrightarrow> keeps_ids t t'"
  by (auto simp: handle_hb_tick_def keeps_ids_def pend_ids_def write_item_def split: option.splits if_splits)

text \<open>The ids a critical section of a handle leaves registered and pending.\<close>

lemma ids_change_register:
  assumes inv: "task_inv t" and reg: "register mk d a hs cap lim (shared t) = (e, s')"
  shows "ids_change t (t\<lparr>shared := s'\<rparr>)"
proof -
  have r: "reg_inv (shared t)" using inv by (simp add: task_inv_def)
  have ents: "set (entries (subscriptions s')) = insert e (set (entries (subscriptions (shared t))))"
    using register_inv(2) [OF r reg] by (metis set_mset_add_mset_insert set_mset_mset)
  have s': "sub_id e = show_nat (sub_id_counter (shared t))" "sub_id_counter s' = Suc (sub_id_counter (shared t))"
    "pending s' = pending (shared t)"
    using reg by (auto simp: register_def Let_def)
  have "sub_id e \<notin> old_ids t" "sub_id e \<in> old_ids (t\<lparr>shared := s'\<rparr>)" "old_ids t \<subseteq> old_ids (t\<lparr>shared := s'\<rparr>)"
    using show_nat_inj by (auto simp: old_ids_def s' less_Suc_eq)
  then show ?thesis by (auto simp: ids_change_def live_sub_ids_def ents pend_ids_def s'(3))
qed

lemma ids_change_deregister:
  assumes "task_inv t"
  shows "ids_change t (t\<lparr>shared := snd (deregister sid (shared t))\<rparr>)"
proof -
  have "reg_inv (shared t)" using assms by (simp add: task_inv_def)
  then show ?thesis
    by (intro ids_changeI) (auto simp: deregister_eq live_sub_ids_def pend_ids_def)
qed

lemma ids_change_pending:
  assumes "ids_of (pending s) \<subseteq> pend_ids t" and "sub_id_counter s = sub_id_counter (shared t)"
    and "subscriptions s = subscriptions (shared t)"
  shows "ids_change t (t\<lparr>shared := s\<rparr>)"
  using assms by (intro ids_changeI) (auto simp: live_sub_ids_def pend_ids_def)

lemma ids_change_forget: "ids_change t (t\<lparr>shared := forget_pending sid (shared t)\<rparr>)"
  using ids_of_remove [of sid "pending (shared t)"]
  by (intro ids_changeI) (simp_all add: live_sub_ids_def pend_ids_def forget_pending_def)

lemma ids_change_trans: "ids_change t t' \<Longrightarrow> ids_change t' t'' \<Longrightarrow> ids_change t t''"
  unfolding ids_change_def by blast

lemma ids_change_refl: "ids_change t t"
  by (simp add: ids_change_def)

lemma ids_change_best_effort:
  assumes "task_inv t"
  shows "ids_change t (t\<lparr>shared := unsubscribe_best_effort tso a b sid (shared t)\<rparr>)"
proof -
  let ?s1 = "if a then snd (deregister sid (shared t)) else shared t"
  let ?s2 = "if b then forget_pending sid ?s1 else ?s1"
  have 1: "ids_change t (t\<lparr>shared := ?s1\<rparr>)"
    using ids_change_deregister [OF assms] by (simp add: ids_change_refl)
  have "ids_change (t\<lparr>shared := ?s1\<rparr>) (t\<lparr>shared := ?s2\<rparr>)"
    using ids_change_forget [of "t\<lparr>shared := ?s1\<rparr>" sid] by (simp add: ids_change_refl)
  moreover have "ids_change (t\<lparr>shared := ?s2\<rparr>) (t\<lparr>shared := unsubscribe_best_effort tso a b sid (shared t)\<rparr>)"
  proof -
    define s2 where "s2 = ?s2"
    have "unsubscribe_best_effort tso a b sid (shared t) =
        s2\<lparr>outbound_tx := snd (tso (outbound_tx s2) (Item (Frame (unsubscribe_frame sid))))\<rparr>"
      using assms
      by (simp add: s2_def unsubscribe_best_effort_def deregister_eq task_inv_def Let_def)
    then show ?thesis
      by (simp flip: s2_def) (intro ids_changeI; simp add: live_sub_ids_def pend_ids_def)
  qed
  ultimately show ?thesis using 1 ids_change_trans by blast
qed

text \<open>
  The channels of a connection together: those that carry frames, and the outbound channel, with
  their receiving sides, which take the oldest item.
\<close>

locale connection_channels =
  frame_channel ts queued rx_closed + sending: outbound_channel tso out_queued task_gone
  for ts :: "'c \<Rightarrow> frame \<Rightarrow> frame try_send_result \<times> 'c"
    and queued :: "'c \<Rightarrow> frame list"
    and rx_closed :: "'c \<Rightarrow> bool"
    and tso :: "'q \<Rightarrow> outbound \<Rightarrow> outbound try_send_result \<times> 'q"
    and out_queued :: "'q \<Rightarrow> outbound list"
    and task_gone :: "'q \<Rightarrow> bool" +
  fixes tro :: "'q \<Rightarrow> (outbound \<times> 'q) option"
    and rx :: "'c \<Rightarrow> frame option \<Rightarrow> 'c \<Rightarrow> bool"
  assumes tro_Some: "tro q = Some (out, q') \<Longrightarrow> out_queued q = out # out_queued q'"
    and rx_Some: "rx c (Some f) c' \<Longrightarrow> queued c = f # queued c' \<and> rx_closed c' = rx_closed c"
    and rx_None: "rx c None c' \<Longrightarrow> rx_closed c'"
begin

lemma sends_queued:
  assumes "tso q out = (res, q')"
  shows "set (out_queued q') \<subseteq> insert out (set (out_queued q))"
  by (rule sending.ts_cases [of q out]) (use assms in auto)

lemma sys_inv_outbound:
  assumes inv: "sys_inv out_queued S" and recv: "tro (outbound_tx (shared (tk S))) = Some (out, q)"
    and step: "handle_outbound wok now out ((tk S)\<lparr>shared := (shared (tk S))\<lparr>outbound_tx := q\<rparr>\<rparr>) = (t, fl)"
  shows "sys_inv out_queued
    (S\<lparr>tk := t, phase := after_flow fl, acked := acked S \<union> ack_written out (tk S) t\<rparr>)"
proof -
  let ?t = "(tk S)\<lparr>shared := (shared (tk S))\<lparr>outbound_tx := q\<rparr>\<rparr>"
  note tro_Some [OF recv]
  then have known: "ack_known (recorded S) out" "\<forall>x\<in>set (out_queued q). ack_known (recorded S) x"
    using inv by (simp_all add: sys_inv_def)
  have t: "task_inv t"
    by (rule task_inv_outbound [OF task_inv_sent step]) (rule sys_invD(1) [OF inv])
  show ?thesis
    using step
  proof (cases rule: handle_outbound_cases)
    case Stale
    then show ?thesis
      using inv t known by (auto simp: sys_inv_def ack_written_def split: outbound.split)
  next
    case (Unwritten item)
    then show ?thesis
      using inv t known by (auto simp: sys_inv_def ack_written_def split: outbound.split)
  next
    case (Written item)
    then show ?thesis
      using inv t known
      by (auto simp: sys_inv_def ack_written_def writable_in_def split: outbound.splits if_splits)
  qed
qed

lemma sys_inv_best_effort:
  assumes inv: "sys_inv out_queued S"
  shows "sys_inv out_queued (with_shared S (unsubscribe_best_effort tso a b sid (shared (tk S))))"
proof -
  let ?s = "shared (tk S)" and ?item = "Item (Frame (unsubscribe_frame sid))"
  let ?s' = "unsubscribe_best_effort tso a b sid ?s"
  have "task_inv ((tk S)\<lparr>shared := ?s'\<rparr>)"
    using task_inv_best_effort [OF sys_invD(1) [OF inv], of tso a b sid] by (simp add: on_shared_def)
  moreover have "pend_pairs (pending ?s') \<subseteq> pend_pairs (pending ?s)"
    using pend_pairs_remove by (simp add: unsubscribe_best_effort_def forget_pending_def Let_def)
  moreover have "outbound_tx ?s' = snd (tso (outbound_tx ?s) ?item)"
    by (simp add: unsubscribe_best_effort_def forget_pending_def Let_def)
  then have "set (out_queued (outbound_tx ?s')) \<subseteq> insert ?item (set (out_queued (outbound_tx ?s)))"
    using sends_queued [of "outbound_tx ?s" ?item] by (metis prod.collapse)
  ultimately show ?thesis
    using inv by (auto simp: sys_inv_def with_shared_def ack_known_def)
qed

lemma sys_inv_enqueue:
  assumes inv: "sys_inv out_queued S" and fl: "inflight S = xs @ out # ys"
    and sent: "tso (outbound_tx (shared (tk S))) out = (Sent, q)"
  shows "sys_inv out_queued
    ((with_shared S ((shared (tk S))\<lparr>outbound_tx := q\<rparr>))\<lparr>inflight := xs @ ys\<rparr>)"
  using inv sends_queued [OF sent] fl task_inv_sent [OF sys_invD(1) [OF inv], of q]
  by (auto simp: sys_inv_def with_shared_def)

lemma sys_inv_settle:
  assumes inv: "sys_inv oq S"
    and settle: "settle_pending mode sid i (pending (shared (tk S))) = (Some m, p)"
  shows "sys_inv oq ((with_shared S ((shared (tk S))\<lparr>pending := p\<rparr>))\<lparr>inflight :=
    inflight S @ [AckOut (ack_frame_of cmd (pm_ack_id m) sid) (pm_session m)]\<rparr>)"
proof (rule sys_inv_client(1) [OF inv])
  show "task_inv ((tk S)\<lparr>shared := (shared (tk S))\<lparr>pending := p\<rparr>\<rparr>)"
    by (rule task_inv_settled [OF sys_invD(1) [OF inv] settle])
  obtain q q' where q: "hm_get (pending (shared (tk S))) sid = Some q" "settle_queue mode i q = Some (m, q')"
    "p = (if q' = [] then hm_remove sid (pending (shared (tk S))) else hm_insert sid q' (pending (shared (tk S))))"
    using settle by (auto simp: settle_pending_def split: option.splits)
  have mem: "(sid, q) \<in> set (pending (shared (tk S)))" by (rule map_of_SomeD [OF q(1)])
  have sub: "m \<in> set q" "set q' \<subseteq> set q"
    using settle_queue_SomeD [OF q(2)] by (auto split: if_splits)
  show "pend_pairs (pending ((shared (tk S))\<lparr>pending := p\<rparr>)) \<subseteq> pend_pairs (pending (shared (tk S)))"
    using q(3) sub(2) mem
    by (auto simp: pend_pairs_def dest!: hm_remove_subset set_hm_insertD split: if_splits)
  have "(sid, m) \<in> recorded S"
    using mem sub(1) sys_invD(2) [OF inv] by (auto simp: pend_pairs_def)
  then show "\<forall>out\<in>set [AckOut (ack_frame_of cmd (pm_ack_id m) sid) (pm_session m)]. ack_known (recorded S) out"
    by (auto simp: ack_known_def)
qed simp

lemma sys_inv_step:
  assumes inv: "sys_inv out_queued S" and ids: "ids_inv S" and step: "sys_step ts tso tro rx wok mk S S'"
    and T: "task_inv (tk S)"
  shows "sys_inv out_queued S'"
  using step
proof cases
  case (Register d a hs cap lim e s)
  have s: "s = snd (register mk d a hs cap lim (shared (tk S)))" using Register by simp
  show ?thesis
    unfolding Register(1)
  proof (rule sys_inv_client(1) [OF inv])
    show "task_inv ((tk S)\<lparr>shared := s\<rparr>)"
      using task_inv_register [OF sys_invD(1) [OF inv], of mk d a hs cap lim] by (simp add: on_shared_def s)
  qed (simp_all add: s register_def Let_def ack_known_def)
next
  case (Deregister sid)
  have reg: "reg_inv (shared (tk S))" using sys_invD(1) [OF inv] by (simp add: task_inv_def)
  show ?thesis
    unfolding Deregister
  proof (rule sys_inv_client(2) [OF inv, where new = "[]"])
    show "task_inv ((tk S)\<lparr>shared := snd (deregister sid (shared (tk S)))\<rparr>)"
      using task_inv_deregister [OF sys_invD(1) [OF inv], of sid] by (simp add: on_shared_def)
  qed (simp_all add: deregister_eq [OF reg])
next
  case (Forget sid)
  show ?thesis
    unfolding Forget
  proof (rule sys_inv_client(2) [OF inv, where new = "[]"])
    show "task_inv ((tk S)\<lparr>shared := forget_pending sid (shared (tk S))\<rparr>)"
      using task_inv_forget [OF sys_invD(1) [OF inv], of sid] by (simp add: on_shared_def)
  qed (simp_all add: pend_pairs_forget, simp_all add: forget_pending_def)
next
  case AskReceipt
  have "receipts_inv (registered (shared (tk S)))"
    using sys_invD(1) [OF inv] by (intro receipts_inv_registered) (simp add: task_inv_def)
  then have "task_inv ((tk S)\<lparr>shared := registered (shared (tk S))\<rparr>)"
    using sys_invD(1) [OF inv]
    by (intro task_inv_shared) (simp_all add: registered_def task_inv_def pend_inv_def)
  then show ?thesis
    unfolding AskReceipt by (intro sys_inv_client(2) [OF inv, where new = "[]"]) (simp_all add: registered_def)
next
  case (DropReceipt rid)
  let ?s = "(shared (tk S))\<lparr>pending_receipts := hm_remove rid (pending_receipts (shared (tk S)))\<rparr>"
  have "receipts_inv ?s"
    using sys_invD(1) [OF inv] by (intro receipts_inv_remove) (simp add: task_inv_def)
  then have "task_inv ((tk S)\<lparr>shared := ?s\<rparr>)"
    using sys_invD(1) [OF inv] by (intro task_inv_shared) (simp_all add: task_inv_def pend_inv_def)
  then show ?thesis
    unfolding DropReceipt by (intro sys_inv_client(2) [OF inv, where new = "[]"]) simp_all
next
  case (Inbound f now t fl)
  note fr = other_frame [OF T Inbound(3-5)]
  show ?thesis
    unfolding Inbound(1) by (rule sys_inv_quiet(1) [OF inv fr(1,2)]) (simp add: fr(3))
next
  case (Arrive f now)
  show ?thesis unfolding Arrive(1) by (rule sys_inv_quiet(1) [OF inv]) (simp_all add: T)
next
  case (Skip f now)
  show ?thesis unfolding Skip(1) by (rule sys_inv_quiet(2) [OF inv]) (simp_all add: T)
next
  case (Record f ids t)
  show ?thesis
    unfolding Record(1)
    by (rule sys_inv_task [OF inv]) (use task_inv_record [OF T] keeps_sections(1) in \<open>auto simp: Record(3)\<close>)
next
  case (Deliver f t live ovs delivered)
  obtain t' live' ovs' d' where
    res: "deliver_section ts f (tk S) = Some (t', live', ovs', d')" "task_inv t'"
      "pending (shared t') = pending (shared (tk S))"
    by (rule deliver_section_result [OF T Deliver(3)])
  then show ?thesis
    using Deliver(4) unfolding Deliver(1) sys_inv_logs
    by (intro sys_inv_quiet(1) [OF inv _ keeps_deliver [OF Deliver(4)]]) simp_all
next
  case (Sweep f live ovs delivered)
  show ?thesis
    unfolding Sweep(1)
    by (rule sys_inv_quiet(1) [OF inv task_inv_sweep [OF T] keeps_sections(2) pending_sections(5)])
next
  case (Fail f ovs delivered now t fl)
  have "gone ovs (tk S)" using ids Fail(2) by (simp add: ids_inv_def)
  then show ?thesis
    unfolding Fail(1)
    by (intro sys_inv_quiet(1) [OF inv task_inv_fail [OF T _ Fail(3)] keeps_fail [OF Fail(3)]])
      (simp_all add: pending_fail [OF Fail(3)])
next
  case (Refused f sid t now)
  show ?thesis
    unfolding Refused(1)
    by (rule sys_inv_quiet(1) [OF inv])
      (use keeps_sections(3) [of "(tk S)\<lparr>last_received := now\<rparr>" f] in
        \<open>simp_all add: Refused(5) T task_inv_error_settle pending_sections keeps_def\<close>)
next
  case (Panic f now)
  show ?thesis
    unfolding Panic(1)
    by (rule sys_inv_quiet(1) [OF inv])
      (use keeps_sections(3) [of "(tk S)\<lparr>last_received := now\<rparr>" f] in
        \<open>simp_all add: T task_inv_error_settle pending_sections keeps_def\<close>)
next
  case (Count f sid dest)
  show ?thesis
    unfolding Count(1)
    by (rule sys_inv_quiet(1) [OF inv task_inv_error_count [OF T] keeps_sections(4)])
      (simp add: pending_sections)
next
  case (Tick now si t fl)
  have "pending (shared t) = pending (shared (tk S))"
    using Tick(3) by (auto simp: handle_hb_tick_def write_item_def split: option.splits if_splits)
  then show ?thesis
    unfolding Tick(1)
    by (intro sys_inv_quiet(1) [OF inv])
      (simp_all add: task_inv_hb_tick [OF sys_invD(1) [OF inv] Tick(3)] keeps_hb_tick [OF Tick(3)])
next
  case (Parked sid t closed)
  show ?thesis
    unfolding Parked(1)
    by (rule sys_inv_quiet(1) [OF inv task_inv_drain [OF T Parked(4)] keeps_drain [OF Parked(4)]])
      (simp add: pending_drain [OF Parked(4)])
next
  case (Clear sid)
  show ?thesis
    unfolding Clear(1)
    by (rule sys_inv_quiet(1) [OF inv task_inv_forget [OF T] keeps_sections(7)])
      (simp add: on_shared_def pend_pairs_forget)
next
  case (Start now)
  show ?thesis
    unfolding Start(1) sys_inv_logs
    by (rule sys_inv_quiet(1) [OF inv task_inv_discard [OF T] keeps_sections(5)]) (simp add: pending_sections)
next
  case (Reconnected now)
  show ?thesis
    unfolding Reconnected(1) sys_inv_logs
    by (rule sys_inv_quiet(1) [OF inv task_inv_discard [OF T] keeps_sections(5)]) (simp add: pending_sections)
next
  case Replay
  show ?thesis
    unfolding Replay(1)
    by (rule sys_inv_quiet(1) [OF inv task_inv_replay [OF T] keeps_sections(6)]) (simp add: pending_sections)
next
  case (Outbound out q now t fl)
  show ?thesis unfolding Outbound(1) by (rule sys_inv_outbound [OF inv Outbound(3,4)])
next
  case (SessionOver lasted)
  show ?thesis
    using inv task_inv_end_session [OF sys_invD(1) [OF inv], of lasted]
    unfolding SessionOver(1) by (simp add: sys_inv_def end_session_def on_shared_def pend_pairs_def)
next
  case AttemptFailed
  show ?thesis
    using inv task_inv_failed_attempt [OF sys_invD(1) [OF inv]]
    unfolding AttemptFailed(1) by (simp add: sys_inv_def failed_attempt_def)
next
  case Shutdown
  show ?thesis
    using inv task_inv_end_task [OF sys_invD(1) [OF inv]]
    unfolding Shutdown(1) by (simp add: sys_inv_def end_task_def on_shared_def)
next
  case LoopTop
  show ?thesis
    using inv task_inv_loop_top [OF sys_invD(1) [OF inv]]
    unfolding LoopTop(1) by (simp add: sys_inv_def loop_top_def split: if_splits)
next
  case (BrokerBeat notify now)
  show ?thesis
    using inv unfolding BrokerBeat(1) by (simp add: sys_inv_def handle_heartbeat_def Let_def)
next
  case (BestEffort a b sid)
  show ?thesis unfolding BestEffort by (rule sys_inv_best_effort [OF inv])
next
  case (Settle mode sid i m p cmd)
  show ?thesis unfolding Settle(1) by (rule sys_inv_settle [OF inv Settle(2)])
next
  case (Enqueue xs out ys q)
  show ?thesis unfolding Enqueue(1) by (rule sys_inv_enqueue [OF inv Enqueue(2,3)])
next
  case (Receive a f c)
  show ?thesis using inv unfolding Receive(1) by (simp add: sys_inv_def with_shared_def)
next
  case (DropReceiver a c)
  show ?thesis using inv unfolding DropReceiver(1) by (simp add: sys_inv_def with_shared_def)
qed (use inv in \<open>auto simp: sys_inv_def ack_known_def\<close>)

lemma ids_inv_message_step:
  assumes inv: "ids_inv S" and T: "task_inv (tk S)"
  shows "phase S = Running \<Longrightarrow> ids_inv (S\<lparr>tk := (tk S)\<lparr>last_received := now\<rparr>,
      phase := Collecting f (need_pending (msg_of f) (subscriptions (shared (tk S))))\<rparr>)"
    and "phase S = Collecting f need \<Longrightarrow>
      ids_inv (S\<lparr>phase := Recording f (collect_ids f need (subscriptions (shared (tk S))))\<rparr>)"
    and "phase S = Recording f ids \<Longrightarrow> ids_inv (S\<lparr>tk := record_section f ids (tk S), phase := Delivering f,
      recorded := rec\<rparr>)"
    and "phase S = Sweeping f live ovs d \<Longrightarrow>
      ids_inv (S\<lparr>tk := sweep_section live (tk S), phase := Failing f ovs d\<rparr>)"
proof -
  have P: "pend_ids (tk S) \<subseteq> old_ids (tk S)" "phase_inv (phase S) (tk S)"
    using inv by (simp_all add: ids_inv_def)
  show "ids_inv (S\<lparr>tk := (tk S)\<lparr>last_received := now\<rparr>,
      phase := Collecting f (need_pending (msg_of f) (subscriptions (shared (tk S))))\<rparr>)"
    using P(1) need_registered [OF T] by (simp add: ids_inv_def old_ids_def pend_ids_def)
  show "phase S = Collecting f need \<Longrightarrow>
      ids_inv (S\<lparr>phase := Recording f (collect_ids f need (subscriptions (shared (tk S))))\<rparr>)"
    using P collected_old [OF T] by (simp add: ids_inv_def del: phase_inv.simps(1))
  show "phase S = Recording f ids \<Longrightarrow> ids_inv (S\<lparr>tk := record_section f ids (tk S), phase := Delivering f,
      recorded := rec\<rparr>)"
    using P pend_ids_record [of f ids "tk S"]
    by (auto simp: ids_inv_def old_ids_def record_section_def on_shared_def)
  show "phase S = Sweeping f live ovs d \<Longrightarrow>
      ids_inv (S\<lparr>tk := sweep_section live (tk S), phase := Failing f ovs d\<rparr>)"
    using P keeps_ids_fewer(2) [of "tk S" live]
    by (intro ids_inv_task [OF inv keeps_ids_fewer(2)])
      (simp_all add: gone_def old_ids_def live_sub_ids_def sweep_section_def on_shared_def)
qed

lemma keeps_ids_refl: "keeps_ids t t"
  by (simp add: keeps_ids_def)

lemma ids_inv_step:
  assumes inv: "ids_inv S" and T: "task_inv (tk S)" and step: "sys_step ts tso tro rx wok mk S S'"
  shows "ids_inv S'"
  using step
proof cases
  case (Register d a hs cap lim e s)
  show ?thesis
    by (rule ids_inv_change [OF inv ids_change_register [OF T Register(2)]])
      (simp_all add: Register(1) with_shared_def)
next
  case (Deregister sid)
  show ?thesis
    by (rule ids_inv_change [OF inv ids_change_deregister [OF T]]) (simp_all add: Deregister with_shared_def)
next
  case (Forget sid)
  show ?thesis by (rule ids_inv_change [OF inv ids_change_forget]) (simp_all add: Forget with_shared_def)
next
  case (BestEffort a b sid)
  show ?thesis
    by (rule ids_inv_change [OF inv ids_change_best_effort [OF T]]) (simp_all add: BestEffort with_shared_def)
next
  case (Settle mode sid i m p cmd)
  show ?thesis
    by (rule ids_inv_change [OF inv ids_change_pending [of "(shared (tk S))\<lparr>pending := p\<rparr>"]])
      (use pend_ids_settle [OF Settle(2)] in \<open>simp_all add: Settle(1) with_shared_def pend_ids_def\<close>)
next
  case (Enqueue xs out ys q)
  show ?thesis
    by (rule ids_inv_change [OF inv ids_change_pending [of "(shared (tk S))\<lparr>outbound_tx := q\<rparr>"]])
      (simp_all add: Enqueue(1) with_shared_def pend_ids_def)
next
  case (Receive a f c)
  show ?thesis
    by (rule ids_inv_change [OF inv ids_change_pending
        [of "(shared (tk S))\<lparr>chans := (chans (shared (tk S)))(a := c)\<rparr>"]])
      (simp_all add: Receive(1) with_shared_def pend_ids_def)
next
  case (DropReceiver a c)
  show ?thesis
    by (rule ids_inv_change [OF inv ids_change_pending
        [of "(shared (tk S))\<lparr>chans := (chans (shared (tk S)))(a := c)\<rparr>"]])
      (simp_all add: DropReceiver(1) with_shared_def pend_ids_def)
next
  case AskReceipt
  show ?thesis
    by (rule ids_inv_change [OF inv ids_change_pending [of "registered (shared (tk S))"]])
      (simp_all add: AskReceipt with_shared_def pend_ids_def registered_def)
next
  case (DropReceipt rid)
  show ?thesis
    by (rule ids_inv_change [OF inv ids_change_pending
        [of "(shared (tk S))\<lparr>pending_receipts := hm_remove rid (pending_receipts (shared (tk S)))\<rparr>"]])
      (simp_all add: DropReceipt with_shared_def pend_ids_def)
next
  case (Deliver f t live ovs delivered)
  obtain t' live' ovs' d' where
    res: "deliver_section ts f (tk S) = Some (t', live', ovs', d')"
      "pending (shared t') = pending (shared (tk S))" "sub_id_counter (shared t') = sub_id_counter (shared (tk S))"
      "gone ovs' t'" "live' = None \<or> live' = Some (live_sub_ids t')"
    by (rule deliver_section_result [OF T Deliver(3)])
  show ?thesis
    using res Deliver(4)
    by (intro ids_inv_task [OF inv keeps_idsI]) (auto simp: Deliver(1))
next
  case (Fail f ovs delivered now t fl)
  show ?thesis
    by (rule ids_inv_task [OF inv keeps_idsI]) (auto simp: Fail(1) pending_fail [OF Fail(3)] after_flow_def split: flow.split)
next
  case (Inbound f now t fl)
  show ?thesis
    by (rule ids_inv_task [OF inv keeps_idsI])
      (auto simp: Inbound(1) other_frame [OF T Inbound(3-5)] after_flow_def split: flow.split)
next
  case (Outbound out q now t fl)
  have "keeps_ids (tk S) t"
    using keeps_ids_outbound [OF Outbound(4)] by (simp add: keeps_ids_def pend_ids_def)
  then show ?thesis
    by (rule ids_inv_task [OF inv]) (auto simp: Outbound(1) after_flow_def split: flow.split)
next
  case (Tick now si t fl)
  show ?thesis
    by (rule ids_inv_task [OF inv keeps_ids_hb_tick [OF Tick(3)]])
      (auto simp: Tick(1) after_flow_def split: flow.split)
next
  case (Parked sid t closed)
  show ?thesis
    by (rule ids_inv_task [OF inv keeps_ids_drain [OF Parked(4)]]) (auto simp: Parked(1))
next
  case (Refused f sid t now)
  show ?thesis
    by (rule ids_inv_task [OF inv keeps_ids_handlers(1) [of "tk S" f now]]) (simp_all add: Refused(1,5))
next
  case (Arrive f now)
  show ?thesis unfolding Arrive(1) by (rule ids_inv_message_step(1) [OF inv T Arrive(2)])
next
  case (Collect f need)
  show ?thesis unfolding Collect(1) by (rule ids_inv_message_step(2) [OF inv T Collect(2)])
next
  case (Record f ids t)
  show ?thesis unfolding Record(1,3) by (rule ids_inv_message_step(3) [OF inv T Record(2)])
next
  case (Sweep f live ovs d)
  show ?thesis unfolding Sweep(1) by (rule ids_inv_message_step(4) [OF inv T Sweep(2)])
next
  case (Skip f now)
  show ?thesis
    by (rule ids_inv_task [OF inv keeps_idsI [of "(tk S)\<lparr>last_received := now\<rparr>"]]) (simp_all add: Skip(1,2))
next
  case (Watchdog now ri)
  show ?thesis
    by (rule ids_inv_task [OF inv keeps_idsI [of "tk S"]]) (simp_all add: Watchdog(1) after_flow_def split: flow.split)
next
  case (Panic f now)
  show ?thesis by (rule ids_inv_task [OF inv keeps_ids_handlers(1)]) (simp_all add: Panic)
next
  case (Count f sid dest)
  show ?thesis by (rule ids_inv_task [OF inv keeps_ids_handlers(2)]) (simp_all add: Count)
next
  case (Start now)
  show ?thesis by (rule ids_inv_task [OF inv keeps_ids_handlers(3)]) (simp_all add: Start)
next
  case (Reconnected now)
  show ?thesis by (rule ids_inv_task [OF inv keeps_ids_handlers(3)]) (simp_all add: Reconnected)
next
  case Replay
  show ?thesis by (rule ids_inv_task [OF inv keeps_ids_handlers(4)]) (simp_all add: Replay)
next
  case LoopTop
  show ?thesis by (rule ids_inv_task [OF inv keeps_ids_handlers(5)]) (simp_all add: LoopTop)
next
  case (BrokerBeat notify now)
  show ?thesis by (rule ids_inv_task [OF inv keeps_ids_handlers(6)]) (simp_all add: BrokerBeat)
next
  case AttemptFailed
  show ?thesis by (rule ids_inv_task [OF inv keeps_ids_handlers(7)]) (simp_all add: AttemptFailed)
next
  case Shutdown
  show ?thesis by (rule ids_inv_task [OF inv keeps_ids_handlers(8)]) (simp_all add: Shutdown)
next
  case (SessionOver lasted)
  show ?thesis by (rule ids_inv_task [OF inv keeps_ids_fewer(1)]) (simp_all add: SessionOver)
next
  case (Clear sid)
  show ?thesis by (rule ids_inv_task [OF inv keeps_ids_forget]) (simp_all add: Clear)
next
  case StreamGone
  show ?thesis by (rule ids_inv_task [OF inv keeps_ids_refl]) (simp_all add: StreamGone)
next
  case (Find f sid)
  show ?thesis by (rule ids_inv_task [OF inv keeps_ids_refl]) (simp_all add: Find)
next
  case (Send item)
  show ?thesis by (rule ids_inv_change [OF inv ids_change_refl]) (simp_all add: Send)
next
  case (GiveUp xs out ys)
  show ?thesis by (rule ids_inv_change [OF inv ids_change_refl]) (simp_all add: GiveUp)
qed

lemma reachable_invs:
  "reachable ts tso tro rx wok mk q0 S \<Longrightarrow> out_queued q0 = [] \<Longrightarrow> sys_inv out_queued S \<and> ids_inv S"
proof (induction rule: reachable.induct)
  case (Init now cs)
  then show ?case
    by (simp add: sys_inv_def ids_inv_def sys_new_def task_inv_new)
      (simp add: task_new_def conn_new_def pend_pairs_def pend_ids_def ids_of_def)
next
  case (Step S S')
  then have inv: "sys_inv out_queued S" "ids_inv S" by simp_all
  note T = sys_invD(1) [OF inv(1)]
  show ?case
    using sys_inv_step [OF inv Step.hyps(2) T] ids_inv_step [OF inv(2) T Step.hyps(2)] by simp
qed

lemmas reachable_inv = reachable_invs [THEN conjunct1]
lemmas reachable_ids_inv = reachable_invs [THEN conjunct2]

end

section \<open>Bounded buffers\<close>

definition bc_recv :: "'m bounded_chan \<Rightarrow> ('m \<times> 'm bounded_chan) option" where
  "bc_recv c = (case bc_buf c of [] \<Rightarrow> None | x # xs \<Rightarrow> Some (x, c\<lparr>bc_buf := xs\<rparr>))"

definition bc_rx :: "'m bounded_chan \<Rightarrow> 'm option \<Rightarrow> 'm bounded_chan \<Rightarrow> bool" where
  "bc_rx c r c' =
     (case r of
        Some x \<Rightarrow> bc_recv c = Some (x, c')
      | None \<Rightarrow> c' = c\<lparr>bc_closed := True\<rparr> \<or> c' = c\<lparr>bc_closed := True, bc_buf := []\<rparr>)"

interpretation bounded_connection: connection_channels
  bc_try_send bc_buf bc_closed bc_try_send bc_buf bc_closed bc_recv bc_rx
  by unfold_locales (auto simp: bc_recv_def bc_rx_def split: list.splits)

section \<open>Client calls are runs\<close>

abbreviation sys_runs where
  "sys_runs ts tso tro rx wok mk \<equiv> (sys_step ts tso tro rx wok mk)\<^sup>*\<^sup>*"

lemma one_step: "sys_step ts tso tro rx wok mk S S' \<Longrightarrow> sys_runs ts tso tro rx wok mk S S'"
  by (rule r_into_rtranclp)

lemma runs_step:
  "sys_runs ts tso tro rx wok mk S S1 \<Longrightarrow> sys_step ts tso tro rx wok mk S1 S2 \<Longrightarrow> sys_runs ts tso tro rx wok mk S S2"
  by (rule rtranclp.rtrancl_into_rtrancl)

lemma with_shared_simps [simp]:
  "shared (tk (with_shared S s)) = s" "inflight (with_shared S s) = inflight S"
  "with_shared (with_shared S s) s' = with_shared S s'" "with_shared S (shared (tk S)) = S"
  "with_shared (S\<lparr>inflight := i\<rparr>) s = (with_shared S s)\<lparr>inflight := i\<rparr>"
  "(with_shared S s)\<lparr>inflight := inflight S\<rparr> = with_shared S s"
  "tk (S\<lparr>inflight := i\<rparr>) = tk S"
  by (simp_all add: with_shared_def)

lemma send_out_sent:
  assumes "send_out tso out s = Some (Inr u, s')"
  obtains q where "tso (outbound_tx s) out = (Sent, q)" "s' = s\<lparr>outbound_tx := q\<rparr>"
  using assms by (auto simp: send_out_def split: prod.splits try_send_result.splits)

text \<open>A call that put its item in flight last and then found room.\<close>

lemma enqueue_last:
  assumes "send_out tso out s = Some (Inr u, s')"
    and "sys_runs ts tso tro rx wok mk S ((with_shared S s)\<lparr>inflight := inflight S @ [out]\<rparr>)"
  shows "sys_runs ts tso tro rx wok mk S (with_shared S s')"
proof -
  let ?S1 = "(with_shared S s)\<lparr>inflight := inflight S @ [out]\<rparr>"
  obtain q where q: "tso (outbound_tx s) out = (Sent, q)" "s' = s\<lparr>outbound_tx := q\<rparr>"
    using send_out_sent [OF assms(1)] .
  have "sys_step ts tso tro rx wok mk ?S1
      ((with_shared ?S1 ((shared (tk ?S1))\<lparr>outbound_tx := q\<rparr>))\<lparr>inflight := inflight S @ []\<rparr>)"
    by (rule sys_step.Enqueue [where out = out and ys = "[]"]) (simp_all add: q(1))
  moreover have "(with_shared ?S1 ((shared (tk ?S1))\<lparr>outbound_tx := q\<rparr>))\<lparr>inflight := inflight S @ []\<rparr> =
      with_shared S s'"
    by (simp add: q(2) with_shared_def)
  ultimately show ?thesis using assms(2) by (metis rtranclp.rtrancl_into_rtrancl)
qed

lemma acknowledge_runs:
  assumes "acknowledge tso cmd sid i (shared (tk S)) = Some (Inr (), s')"
  shows "sys_runs ts tso tro rx wok mk S (with_shared S s')"
proof -
  let ?s = "shared (tk S)"
  let ?mode = "unwrap_or Client (managed_mode sid (subscriptions ?s))"
  obtain found p where sp: "settle_pending ?mode sid i (pending ?s) = (found, p)" by fastforce
  show ?thesis
  proof (cases found)
    case (Some m)
    let ?out = "AckOut (ack_frame_of cmd (pm_ack_id m) sid) (pm_session m)"
    have "send_out tso ?out (?s\<lparr>pending := p\<rparr>) = Some (Inr (), s')"
      using assms sp Some by (simp add: acknowledge_def Let_def)
    moreover have "sys_runs ts tso tro rx wok mk S ((with_shared S (?s\<lparr>pending := p\<rparr>))\<lparr>inflight := inflight S @ [?out]\<rparr>)"
      using sp Some by (intro r_into_rtranclp sys_step.Settle) simp
    ultimately show ?thesis by (rule enqueue_last)
  next
    case None
    then have p: "?s\<lparr>pending := p\<rparr> = ?s"
      using sp by (auto simp: settle_pending_def split: option.splits if_splits)
    show ?thesis
    proof (cases "managed_mode sid (subscriptions ?s) \<in> {Some Client, Some ClientIndividual}")
      case True
      then have "s' = ?s" using assms sp None p by (auto simp: acknowledge_def Let_def)
      then show ?thesis by simp
    next
      case False
      let ?out = "Item (Frame (ack_frame_of cmd i sid))"
      have "send_out tso ?out ?s = Some (Inr (), s')"
        using assms sp None p False by (auto simp: acknowledge_def Let_def split: if_splits)
      moreover have "sys_runs ts tso tro rx wok mk S ((with_shared S ?s)\<lparr>inflight := inflight S @ [?out]\<rparr>)"
        by (intro r_into_rtranclp) (simp add: sys_step.Send)
      ultimately show ?thesis by (rule enqueue_last)
    qed
  qed
qed

lemma subscribe_runs:
  assumes "subscribe_with_capacity mk tso d a hs cap lim (shared (tk S)) = Some (Inr sn, s')"
  shows "sys_runs ts tso tro rx wok mk S (with_shared S s')"
proof -
  obtain e s1 where reg: "register mk d a hs cap lim (shared (tk S)) = (e, s1)" by fastforce
  have "send_out tso (Item (Frame (subscribe_frame (sub_id e) d a hs))) s1 = Some (Inr (), s')"
    using assms reg by (auto simp: subscribe_with_capacity_def split: option.splits sum.splits)
  then show ?thesis
    by (rule enqueue_last) (rule r_into_rtranclp, rule sys_step.Register, rule reg)
qed

lemma unsubscribe_runs:
  assumes "unsubscribe tso sid (shared (tk S)) = Some (Inr (), s')"
  shows "sys_runs ts tso tro rx wok mk S (with_shared S s')"
proof -
  let ?s1 = "snd (deregister sid (shared (tk S)))" and ?out = "Item (Frame (unsubscribe_frame sid))"
  have out: "send_out tso ?out (forget_pending sid ?s1) = Some (Inr (), s')"
    using assms by (auto simp: unsubscribe_def split: prod.splits if_splits)
  have step1: "sys_step ts tso tro rx wok mk S (with_shared S ?s1)" by (rule sys_step.Deregister)
  have step2: "sys_step ts tso tro rx wok mk (with_shared S ?s1) (with_shared S (forget_pending sid ?s1))"
    using sys_step.Forget [of ts tso tro rx wok mk "with_shared S ?s1" sid] by simp
  have step3: "sys_step ts tso tro rx wok mk (with_shared S (forget_pending sid ?s1))
      ((with_shared S (forget_pending sid ?s1))\<lparr>inflight := inflight S @ [?out]\<rparr>)"
    using sys_step.Send [of ts tso tro rx wok mk "with_shared S (forget_pending sid ?s1)"] by simp
  show ?thesis
    by (rule enqueue_last [OF out]) (rule runs_step [OF runs_step [OF one_step [OF step1] step2] step3])
qed

text \<open>
  A frame sent with a receipt request: registered first, then sent; a send that finds the task
  gone takes the registration back.
\<close>

lemma send_with_receipt_runs:
  assumes "send_frame_with_receipt tso f (shared (tk S)) = Some (Inr h, s')"
  shows "sys_runs ts tso tro rx wok mk S (with_shared S s')"
proof -
  let ?s1 = "registered (shared (tk S))"
  let ?out = "Item (Frame (with_receipt (''rcpt-'' @ show_nat (receipt_counter (shared (tk S)))) (drop_receipt_headers f)))"
  have out: "send_out tso ?out ?s1 = Some (Inr (), s')"
    using assms
    by (auto simp: send_frame_with_receipt_def generate_receipt_id_def send_frame_def registered_def Let_def
        split: option.splits sum.splits)
  have step1: "sys_step ts tso tro rx wok mk S (with_shared S ?s1)" by (rule sys_step.AskReceipt)
  have step2: "sys_step ts tso tro rx wok mk (with_shared S ?s1)
      ((with_shared S ?s1)\<lparr>inflight := inflight S @ [?out]\<rparr>)"
    using sys_step.Send [of ts tso tro rx wok mk "with_shared S ?s1"] by simp
  show ?thesis
    by (rule enqueue_last [OF out]) (rule runs_step [OF one_step [OF step1] step2])
qed

section \<open>The handlers of the task are runs\<close>

text \<open>
  Run back to back, the critical sections of a handler are the handler: a frame the code handles
  whole is a run of the system, which the client's steps may interleave with.
\<close>

text \<open>A MESSAGE as far as its delivery pass.\<close>

lemma message_to_sweep:
  fixes f now S
  defines "need \<equiv> need_pending (msg_of f) (subscriptions (shared (tk S)))"
  defines "t1 \<equiv> record_section f (collect_ids f need (subscriptions (shared (tk S)))) ((tk S)\<lparr>last_received := now\<rparr>)"
  assumes running: "phase S = Running" and mem: "memory_ok (tk S)" and f: "command f = ''MESSAGE''" "\<not> skipped f (tk S)"
    and del: "deliver_section ts f t1 = Some (t2, live, ovs, d)"
  shows "sys_runs ts tso tro rx wok mk S
    (S\<lparr>tk := t2, phase := Sweeping f live ovs d, recorded := recorded S \<union> pend_pairs (pending (shared t1)),
       offered := offer f t1 (offered S)\<rparr>)"
proof -
  let ?ids = "collect_ids f need (subscriptions (shared (tk S)))"
  define S1 where "S1 = S\<lparr>tk := (tk S)\<lparr>last_received := now\<rparr>, phase := Collecting f need\<rparr>"
  define S2 where "S2 = S1\<lparr>phase := Recording f ?ids\<rparr>"
  define S3 where "S3 = S2\<lparr>tk := t1, phase := Delivering f, recorded := recorded S \<union> pend_pairs (pending (shared t1))\<rparr>"
  have 1: "sys_step ts tso tro rx wok mk S S1"
    unfolding S1_def need_def by (rule sys_step.Arrive [OF running f])
  have 2: "sys_step ts tso tro rx wok mk S1 S2"
    using sys_step.Collect [of S1 f need ts tso tro rx wok mk] by (simp add: S1_def S2_def)
  have 3: "sys_step ts tso tro rx wok mk S2 S3"
    using sys_step.Record [of S2 f ?ids t1 ts tso tro rx wok mk] by (simp add: S1_def S2_def S3_def t1_def)
  have "sys_step ts tso tro rx wok mk S3
      (S3\<lparr>tk := t2, phase := Sweeping f live ovs d, offered := offer f (tk S3) (offered S3)\<rparr>)"
    by (rule sys_step.Deliver)
      (use mem del in \<open>simp_all add: S3_def t1_def memory_ok_def record_section_def on_shared_def\<close>)
  moreover have "S3\<lparr>tk := t2, phase := Sweeping f live ovs d, offered := offer f (tk S3) (offered S3)\<rparr> =
      S\<lparr>tk := t2, phase := Sweeping f live ovs d, recorded := recorded S \<union> pend_pairs (pending (shared t1)),
        offered := offer f t1 (offered S)\<rparr>"
    by (cases S) (simp add: S3_def S2_def S1_def)
  ultimately show ?thesis using runs_step [OF runs_step [OF runs_step [OF one_step [OF 1] 2] 3]] by metis
qed

lemma message_runs:
  assumes running: "phase S = Running" and mem: "memory_ok (tk S)" and f: "command f = ''MESSAGE''"
    and step: "handle_frame ts wok now f (tk S) = Some (t, fl)"
  shows "\<exists>rec off. sys_runs ts tso tro rx wok mk S
    (S\<lparr>tk := t, phase := after_flow fl, recorded := rec, offered := off\<rparr>)"
proof -
  let ?t = "(tk S)\<lparr>last_received := now\<rparr>"
  let ?m = "subscriptions (shared (tk S))"
  have h: "handle_message ts wok now f ?t = Some (t, fl)"
    using step f by (simp add: handle_frame_def Let_def)
  show ?thesis
  proof (cases "skipped f (tk S)")
    case True
    then have "skipped f ?t" by (simp add: skipped_def split: option.splits)
    then have "t = ?t" "fl = Continue"
      using h by (simp_all add: handle_message_def skipped_def Let_def)
    moreover have "S\<lparr>tk := ?t, phase := Running, recorded := recorded S, offered := offered S\<rparr> = S\<lparr>tk := ?t\<rparr>"
      using running by (cases S) simp
    ultimately show ?thesis
      using one_step [OF sys_step.Skip [OF running f True]]
      by (intro exI [of _ "recorded S"] exI [of _ "offered S"]) (simp add: after_flow_def)
  next
    case False
    let ?t1 = "record_section f (collect_ids f (need_pending (msg_of f) ?m) ?m) ?t"
    let ?rec = "recorded S \<union> pend_pairs (pending (shared ?t1))"
    have "\<not> skipped f ?t" using False by (simp add: skipped_def split: option.splits)
    note sects = message_sections [OF this, where ?t1.0 = ?t1]
    obtain t2 live ovs d where del: "deliver_section ts f ?t1 = Some (t2, live, ovs, d)"
      and fail: "fail_section ts wok now f ovs d (sweep_section live t2) = (t, fl)"
      using h sects [of ts wok now] by (auto split: option.splits)
    let ?off = "offer f ?t1 (offered S)"
    define S4 where "S4 = S\<lparr>tk := t2, phase := Sweeping f live ovs d, recorded := ?rec, offered := ?off\<rparr>"
    define S5 where "S5 = S4\<lparr>tk := sweep_section live t2, phase := Failing f ovs d\<rparr>"
    have to: "sys_runs ts tso tro rx wok mk S S4"
      unfolding S4_def by (rule message_to_sweep [OF running mem f False del])
    have 5: "sys_step ts tso tro rx wok mk S4 S5"
      using sys_step.Sweep [of S4 f live ovs d ts tso tro rx wok mk] by (simp add: S4_def S5_def)
    have 6: "sys_step ts tso tro rx wok mk S5 (S5\<lparr>tk := t, phase := after_flow fl\<rparr>)"
      by (rule sys_step.Fail [where f = f and ovs = ovs and delivered = d and now = now])
        (use fail in \<open>simp_all add: S5_def\<close>)
    have "S5\<lparr>tk := t, phase := after_flow fl\<rparr> =
        S\<lparr>tk := t, phase := after_flow fl, recorded := ?rec, offered := ?off\<rparr>"
      by (cases S) (simp add: S5_def S4_def)
    then show ?thesis using runs_step [OF runs_step [OF to 5] 6] by metis
  qed
qed

lemma error_runs:
  assumes running: "phase S = Running" and f: "command f = ''ERROR''"
    and step: "handle_frame ts wok now f (tk S) = Some (t, fl)"
  shows "sys_runs ts tso tro rx wok mk S (S\<lparr>tk := t, phase := after_flow fl\<rparr>)"
proof -
  let ?t = "error_settle f ((tk S)\<lparr>last_received := now\<rparr>)"
  have h: "handle_error ts f ((tk S)\<lparr>last_received := now\<rparr>) = Some (t, fl)"
    using step f by (simp add: handle_frame_def Let_def)
  obtain sid where sid: "extract_subscription_id_from_error f = Some sid"
    using h by (auto simp: error_sections Let_def split: option.splits)
  have first: "sys_step ts tso tro rx wok mk S
      (S\<lparr>tk := ?t, phase := if given_up sid ?t then Running else Finding f sid\<rparr>)"
    by (rule sys_step.Refused [OF running f sid refl])
  show ?thesis
  proof (cases "given_up sid ?t")
    case True
    then show ?thesis
      using first h sid by (auto simp: error_sections Let_def after_flow_def)
  next
    case False
    let ?dest = "error_destination f sid (shared ?t)"
    define S1 where "S1 = S\<lparr>tk := ?t, phase := Finding f sid\<rparr>"
    define S2 where "S2 = S1\<lparr>phase := Counting f sid ?dest\<rparr>"
    have res: "t = error_count ts f sid ?dest ?t" "fl = Continue"
      using h sid False by (simp_all add: error_sections Let_def)
    have 1: "sys_step ts tso tro rx wok mk S S1" using first False by (simp add: S1_def)
    have 2: "sys_step ts tso tro rx wok mk S1 S2"
      using sys_step.Find [of S1 f sid ts tso tro rx wok mk] by (simp add: S1_def S2_def)
    have 3: "sys_step ts tso tro rx wok mk S2 (S\<lparr>tk := t, phase := Running\<rparr>)"
      using sys_step.Count [of S2 f sid ?dest ts tso tro rx wok mk] by (simp add: S1_def S2_def res)
    show ?thesis
      using runs_step [OF runs_step [OF one_step [OF 1] 2] 3] by (simp add: res after_flow_def)
  qed
qed

lemma frame_runs:
  assumes "phase S = Running" and "memory_ok (tk S)" and "handle_frame ts wok now f (tk S) = Some (t, fl)"
  shows "\<exists>rec off. sys_runs ts tso tro rx wok mk S
    (S\<lparr>tk := t, phase := after_flow fl, recorded := rec, offered := off\<rparr>)"
proof -
  have same: "S\<lparr>tk := t, phase := after_flow fl, recorded := recorded S, offered := offered S\<rparr> =
      S\<lparr>tk := t, phase := after_flow fl\<rparr>"
    by (cases S) simp
  consider "command f = ''MESSAGE''" | "command f = ''ERROR''" | "command f \<noteq> ''MESSAGE''" "command f \<noteq> ''ERROR''"
    by blast
  then show ?thesis
  proof cases
    case 1
    then show ?thesis by (rule message_runs [OF assms(1,2) _ assms(3)])
  next
    case 2
    then show ?thesis using error_runs [OF assms(1) _ assms(3)] same by (metis (no_types))
  next
    case 3
    then show ?thesis
      using one_step [OF sys_step.Inbound [OF assms(1) _ _ assms(3)]] same by (metis (no_types))
  qed
qed

lemma parked_runs:
  assumes "phase S = Running" and "sid \<in> fst ` set (parked (tk S))"
  shows "sys_runs ts tso tro rx wok mk S (S\<lparr>tk := handle_parked ts sid (tk S)\<rparr>)"
proof -
  obtain t closed where drain: "drain_section ts sid (tk S) = (t, closed)" by fastforce
  let ?S1 = "S\<lparr>tk := t, phase := if closed then Clearing sid else Running\<rparr>"
  have 1: "sys_step ts tso tro rx wok mk S ?S1" by (rule sys_step.Parked [OF assms drain])
  have Running: "S\<lparr>tk := x, phase := Running\<rparr> = S\<lparr>tk := x\<rparr>" for x
    using assms(1) by (cases S) simp
  show ?thesis
  proof (cases closed)
    case True
    then have "sys_step ts tso tro rx wok mk ?S1 (S\<lparr>tk := handle_parked ts sid (tk S)\<rparr>)"
      using sys_step.Clear [of ?S1 sid ts tso tro rx wok mk] drain by (simp add: parked_sections Running)
    then show ?thesis by (rule runs_step [OF one_step [OF 1]])
  next
    case False
    then show ?thesis using one_step [OF 1] drain by (simp add: parked_sections Running)
  qed
qed

lemma session_runs:
  assumes "phase S = Fresh \<or> phase S = Backoff"
  shows "sys_runs ts tso tro rx wok mk S
    (S\<lparr>tk := begin_session wok now (phase S = Backoff) (tk S), phase := Running,
       offered := withdraw (tk S) (offered S)\<rparr>)"
proof (cases "phase S = Backoff")
  case True
  let ?S1 = "S\<lparr>tk := discard_section now (tk S), phase := Replaying, offered := withdraw (tk S) (offered S)\<rparr>"
  have "sys_step ts tso tro rx wok mk ?S1
      (S\<lparr>tk := begin_session wok now True (tk S), phase := Running, offered := withdraw (tk S) (offered S)\<rparr>)"
    using sys_step.Replay [of ?S1 ts tso tro rx wok mk] by (cases S) (simp add: session_sections)
  then show ?thesis
    using runs_step [OF one_step [OF sys_step.Reconnected [OF True]]] True by simp
next
  case False
  then show ?thesis
    using assms one_step [OF sys_step.Start [of S]] by (simp add: session_sections)
qed

lemma reachable_run:
  "sys_runs ts tso tro rx wok mk S S' \<Longrightarrow> reachable ts tso tro rx wok mk q0 S \<Longrightarrow>
     reachable ts tso tro rx wok mk q0 S'"
  by (induction rule: rtranclp_induct) (simp_all add: reachable.Step)

section \<open>A concrete run\<close>

definition demo_running :: "(frame bounded_chan, outbound bounded_chan) sys" where
  "demo_running =
     \<lparr>tk = demo_task, phase = Running,
      inflight = [Item (Frame (subscribe_frame ''1'' ''/queue/a'' Client []))], recorded = {},
      acked = {}, got = (\<lambda>_. []), offered = (\<lambda>_. []), cancelled = {}\<rparr>"

abbreviation "demo_step \<equiv> sys_step bc_try_send bc_try_send bc_recv bc_rx all_written bc_new"
abbreviation "demo_reachable \<equiv> reachable bc_try_send bc_try_send bc_recv bc_rx all_written bc_new (bc_new 32)"

lemma demo_running_reachable: "demo_reachable demo_running"
proof -
  let ?S0 = "sys_new 0 (bc_new 32) (\<lambda>_. bc_new 32) :: (frame bounded_chan, outbound bounded_chan) sys"
  let ?S1 = "?S0\<lparr>tk := discard_section 0 (tk ?S0), phase := Running, offered := withdraw (tk ?S0) (offered ?S0)\<rparr>"
  have tk1: "tk ?S1 = task_new 0 fresh_conn"
    by (simp add: sys_new_def discard_section_def task_new_def fresh_conn_def conn_new_def on_shared_def
        Let_def prune_parked_def)
  have "demo_reachable ?S0" by (rule reachable.Init)
  then have S1: "demo_reachable ?S1"
    by (rule reachable.Step) (rule sys_step.Start, simp add: sys_new_def)
  obtain e s where reg: "register bc_new ''/queue/a'' Client [] 16 1024 (shared (tk ?S1)) = (e, s)"
    by fastforce
  moreover have "show_nat (Suc 0) = ''1''" by code_simp
  ultimately have "s = one_sub_conn" "sub_id e = ''1''"
    by (simp_all add: tk1 task_new_def one_sub_conn_def)
      (auto simp: register_def Let_def fresh_conn_def conn_new_def)
  then have "demo_running = (with_shared ?S1 s)\<lparr>inflight := inflight ?S1 @
      [Item (Frame (subscribe_frame (sub_id e) ''/queue/a'' Client []))]\<rparr>"
    using tk1 by (simp add: demo_running_def with_shared_def demo_task_def task_new_def sys_new_def
        withdraw_def conn_new_def fun_eq_iff)
  then show ?thesis
    using reachable.Step [OF S1 sys_step.Register [OF reg]] by simp
qed

lemma demo_memory: "memory_ok (tk demo_running)"
  by (simp add: memory_ok_def demo_running_def demo_task_def task_new_def one_sub_simps overflow_new_def)

text \<open>The message of \<open>demo_delivered\<close> between its delivery and the sweep.\<close>

lemma demo_pass_chan:
  "case deliver_pass bc_try_send (demo_message ''m1'') (scan_headers (headers (demo_message ''m1'')))
      (subscriptions one_sub_conn) (message_pass demo_task) of
     None \<Rightarrow> False
   | Some (m, live, p) \<Rightarrow> map sub_sender (entries m) = [1] \<and>
       bc_buf (ps_chans p 1) = [demo_message ''m1''] \<and> \<not> bc_closed (ps_chans p 1)"
  unfolding scan_demo by code_simp

lemma demo_offer:
  "subscriptions (shared t) = subscriptions one_sub_conn \<Longrightarrow>
   offer (demo_message ''m1'') t log 1 = log 1 @ [demo_message ''m1'']"
  by (simp add: offer_def one_sub_simps targets_def selected_def scan_demo)

lemma demo_sweeping:
  "\<exists>S ovs d. (demo_reachable S \<and> phase S = Sweeping (demo_message ''m1'') (Some {''1''}) ovs d \<and>
     hm_get (pending (shared (tk S))) ''1'' = Some [demo_pending ''m1''] \<and> live_sub_ids (tk S) = {''1''}) \<and>
     got S 1 = [] \<and> offered S 1 = [demo_message ''m1''] \<and> 1 < next_chan (shared (tk S)) \<and>
     map sub_sender (entries (subscriptions (shared (tk S)))) = [1] \<and>
     bc_buf (chans (shared (tk S)) 1) = [demo_message ''m1''] \<and> \<not> bc_closed (chans (shared (tk S)) 1)"
proof -
  let ?f = "demo_message ''m1''"
  let ?t = "demo_task\<lparr>last_received := 0\<rparr>"
  let ?m = "subscriptions one_sub_conn"
  let ?t1 = "record_section ?f (collect_ids ?f (need_pending (msg_of ?f) ?m) ?m) ?t"
  have t: "shared demo_task = one_sub_conn" "session demo_task = 0" "overflowed_ids demo_task = {}"
    "pending one_sub_conn = []"
    by (simp_all add: demo_task_def task_new_def one_sub_conn_def register_def fresh_conn_def conn_new_def Let_def)
  have "task_inv demo_task" "memory_ok demo_task"
    using sys_invD(1) [OF bounded_connection.reachable_inv [OF demo_running_reachable]] demo_memory
    by (simp_all add: bc_new_def demo_running_def)
  then have inv: "task_inv ?t1" "memory_ok ?t1"
    by (simp_all add: task_inv_record) (simp add: memory_ok_def record_section_def on_shared_def)
  have pend: "pending (shared ?t1) = [(''1'', [demo_pending ''m1''])]"
    using demo_record by (simp add: record_section_def on_shared_def record_collect t)
  have mp: "message_pass ?t1 = message_pass demo_task" "subscriptions (shared ?t1) = ?m"
    by (simp_all add: message_pass_def record_section_def on_shared_def t)
  obtain t2 live ovs d where del: "deliver_section bc_try_send ?f ?t1 = Some (t2, live, ovs, d)"
    "pending (shared t2) = pending (shared ?t1)" "live = None \<or> live = Some (live_sub_ids t2)"
    by (rule bounded_frames.deliver_section_result [OF inv])
  have "live = Some {''1''}"
    using del(1) demo_pass by (auto simp: deliver_section_def mp split: option.splits)
  then have live: "live = Some {''1''}" "live_sub_ids t2 = {''1''}" using del(3) by auto
  have "next_chan one_sub_conn = 2" by code_simp
  then have "1 < next_chan (shared ?t1)" by (simp add: record_section_def on_shared_def t)
  then have chan: "map sub_sender (entries (subscriptions (shared t2))) = [1]" "1 < next_chan (shared t2)"
    "bc_buf (chans (shared t2) 1) = [?f]" "\<not> bc_closed (chans (shared t2) 1)"
    using del(1) demo_pass_chan
    by (auto simp: deliver_section_def mp split: option.splits)
  let ?S = "demo_running\<lparr>tk := t2, phase := Sweeping ?f live ovs d,
    recorded := recorded demo_running \<union> pend_pairs (pending (shared ?t1)),
    offered := offer ?f ?t1 (offered demo_running)\<rparr>"
  have dr: "tk demo_running = demo_task" "phase demo_running = Running" "shared demo_task = one_sub_conn"
    by (simp_all add: demo_running_def t)
  have "\<not> skipped ?f demo_task" by (simp add: skipped_def t split: option.split)
  then have "sys_runs bc_try_send bc_try_send bc_recv bc_rx all_written bc_new demo_running ?S"
    using message_to_sweep [where S = demo_running and f = ?f and now = 0, unfolded dr, OF _ demo_memory [unfolded dr] _ _ del(1)]
    by (simp add: demo_message_def)
  then have "demo_reachable ?S" by (rule reachable_run [OF _ demo_running_reachable])
  moreover have "offered ?S 1 = [?f]" "got ?S 1 = []"
    using demo_offer [OF mp(2)] by (simp_all add: demo_running_def)
  ultimately show ?thesis
    using live del(2) pend chan by (intro exI [of _ ?S] exI [of _ ovs] exI [of _ d]) simp
qed

lemma demo_sweeping_reachable:
  "\<exists>S ovs d. demo_reachable S \<and> phase S = Sweeping (demo_message ''m1'') (Some {''1''}) ovs d \<and>
     hm_get (pending (shared (tk S))) ''1'' = Some [demo_pending ''m1''] \<and> live_sub_ids (tk S) = {''1''}"
  using demo_sweeping by (elim exE conjE) (intro exI conjI)

text \<open>And once its receiver took it.\<close>

lemma demo_received_reachable:
  "\<exists>S. demo_reachable S \<and> got S 1 = [demo_message ''m1''] \<and> offered S 1 = [demo_message ''m1''] \<and>
     1 < next_chan (shared (tk S)) \<and> map sub_sender (entries (subscriptions (shared (tk S)))) = [1] \<and>
     bc_buf (chans (shared (tk S)) 1) = [] \<and> \<not> bc_closed (chans (shared (tk S)) 1)"
proof -
  obtain S where S: "demo_reachable S" "got S 1 = []" "offered S 1 = [demo_message ''m1'']"
    "1 < next_chan (shared (tk S))" "map sub_sender (entries (subscriptions (shared (tk S)))) = [1]"
    "bc_buf (chans (shared (tk S)) 1) = [demo_message ''m1'']" "\<not> bc_closed (chans (shared (tk S)) 1)"
    using demo_sweeping by (elim exE conjE) (rule that)
  let ?c = "(chans (shared (tk S)) 1)\<lparr>bc_buf := []\<rparr>"
  have "bc_rx (chans (shared (tk S)) 1) (Some (demo_message ''m1'')) ?c"
    by (simp add: bc_rx_def bc_recv_def S(6) [simplified])
  from reachable.Step [OF S(1) sys_step.Receive [where rx = bc_rx, OF S(4) this]]
  show ?thesis using S(2-5,7) by (intro exI conjI) (assumption, simp_all add: with_shared_def)
qed

text \<open>The message of \<open>demo_delivered\<close> arrives, is acknowledged, and the ACK is written.\<close>

lemma demo_recorded_reachable:
  "\<exists>S. demo_reachable S \<and> phase S = Running \<and> pending (shared (tk S)) = [(''1'', [demo_pending ''m1''])] \<and>
     session (tk S) = 0 \<and> outbound_tx (shared (tk S)) = bc_new 32"
proof -
  obtain t where frame: "handle_frame bc_try_send all_written 0 (demo_message ''m1'') demo_task = Some (t, Continue)"
    and pend: "pending (shared t) = [(''1'', [demo_pending ''m1''])]"
    using demo_delivered by blast
  have k: "session t = 0" "outbound_tx (shared t) = bc_new 32"
    using keeps_frame [OF frame]
    by (simp_all add: keeps_def demo_task_def task_new_def one_sub_conn_def register_def Let_def
        fresh_conn_def conn_new_def)
  have frame': "handle_frame bc_try_send all_written 0 (demo_message ''m1'') (tk demo_running) = Some (t, Continue)"
    using frame by (simp add: demo_running_def)
  have "phase demo_running = Running" by (simp add: demo_running_def)
  then obtain rec off where run: "sys_runs bc_try_send bc_try_send bc_recv bc_rx all_written bc_new demo_running
      (demo_running\<lparr>tk := t, phase := after_flow Continue, recorded := rec, offered := off\<rparr>)" (is "sys_runs _ _ _ _ _ _ _ ?S")
    using frame_runs [OF _ demo_memory frame'] by blast
  have "demo_reachable ?S" by (rule reachable_run [OF run demo_running_reachable])
  with pend k show ?thesis by (intro exI [of _ ?S]) (simp add: after_flow_def)
qed

lemma demo_ack_reachable:
  "\<exists>S. demo_reachable S \<and> (0, ack_frame_of ''ACK'' ''ack-m1'' ''1'') \<in> acked S"
proof -
  let ?ack = "AckOut (ack_frame_of ''ACK'' ''ack-m1'' ''1'') 0"
  obtain S where S: "demo_reachable S" "phase S = Running" "session (tk S) = 0"
    and pend: "pending (shared (tk S)) = [(''1'', [demo_pending ''m1''])]"
    and q: "outbound_tx (shared (tk S)) = bc_new 32"
    using demo_recorded_reachable by blast
  have settle: "settle_pending Client ''1'' ''m1'' (pending (shared (tk S))) = (Some (demo_pending ''m1''), [])"
    by (simp add: pend settle_pending_def settle_queue_def find_pending_def demo_pending_def
        pending_message_new_def)
  obtain S2 where S2: "demo_reachable S2" "inflight S2 = inflight S @ ?ack # []" "phase S2 = Running"
    "session (tk S2) = 0" "outbound_tx (shared (tk S2)) = bc_new 32"
    using reachable.Step [OF S(1) sys_step.Settle [OF settle, of _ _ _ _ _ _ "''ACK''"]] S(2,3) q
    by (fastforce simp: with_shared_def demo_pending_def pending_message_new_def)
  let ?q = "\<lparr>bc_buf = [?ack], bc_cap = 32, bc_closed = False\<rparr>"
  have send: "bc_try_send (outbound_tx (shared (tk S2))) ?ack = (Sent, ?q)"
    by (simp add: S2(5) bc_try_send_def bc_new_def)
  obtain S3 where S3: "demo_reachable S3" "phase S3 = Running" "session (tk S3) = 0"
    "outbound_tx (shared (tk S3)) = ?q"
    using reachable.Step [OF S2(1) sys_step.Enqueue [where tso = bc_try_send, OF S2(2) send]] S2(3,4)
    by (fastforce simp: with_shared_def)
  have recv: "bc_recv (outbound_tx (shared (tk S3))) = Some (?ack, ?q\<lparr>bc_buf := []\<rparr>)"
    by (simp add: S3(4) bc_recv_def)
  obtain t fl where out: "handle_outbound all_written 0 ?ack
      ((tk S3)\<lparr>shared := (shared (tk S3))\<lparr>outbound_tx := ?q\<lparr>bc_buf := []\<rparr>\<rparr>\<rparr>) = (t, fl)"
    by fastforce
  have "length (wire (tk S3)) < length (wire t)"
    using out S3(3)
    by (auto simp: handle_outbound_def writable_in_def write_item_def ack_frame_of_def Let_def)
  then have "(0, ack_frame_of ''ACK'' ''ack-m1'' ''1'') \<in> ack_written ?ack (tk S3) t"
    using S3(3) by (simp add: ack_written_def)
  with reachable.Step [OF S3(1) sys_step.Outbound [where tro = bc_recv and wok = all_written, OF S3(2) recv out]]
  show ?thesis by fastforce
qed

end
