(* ===== verification/Stomp_Traffic.thy ===== *)
theory Stomp_Traffic
  imports Stomp_System
begin

text \<open>
  End to end: what the receiver of a subscription took from its channel, what waits in the channel
  and what is parked behind it are together, in order, the messages the task offered it. An
  invariant of every reachable state of the connection.
\<close>

section \<open>The invariant\<close>

text \<open>
  For every registered subscription whose receiver is there, nothing is lost, doubled or reordered;
  for every channel, of a subscription that ended too, nothing is doubled or reordered and only the
  end is missing. A channel not handed out yet has no history.
\<close>

definition traffic_inv ::
  "('c \<Rightarrow> frame list) \<Rightarrow> ('c \<Rightarrow> bool) \<Rightarrow> ('c, 'q) task \<Rightarrow> (chan_id \<Rightarrow> frame list) \<Rightarrow>
   (chan_id \<Rightarrow> frame list) \<Rightarrow> bool" where
  "traffic_inv queued rx_closed t g off \<longleftrightarrow>
     (\<forall>e\<in>set (entries (subscriptions (shared t))). \<not> rx_closed (chans (shared t) (sub_sender e)) \<longrightarrow>
        off (sub_sender e) =
          g (sub_sender e) @ queued (chans (shared t) (sub_sender e)) @ ov_queue (sub_overflow e)) \<and>
     (\<forall>a. 0 < a \<and> a < next_chan (shared t) \<and> \<not> rx_closed (chans (shared t) a) \<longrightarrow>
        prefix (g a @ queued (chans (shared t) a)) (off a)) \<and>
     (\<forall>a \<ge> next_chan (shared t). g a = [] \<and> off a = [])"

text \<open>A step that leaves the channels of subscriptions alone, and at most ends some.\<close>

definition calm :: "('c, 'q) task \<Rightarrow> ('c, 'q) task \<Rightarrow> bool" where
  "calm t t' \<longleftrightarrow>
     next_chan (shared t') = next_chan (shared t) \<and>
     (\<forall>a. a \<noteq> inbound_chan \<longrightarrow> chans (shared t') a = chans (shared t) a) \<and>
     set (entries (subscriptions (shared t'))) \<subseteq> set (entries (subscriptions (shared t)))"

lemma entry_sender:
  assumes "task_inv t" and "e \<in> set (entries (subscriptions (shared t)))"
  shows "0 < sub_sender e" "sub_sender e < next_chan (shared t)"
  using assms by (auto simp: task_inv_def reg_inv_def entry_ok_def)

lemma entry_unique:
  assumes "task_inv t" and "e \<in> set (entries (subscriptions (shared t)))"
    and "x \<in> set (entries (subscriptions (shared t)))" and "sub_sender x = sub_sender e"
  shows "x = e"
  using assms by (auto simp: task_inv_def reg_inv_def all_distinct_def distinct_map dest: inj_onD)

lemma traffic_calm:
  assumes inv: "traffic_inv queued rx_closed t g off" and T: "task_inv t" and calm: "calm t t'"
  shows "traffic_inv queued rx_closed t' g off"
proof -
  have same: "chans (shared t') a = chans (shared t) a" if "0 < a" for a
    using calm that by (simp add: calm_def inbound_chan_def)
  have "chans (shared t') (sub_sender e) = chans (shared t) (sub_sender e)" "e \<in> set (entries (subscriptions (shared t)))"
    if "e \<in> set (entries (subscriptions (shared t')))" for e
    using that calm entry_sender [OF T] same by (auto simp: calm_def)
  then show ?thesis
    using inv same calm by (auto simp: traffic_inv_def calm_def)
qed

lemma calmI:
  assumes "next_chan (shared t') = next_chan (shared t)" "chans (shared t') = chans (shared t)"
    and "subscriptions (shared t') = subscriptions (shared t)"
  shows "calm t t'"
  using assms by (simp add: calm_def)

lemma calm_quiet: "quiet t t' \<Longrightarrow> calm t t'"
  by (simp add: quiet_def calm_def Let_def)

lemma calm_trans: "calm t t' \<Longrightarrow> calm t' t'' \<Longrightarrow> calm t t''"
  by (auto simp: calm_def)

lemma calm_refl: "calm t t"
  by (simp add: calm_def)

lemma calm_deregister:
  assumes "task_inv t"
  shows "calm t (t\<lparr>shared := snd (deregister sid (shared t))\<rparr>)"
  using assms by (auto simp: calm_def deregister_eq task_inv_def)

lemma calm_best_effort:
  assumes "task_inv t"
  shows "calm t (t\<lparr>shared := unsubscribe_best_effort tso a b sid (shared t)\<rparr>)"
  using assms
  by (auto simp: calm_def deregister_eq task_inv_def unsubscribe_best_effort_def forget_pending_def Let_def)

lemma calm_abandon:
  assumes "task_inv t"
  shows "calm t (abandon ts f sid dest n t)"
proof (cases "hm_get (subscriptions (shared t)) dest")
  case None
  then show ?thesis by (simp add: abandon_def calm_refl Let_def)
next
  case (Some v)
  have "reg_inv (shared t)" using assms by (simp add: task_inv_def)
  then obtain ids where "abandon ts f sid dest n t =
    forward ts (abandon_frame n dest)
      (t\<lparr>shared := (shared t)\<lparr>
           subscriptions := retain_entries (\<lambda>e. e \<notin> set v) (subscriptions (shared t)),
           cells := end_all v (Abandoned (unwrap_or [] (get_header f ''message''))) (cells (shared t))\<rparr>,
         abandoned_ids := ids\<rparr>)"
    using abandon_result [OF _ Some] by metis
  then show ?thesis by (auto simp: calm_def forward_def on_shared_def)
qed

lemma calm_forward: "calm t' t \<Longrightarrow> calm t' (forward ts f t)"
  by (simp add: calm_def forward_def on_shared_def)

lemma calm_sections:
  assumes "task_inv t"
  shows "calm t (record_section f ids t)" "calm t (sweep_section live t)"
    "calm t (error_settle f (t\<lparr>last_received := now\<rparr>))" "calm t (error_count ts f sid dest t)"
    "calm t (replay_section wok t)" "calm t (loop_top t)" "calm t (handle_heartbeat notify now t)"
    "calm t (failed_attempt t)" "calm t (end_session lasted t)" "calm t (end_task t)"
    "calm t (on_shared (forget_pending i) t)"
proof -
  have "calm t (abandon ts f sid d n (t\<lparr>sub_errors := se\<rparr>))" for d n se
    using calm_abandon [of "t\<lparr>sub_errors := se\<rparr>"] assms by (simp add: calm_def)
  then show "calm t (error_count ts f sid dest t)"
    by (cases dest) (auto simp: error_count_def Let_def calm_refl intro!: calm_forward, simp add: calm_def)
  show "calm t (replay_section wok t)"
    unfolding replay_section_def by (rule calm_quiet [OF write_all_quiet [THEN conjunct1]])
  show "calm t (end_task t)" by (simp add: calm_def end_task_def on_shared_def)
qed (auto intro!: calmI simp: record_section_def sweep_section_def error_settle_def settle_receipt_def
      loop_top_def handle_heartbeat_def failed_attempt_def end_session_def forget_pending_def on_shared_def
      Let_def split: option.split)

lemma calm_fail: "fail_section ts wok now f ovs d t = (t', fl) \<Longrightarrow> calm t t'"
proof -
  assume fail: "fail_section ts wok now f ovs d t = (t', fl)"
  obtain t2 fl2 where fo: "fail_overflowed ts wok now ovs t = (t2, fl2)" by fastforce
  have "calm t t2" using fail_overflowed_result [OF fo] calm_quiet by blast
  moreover have "t' = t2 \<or> t' = forward ts f t2"
    using fail fo by (auto simp: fail_section_def split: flow.splits if_splits)
  ultimately show ?thesis using calm_forward by blast
qed

lemma calm_outbound: "handle_outbound wok now out t = (t', fl) \<Longrightarrow> calm t t'"
  by (auto simp: handle_outbound_def calm_def write_item_def Let_def on_shared_def forget_pending_def
      split: option.splits stomp_item.splits if_splits)

lemma calm_hb_tick: "handle_hb_tick wok now si t = (t', fl) \<Longrightarrow> calm t t'"
  by (auto simp: handle_hb_tick_def calm_def write_item_def split: option.splits if_splits)

lemma calm_other_frame:
  assumes "command f \<noteq> ''MESSAGE''" "command f \<noteq> ''ERROR''" and "handle_frame ts wok now f t = Some (t', fl)"
  shows "calm t t'"
proof -
  let ?t = "t\<lparr>last_received := now\<rparr>"
  have "t' = on_shared (settle_receipt f (Inr ())) ?t \<or> t' = forward ts f ?t"
    using assms by (auto simp: handle_frame_def handle_receipt_def Let_def split: if_splits)
  then show ?thesis
    by (auto simp: calm_def on_shared_def settle_receipt_def forward_def split: option.splits)
qed

section \<open>The start of a session\<close>

lemma withdraw_entry:
  assumes T: "task_inv t" and e: "e \<in> set (entries (subscriptions (shared t)))"
  shows "withdraw t log (sub_sender e) =
    (if sub_ack e \<noteq> Auto
     then take (length (log (sub_sender e)) - length (ov_queue (sub_overflow e))) (log (sub_sender e))
     else log (sub_sender e))"
proof -
  let ?P = "\<lambda>x. sub_sender x = sub_sender e \<and> sub_ack x \<noteq> Auto"
  show ?thesis
  proof (cases "List.find ?P (entries (subscriptions (shared t)))")
    case None
    then have "\<not> ?P e" using e by (auto simp: find_None_iff)
    then show ?thesis using None by (simp add: withdraw_def)
  next
    case (Some x)
    then have "x \<in> set (entries (subscriptions (shared t)))" "?P x"
      by (auto simp: find_Some_iff)
    then have "x = e" "sub_ack e \<noteq> Auto" using entry_unique [OF T e] by auto
    then show ?thesis using Some by (simp add: withdraw_def)
  qed
qed

lemma withdraw_other:
  assumes "a \<notin> sub_sender ` set (entries (subscriptions (shared t)))"
  shows "withdraw t log a = log a"
proof -
  have "List.find (\<lambda>e. sub_sender e = a \<and> sub_ack e \<noteq> Auto) (entries (subscriptions (shared t))) = None"
    using assms by (auto simp: find_None_iff)
  then show ?thesis by (simp add: withdraw_def)
qed

lemma discard_parked_fields [simp]:
  "sub_sender (discard_parked e) = sub_sender e"
  "ov_queue (sub_overflow (discard_parked e)) = (if sub_ack e \<noteq> Auto then [] else ov_queue (sub_overflow e))"
  by (simp_all add: discard_parked_def reset_warnings_def)

lemma traffic_discard:
  assumes inv: "traffic_inv queued rx_closed t g off" and T: "task_inv t"
  shows "traffic_inv queued rx_closed (discard_section now t) g (withdraw t off)"
proof -
  let ?t = "discard_section now t" and ?es = "entries (subscriptions (shared t))"
  have fields: "chans (shared ?t) = chans (shared t)" "next_chan (shared ?t) = next_chan (shared t)"
    "entries (subscriptions (shared ?t)) = map discard_parked ?es"
    by (simp_all add: discard_section_def on_shared_def entries_map Let_def)
  have live: "off (sub_sender e) =
      g (sub_sender e) @ queued (chans (shared t) (sub_sender e)) @ ov_queue (sub_overflow e)"
    if "e \<in> set ?es" "\<not> rx_closed (chans (shared t) (sub_sender e))" for e
    using inv that by (simp add: traffic_inv_def)
  have now: "withdraw t off (sub_sender e) = g (sub_sender e) @ queued (chans (shared t) (sub_sender e)) @
      ov_queue (sub_overflow (discard_parked e))"
    if "e \<in> set ?es" "\<not> rx_closed (chans (shared t) (sub_sender e))" for e
    using live [OF that] that(1) by (simp add: withdraw_entry [OF T])
  have pre: "prefix (g a @ queued (chans (shared t) a)) (withdraw t off a)"
    if a: "0 < a" "a < next_chan (shared t)" "\<not> rx_closed (chans (shared t) a)" for a
  proof (cases "a \<in> sub_sender ` set ?es")
    case True
    then show ?thesis using now a(3) by auto
  next
    case False
    then show ?thesis using inv a by (simp add: withdraw_other traffic_inv_def)
  qed
  have "withdraw t off a = off a" if "a \<ge> next_chan (shared t)" for a
    using that entry_sender [OF T] by (intro withdraw_other) fastforce
  then show ?thesis
    using inv now pre by (auto simp: traffic_inv_def fields)
qed

section \<open>Registering, receiving\<close>

lemma traffic_register:
  assumes inv: "traffic_inv queued rx_closed t g off" and T: "task_inv t"
    and reg: "register mk d a hs cap lim (shared t) = (e, s)" and fresh: "\<And>n. queued (mk n) = []"
  shows "traffic_inv queued rx_closed (t\<lparr>shared := s\<rparr>) g off"
proof -
  have "reg_inv (shared t)" using T by (simp add: task_inv_def)
  then have ents: "set (entries (subscriptions s)) = insert e (set (entries (subscriptions (shared t))))"
    using register_inv(2) [OF _ reg] by (metis set_mset_add_mset_insert set_mset_mset)
  have e: "sub_sender e = next_chan (shared t)" "ov_queue (sub_overflow e) = []"
    "chans s = (chans (shared t))(next_chan (shared t) := mk (max cap 1))" "next_chan s = Suc (next_chan (shared t))"
    using reg by (auto simp: register_def Let_def overflow_new_def)
  have "sub_sender x \<noteq> next_chan (shared t)" if "x \<in> set (entries (subscriptions (shared t)))" for x
    using entry_sender(2) [OF T that] by simp
  then show ?thesis
    using inv by (auto simp: traffic_inv_def ents e fresh less_Suc_eq)
qed

lemma traffic_receive:
  assumes inv: "traffic_inv queued rx_closed t g off" and a: "a < next_chan (shared t)"
    and c: "queued (chans (shared t) a) = f # queued c" "rx_closed c = rx_closed (chans (shared t) a)"
  shows "traffic_inv queued rx_closed (t\<lparr>shared := (shared t)\<lparr>chans := (chans (shared t))(a := c)\<rparr>\<rparr>)
    (g(a := g a @ [f])) off"
  using assms by (auto simp: traffic_inv_def)

lemma traffic_drop:
  assumes inv: "traffic_inv queued rx_closed t g off" and "rx_closed c"
  shows "traffic_inv queued rx_closed (t\<lparr>shared := (shared t)\<lparr>chans := (chans (shared t))(a := c)\<rparr>\<rparr>) g off"
  using assms by (auto simp: traffic_inv_def)

context frame_channel
begin

section \<open>A delivery pass\<close>

lemma traffic_deliver:
  assumes inv: "traffic_inv queued rx_closed t g off" and T: "task_inv t" and mem: "memory_ok t"
    and del: "deliver_section ts f t = Some (t', live, ovs, d)"
  shows "traffic_inv queued rx_closed t' g (offer f t off)"
proof -
  let ?es = "entries (subscriptions (shared t))" and ?cs = "chans (shared t)"
  obtain m lv p where
    pass: "deliver_pass ts f (msg_of f) (subscriptions (shared t)) (message_pass t) = Some (m, lv, p)"
    and ents: "entries m = delivered_entries ts f ?cs (targets f t) ?es"
    and res: "pass_result ts f ?cs (filter (targets f t) ?es) (message_pass t) p"
    using after_pass_result [OF T mem, of f] by blast
  have t': "subscriptions (shared t') = m" "chans (shared t') = ps_chans p" "next_chan (shared t') = next_chan (shared t)"
    using del pass by (auto simp: deliver_section_def)
  have small: "entry_small e" if "e \<in> set ?es" for e
    using that T mem by (simp add: task_inv_def reg_inv_def entry_ok_def entry_small_def memory_ok_def)
  have hit: "offer f t off (sub_sender e) = off (sub_sender e) @ [f]" "ps_chans p (sub_sender e) = dk_chan ts f ?cs e"
    if "e \<in> set ?es" "targets f t e" for e
    using that pass_chan [OF res] by (auto simp: offer_def)
  have miss: "offer f t off a = off a" "ps_chans p a = ?cs a"
    if "\<forall>e\<in>set ?es. sub_sender e = a \<longrightarrow> \<not> targets f t e" for a
    using that pass_chan_other [OF res, rule_format, of a] by (auto simp: offer_def message_pass_def)
  have miss_entry: "\<forall>x\<in>set ?es. sub_sender x = sub_sender e \<longrightarrow> \<not> targets f t x"
    if "e \<in> set ?es" "\<not> targets f t e" for e
    using that entry_unique [OF T] by metis
  have live: "off (sub_sender e) = g (sub_sender e) @ queued (?cs (sub_sender e)) @ ov_queue (sub_overflow e)"
    if "e \<in> set ?es" "\<not> rx_closed (?cs (sub_sender e))" for e
    using inv that by (simp add: traffic_inv_def)
  have T1: "offer f t off (sub_sender e') = g (sub_sender e') @ queued (ps_chans p (sub_sender e')) @ ov_queue (sub_overflow e')"
    if e': "e' \<in> set (entries m)" "\<not> rx_closed (ps_chans p (sub_sender e'))" for e'
  proof -
    obtain e where e: "e \<in> set ?es" "targets f t e \<longrightarrow> dk_outcome ts f ?cs e = Taken"
      "e' = (if targets f t e then dk_entry ts f ?cs e else e)"
      using e'(1) by (auto simp: ents delivered_processed in_processed)
    show ?thesis
    proof (cases "targets f t e")
      case True
      have place: "sub_sender e' = sub_sender e" using e True dk_keeps [OF small [OF e(1)]] by simp
      from small [OF e(1)] show ?thesis
      proof (cases rule: dk_cases [where f = f and cs = ?cs])
        case (Taken ov)
        then show ?thesis
          using e(3) e'(2) True place hit [OF e(1) True] live [OF e(1)] by simp
      qed (use e(2) True in simp_all)
    next
      case False
      then show ?thesis using e e' live [OF e(1)] miss [OF miss_entry [OF e(1) False]] by simp
    qed
  qed
  have T3: "prefix (g a @ queued (ps_chans p a)) (offer f t off a)"
    if a: "0 < a" "a < next_chan (shared t)" "\<not> rx_closed (ps_chans p a)" for a
  proof (cases "\<exists>e\<in>set ?es. sub_sender e = a \<and> targets f t e")
    case True
    then obtain e where e: "e \<in> set ?es" "sub_sender e = a" "targets f t e" by blast
    have chan: "ps_chans p a = dk_chan ts f ?cs e" using hit(2) [OF e(1,3)] e(2) by simp
    from small [OF e(1)] show ?thesis
    proof (cases rule: dk_cases [where f = f and cs = ?cs])
      case (Taken ov)
      then have "offer f t off a = (g a @ queued (ps_chans p a)) @ ov_queue ov"
        using a(3) live [OF e(1)] hit [OF e(1,3)] e(2) chan by simp
      then show ?thesis by (metis prefixI)
    next
      case (Dead ov)
      then show ?thesis using a(3) chan e(2) by simp
    next
      case (Overflowed ov)
      then have "offer f t off a = (g a @ queued (ps_chans p a)) @ ov_queue ov @ [f]"
        using a(3) live [OF e(1)] hit [OF e(1,3)] e(2) chan by simp
      then show ?thesis by (metis prefixI)
    qed
  next
    case False
    then show ?thesis using miss [of a] a inv by (auto simp: traffic_inv_def)
  qed
  have "offer f t off a = off a" if "a \<ge> next_chan (shared t)" for a
    using that entry_sender(2) [OF T] by (intro miss(1)) force
  then show ?thesis
    using T1 T3 inv by (auto simp: traffic_inv_def t')
qed

section \<open>Room in a parked channel\<close>

lemma drain_same:
  assumes "drain_section ts sid t = (t', closed)"
  shows "subscriptions (shared t') = subscriptions (shared (handle_parked ts sid t))"
    "chans (shared t') = chans (shared (handle_parked ts sid t))"
    "next_chan (shared t') = next_chan (shared t)"
  using assms
  by (auto simp: parked_sections on_shared_def forget_pending_def)
    (auto simp: drain_section_def on_shared_def Let_def split: prod.splits)

lemma traffic_drain:
  assumes inv: "traffic_inv queued rx_closed t g off" and T: "task_inv t"
    and drain: "drain_section ts sid t = (t', closed)"
  shows "traffic_inv queued rx_closed t' g off"
proof (cases "sid \<in> sub_id ` set (entries (subscriptions (shared t)))")
  case False
  then have "handle_parked ts sid t = t\<lparr>parked := prune_parked (parked t) (subscriptions (shared t))\<rparr>"
    using T drop_empty_id [of "subscriptions (shared t)"]
    by (simp add: handle_parked_def drain_map_other on_shared_def task_inv_def reg_inv_def Let_def)
  then have "calm t t'" by (intro calmI) (simp_all add: drain_same [OF drain])
  then show ?thesis by (rule traffic_calm [OF inv T])
next
  case True
  then obtain e where e: "e \<in> set (entries (subscriptions (shared t)))" "sub_id e = sid" by auto
  let ?c = "chans (shared t) (sub_sender e)"
  have ov: "ov_inv (sub_overflow e)" using e T by (auto simp: task_inv_def reg_inv_def entry_ok_def)
  have others: "sub_sender x \<noteq> sub_sender e" if "x \<in> set (entries (subscriptions (shared t)))" "sub_id x \<noteq> sid" for x
    using that e entry_unique [OF T e(1) that(1)] by auto
  from ov show ?thesis
  proof (cases rule: drain_overflow_cases [of e ?c])
    case (Alive sent ov' c')
    note eff = parked_effect [OF T e Alive(1), simplified]
    have live: "\<not> rx_closed ?c \<Longrightarrow> off (sub_sender e) = g (sub_sender e) @ queued c' @ ov_queue ov'"
      using inv e(1) Alive(2,3) by (simp add: traffic_inv_def)
    then have pre: "\<not> rx_closed ?c \<Longrightarrow> prefix (g (sub_sender e) @ queued c') (off (sub_sender e))"
      by (metis append_assoc prefixI)
    show ?thesis
      using inv live pre Alive(4) others
      by (auto simp: traffic_inv_def drain_same [OF drain] eff in_processed)
  next
    case (Dead ov')
    note eff = parked_effect [OF T e Dead(1), simplified]
    have "calm t t'"
      by (auto simp: calm_def drain_same [OF drain] eff in_processed)
    then show ?thesis by (rule traffic_calm [OF inv T])
  qed
qed

end

section \<open>Every reachable state\<close>

text \<open>The channels of the connection, and that a new channel is empty.\<close>

locale connection_traffic =
  connection_channels ts queued rx_closed tso out_queued task_gone tro rx
  for ts :: "'c \<Rightarrow> frame \<Rightarrow> frame try_send_result \<times> 'c"
    and queued :: "'c \<Rightarrow> frame list"
    and rx_closed :: "'c \<Rightarrow> bool"
    and tso :: "'q \<Rightarrow> outbound \<Rightarrow> outbound try_send_result \<times> 'q"
    and out_queued :: "'q \<Rightarrow> outbound list"
    and task_gone :: "'q \<Rightarrow> bool"
    and tro :: "'q \<Rightarrow> (outbound \<times> 'q) option"
    and rx :: "'c \<Rightarrow> frame option \<Rightarrow> 'c \<Rightarrow> bool" +
  fixes mk :: "nat \<Rightarrow> 'c"
  assumes mk_empty: "queued (mk n) = []"
begin

abbreviation traffic :: "('c, 'q) sys \<Rightarrow> bool" where
  "traffic S \<equiv> traffic_inv queued rx_closed (tk S) (got S) (offered S)"

lemma traffic_quiet_step:
  assumes "traffic S" and "task_inv (tk S)" and "calm (tk S) (tk S')" and "got S' = got S" "offered S' = offered S"
  shows "traffic S'"
  using traffic_calm [OF assms(1-3)] assms(4,5) by simp

lemma traffic_step:
  assumes inv: "traffic S" and T: "task_inv (tk S)" and step: "sys_step ts tso tro rx wok mk S S'"
  shows "traffic S'"
  using step
proof cases
  case (Register d a hs cap lim e s)
  show ?thesis using traffic_register [OF inv T Register(2) mk_empty] by (simp add: Register(1) with_shared_def)
next
  case (Receive a f c)
  show ?thesis
    using traffic_receive [OF inv Receive(2)] rx_Some [OF Receive(3)] by (simp add: Receive(1) with_shared_def)
next
  case (DropReceiver a c)
  show ?thesis
    using traffic_drop [OF inv rx_None [OF DropReceiver(3)]] by (simp add: DropReceiver(1) with_shared_def)
next
  case (Deliver f t live ovs d)
  show ?thesis using traffic_deliver [OF inv T Deliver(3,4)] by (simp add: Deliver(1))
next
  case (Parked sid t closed)
  show ?thesis using traffic_drain [OF inv T Parked(4)] by (simp add: Parked(1))
next
  case (Start now)
  show ?thesis using traffic_discard [OF inv T] by (simp add: Start(1))
next
  case (Reconnected now)
  show ?thesis using traffic_discard [OF inv T] by (simp add: Reconnected(1))
next
  case (Deregister sid)
  show ?thesis
    by (rule traffic_quiet_step [OF inv T]) (simp_all add: Deregister with_shared_def calm_deregister [OF T])
next
  case (BestEffort a b sid)
  show ?thesis
    by (rule traffic_quiet_step [OF inv T]) (simp_all add: BestEffort with_shared_def calm_best_effort [OF T])
next
  case (Outbound out q now t fl)
  have "calm (tk S) t" using calm_outbound [OF Outbound(4)] by (simp add: calm_def)
  then show ?thesis by (intro traffic_quiet_step [OF inv T]) (simp_all add: Outbound(1))
next
  case (Fail f ovs d now t fl)
  show ?thesis by (rule traffic_quiet_step [OF inv T]) (simp_all add: Fail(1) calm_fail [OF Fail(3)])
next
  case (Inbound f now t fl)
  show ?thesis
    by (rule traffic_quiet_step [OF inv T]) (simp_all add: Inbound(1) calm_other_frame [OF Inbound(3-5)])
next
  case (Tick now si t fl)
  show ?thesis by (rule traffic_quiet_step [OF inv T]) (simp_all add: Tick(1) calm_hb_tick [OF Tick(3)])
next
  case (Refused f sid t now)
  show ?thesis
    by (rule traffic_quiet_step [OF inv T]) (simp_all add: Refused(1,5) calm_sections [OF T])
next
  case (Record f ids t)
  show ?thesis by (rule traffic_quiet_step [OF inv T]) (simp_all add: Record(1,3) calm_sections [OF T])
qed (rule traffic_quiet_step [OF inv T];
    use calm_sections [OF T] in \<open>simp add: calm_def with_shared_def forget_pending_def registered_def\<close>)+

lemma traffic_reachable:
  assumes "reachable ts tso tro rx wok mk q0 S" and "out_queued q0 = []"
  shows "traffic S"
  using assms(1)
proof (induction rule: reachable.induct)
  case (Init now cs)
  show ?case by (simp add: traffic_inv_def sys_new_def task_new_def conn_new_def)
next
  case (Step S S')
  show ?case
    by (rule traffic_step [OF Step.IH _ Step.hyps(2)]) (rule sys_invD(1) [OF reachable_inv [OF Step.hyps(1) assms(2)]])
qed

end

interpretation bounded_traffic: connection_traffic
  bc_try_send bc_buf bc_closed bc_try_send bc_buf bc_closed bc_recv bc_rx bc_new
  by unfold_locales (simp add: bc_new_def)

end
