(* ===== verification/Stomp_Subscribed.thy ===== *)
theory Stomp_Subscribed
  imports Stomp_System
begin

text \<open>
  Registered means subscribed: while the task is connected, the SUBSCRIBE of every entry of the
  registry was written in this session, or is on its way, or was given up by its caller, or was
  refused by the socket. An invariant of every reachable state of the connection, and what it does
  not say: that the SUBSCRIBE was written only once.
\<close>

section \<open>What a replay would write\<close>

definition sub_key :: "sub_entry \<Rightarrow> string \<times> ack_mode \<times> (string \<times> string) list" where
  "sub_key e = (sub_id e, sub_ack e, sub_hdrs e)"

lemma snapshot_simps [simp]:
  "set (resub_snapshot []) = {}"
  "set (resub_snapshot ((d, v) # m)) = Pair d ` sub_key ` set v \<union> set (resub_snapshot m)"
  by (auto simp: resub_snapshot_def sub_key_def)

lemma in_snapshot: "x \<in> set (resub_snapshot m) \<longleftrightarrow> (\<exists>d v e. (d, v) \<in> set m \<and> e \<in> set v \<and> x = (d, sub_key e))"
  by (induction m) (auto, blast+)

lemma frames_mono:
  "set (resub_snapshot m') \<subseteq> set (resub_snapshot m) \<Longrightarrow> set (resubscribe_frames m') \<subseteq> set (resubscribe_frames m)"
  unfolding resubscribe_frames_def set_map by (rule image_mono)

lemma snapshot_subset: "set m' \<subseteq> set m \<Longrightarrow> set (resub_snapshot m') \<subseteq> set (resub_snapshot m)"
  unfolding subset_iff in_snapshot by blast

lemma snapshot_retain: "set (resub_snapshot (retain_entries keep m)) \<subseteq> set (resub_snapshot m)"
  by (induction m) (auto simp: retain_entries_def simp del: subset_iff split_paired_All)

lemma snapshot_drop_empty: "set (resub_snapshot (drop_empty m)) \<subseteq> set (resub_snapshot m)"
  by (rule snapshot_subset) (auto simp: drop_empty_def)

lemma snapshot_discard:
  "set (resub_snapshot (map (\<lambda>(d, v). (d, map discard_parked v)) m)) = set (resub_snapshot m)"
proof -
  have "sub_key (discard_parked e) = sub_key e" for e
    by (simp add: sub_key_def discard_parked_def)
  then show ?thesis by (induction m) (auto simp: image_image)
qed

lemma update_subset: "x \<in> set (hm_insert k v m) \<Longrightarrow> x = (k, v) \<or> x \<in> set m"
  by (induction m) (auto split: if_splits)

lemma snapshot_insert:
  assumes "hm_get m d = Some v" and "sub_key ` set v' \<subseteq> sub_key ` set v"
  shows "set (resub_snapshot (hm_insert d v' m)) \<subseteq> set (resub_snapshot m)"
proof
  fix x assume "x \<in> set (resub_snapshot (hm_insert d v' m))"
  then obtain d0 v0 e where x: "(d0, v0) \<in> set (hm_insert d v' m)" "e \<in> set v0" "x = (d0, sub_key e)"
    by (auto simp: in_snapshot)
  from update_subset [OF x(1)] show "x \<in> set (resub_snapshot m)"
  proof
    assume "(d0, v0) = (d, v')"
    then obtain e' where "e' \<in> set v" "sub_key e = sub_key e'" using x(2) assms(2) by auto
    then show ?thesis
      using map_of_SomeD [OF assms(1)] x(3) \<open>(d0, v0) = (d, v')\<close> by (auto simp: in_snapshot)
  qed (use x in \<open>auto simp: in_snapshot\<close>)
qed

lemma drain_overflow_key: "drain_overflow ts e c = (alive, e', c') \<Longrightarrow> sub_key e' = sub_key e"
  by (auto simp: drain_overflow_def sub_key_def Let_def split: prod.splits)

lemma park_key: "park e f = Some (ok, e') \<Longrightarrow> sub_key e' = sub_key e"
  by (auto simp: park_def sub_key_def Let_def split: option.splits if_splits)

lemma deliver_and_keep_key: "deliver_and_keep ts e f c = Some (r, e', c') \<Longrightarrow> sub_key e' = sub_key e"
  by (auto simp: deliver_and_keep_def park_outcome_def
      dest!: drain_overflow_key park_key split: prod.splits bool.splits try_send_result.splits option.splits if_splits)

lemma deliver_entry_key: "deliver_entry ts f d e p = Some (k, e', p') \<Longrightarrow> sub_key e' = sub_key e"
  by (auto simp: deliver_entry_def Let_def split: option.splits prod.splits dest!: deliver_and_keep_key)

lemma deliver_vec_key: "deliver_vec ts f sel d v p = Some (v', p') \<Longrightarrow> sub_key ` set v' \<subseteq> sub_key ` set v"
proof (induction ts f sel d v p arbitrary: v' p' rule: deliver_vec.induct)
  case (2 ts f sel d e es p)
  then show ?case by (auto split: if_splits option.splits dest!: deliver_entry_key) blast+
qed simp

lemma deliver_map_snapshot:
  "deliver_map ts f sel m p = Some (m', p') \<Longrightarrow> set (resub_snapshot m') \<subseteq> set (resub_snapshot m)"
proof (induction ts f sel m p arbitrary: m' p' rule: deliver_map.induct)
  case (2 ts f sel d v m p)
  obtain v' q m2 where v: "deliver_vec ts f sel d v p = Some (v', q)" "m' = (d, v') # m2"
    "deliver_map ts f sel m q = Some (m2, p')"
    using 2(2) by (auto split: option.splits)
  show ?case
    using deliver_vec_key [OF v(1)] 2(1) [OF v(1) refl v(3)] unfolding v(2) snapshot_simps by blast
qed simp

lemma deliver_pass_snapshot:
  assumes "deliver_pass ts f h m p = Some (m', live, p')"
  shows "set (resub_snapshot m') \<subseteq> set (resub_snapshot m)"
proof (cases "mh_sub h")
  case (Some sid)
  then obtain m2 where "deliver_map ts f (\<lambda>e. sub_id e = sid) m p = Some (m2, p')" "m' = drop_empty m2"
    using assms by (auto simp: deliver_pass_def)
  then show ?thesis using snapshot_drop_empty deliver_map_snapshot by blast
next
  case None
  show ?thesis
  proof (cases "mh_dest h")
    case (Some d)
    show ?thesis
    proof (cases "hm_get m d")
      case v: (Some v)
      then obtain v' where v': "deliver_vec ts f (\<lambda>_. True) d v p = Some (v', p')"
        "m' = (if v' = [] then hm_remove d m else hm_insert d v' m)"
        using assms None Some by (auto simp: deliver_pass_def Let_def)
      show ?thesis
        using snapshot_insert [OF v deliver_vec_key [OF v'(1)]] snapshot_subset [of "hm_remove d m" m]
        by (auto simp: v'(2) dest!: hm_remove_subset)
    qed (use assms None Some in \<open>simp add: deliver_pass_def\<close>)
  qed (use assms None in \<open>simp add: deliver_pass_def\<close>)
qed

lemma drain_vec_key: "drain_vec ts sid v b cs = (v', r) \<Longrightarrow> sub_key ` set v' \<subseteq> sub_key ` set v"
proof (induction ts sid v b cs arbitrary: v' r rule: drain_vec.induct)
  case (2 ts sid e es b cs)
  obtain alive e' c where d: "drain_overflow ts e (cs (sub_sender e)) = (alive, e', c)" by (metis prod_cases3)
  obtain es1 r1 where r1: "drain_vec ts sid es b cs = (es1, r1)" by (rule prod.exhaust)
  obtain es2 r2 where r2: "drain_vec ts sid es (\<not> alive) (cs(sub_sender e := c)) = (es2, r2)"
    by (rule prod.exhaust)
  show ?case
  proof (cases "sub_id e = sid")
    case True
    then have "v' = (if alive then e' # es2 else es2)" using 2(3) d r2 by simp
    then show ?thesis
      using 2(2) [OF _ d [symmetric] refl r2] True drain_overflow_key [OF d] by (cases alive) auto
  next
    case False
    then have "v' = e # es1" using 2(3) r1 by simp
    moreover have "sub_key ` set es1 \<subseteq> sub_key ` set es" using 2(1) [OF False r1] .
    ultimately show ?thesis by (simp only: list.set image_insert insert_mono)
  qed
qed simp

lemma drain_map_snapshot:
  "drain_map ts sid m b cs = (m', r) \<Longrightarrow> set (resub_snapshot m') \<subseteq> set (resub_snapshot m)"
proof (induction ts sid m b cs arbitrary: m' r rule: drain_map.induct)
  case (2 ts sid d v m b cs)
  obtain v' b2 c2 where v: "drain_vec ts sid v b cs = (v', b2, c2)" by (metis prod_cases3)
  obtain m2 r2 where m: "drain_map ts sid m b2 c2 = (m2, r2)" by (rule prod.exhaust)
  have m': "m' = (d, v') # m2" using 2(2) v m by simp
  show ?case
    using drain_vec_key [OF v] 2(1) [OF v [symmetric] refl m] unfolding m' snapshot_simps by blast
qed simp

section \<open>Where the SUBSCRIBE of a registered subscription is\<close>

text \<open>The socket refused it, at a moment of this session.\<close>

definition refused :: "write_oracle \<Rightarrow> frame \<Rightarrow> ('c, 'q) task \<Rightarrow> bool" where
  "refused wok f t \<longleftrightarrow>
     (\<exists>w ws. wire t = w @ ws \<and> (\<forall>x\<in>set ws. fst x = session t) \<and> \<not> wok w (Frame f))"

text \<open>It was written in this session, or it is on its way, or its caller went away, or it was refused.\<close>

definition in_effect ::
  "('q \<Rightarrow> outbound list) \<Rightarrow> write_oracle \<Rightarrow> frame \<Rightarrow> ('c, 'q) sys \<Rightarrow> bool" where
  "in_effect out_queued wok f S \<longleftrightarrow>
     (session (tk S), Frame f) \<in> set (wire (tk S)) \<or>
     Item (Frame f) \<in> set (inflight S) \<union> set (out_queued (outbound_tx (shared (tk S)))) \<or>
     Item (Frame f) \<in> cancelled S \<or> refused wok f (tk S)"

definition connected :: "phase \<Rightarrow> bool" where
  "connected ph \<longleftrightarrow> ph \<notin> {Broken, Backoff, Replaying, Ended}"

definition subscribed_inv :: "('q \<Rightarrow> outbound list) \<Rightarrow> write_oracle \<Rightarrow> ('c, 'q) sys \<Rightarrow> bool" where
  "subscribed_inv out_queued wok S \<longleftrightarrow>
     (connected (phase S) \<longrightarrow>
       (\<forall>f\<in>set (resubscribe_frames (subscriptions (shared (tk S)))). in_effect out_queued wok f S))"

lemma connected_simps [simp]:
  "\<not> connected Broken" "\<not> connected Backoff" "\<not> connected Replaying" "\<not> connected Ended"
  by (simp_all add: connected_def)

text \<open>What is written stays written, and what was refused stays refused, while the session lasts.\<close>

definition grows :: "('c, 'q) task \<Rightarrow> ('c, 'q) task \<Rightarrow> bool" where
  "grows t t' \<longleftrightarrow> session t' = session t \<and>
     (\<exists>ws. wire t' = wire t @ ws \<and> (\<forall>w\<in>set ws. fst w = session t))"

lemma keeps_grows: "keeps t t' \<Longrightarrow> grows t t'"
  by (simp add: keeps_def grows_def)

lemma grows_refl [simp]: "session t' = session t \<Longrightarrow> wire t' = wire t \<Longrightarrow> grows t t'"
  by (simp add: grows_def)

lemma refused_grows: "refused wok f t \<Longrightarrow> grows t t' \<Longrightarrow> refused wok f t'"
  by (auto simp: refused_def grows_def) (metis UnE append_assoc set_append)

lemma in_effect_grows:
  assumes "in_effect oq wok f S" and "grows (tk S) (tk S')"
    and "Item (Frame f) \<in> set (inflight S) \<union> set (oq (outbound_tx (shared (tk S)))) \<union> cancelled S \<Longrightarrow>
      in_effect oq wok f S'"
  shows "in_effect oq wok f S'"
proof -
  consider "(session (tk S), Frame f) \<in> set (wire (tk S))" | "refused wok f (tk S)"
    | "Item (Frame f) \<in> set (inflight S) \<union> set (oq (outbound_tx (shared (tk S)))) \<union> cancelled S"
    using assms(1) unfolding in_effect_def by blast
  then show ?thesis
  proof cases
    case 1
    then have "(session (tk S'), Frame f) \<in> set (wire (tk S'))" using assms(2) by (auto simp: grows_def)
    then show ?thesis by (simp add: in_effect_def)
  next
    case 2
    then show ?thesis using refused_grows [OF _ assms(2)] by (simp add: in_effect_def)
  next
    case 3
    then show ?thesis by (rule assms(3))
  qed
qed

text \<open>A step that registers nothing and takes nothing off its way.\<close>

lemma subscribed_quiet:
  assumes "subscribed_inv oq wok S" and "connected (phase S') \<Longrightarrow> connected (phase S)"
    and "grows (tk S) (tk S')"
    and "set (resub_snapshot (subscriptions (shared (tk S')))) \<subseteq> set (resub_snapshot (subscriptions (shared (tk S))))"
    and "set (inflight S) \<union> set (oq (outbound_tx (shared (tk S)))) \<union> cancelled S \<subseteq>
      set (inflight S') \<union> set (oq (outbound_tx (shared (tk S')))) \<union> cancelled S'"
  shows "subscribed_inv oq wok S'"
  unfolding subscribed_inv_def
proof (intro impI ballI)
  fix f assume "connected (phase S')" "f \<in> set (resubscribe_frames (subscriptions (shared (tk S'))))"
  then have "in_effect oq wok f S"
    using assms(1,2) frames_mono [OF assms(4)] unfolding subscribed_inv_def by blast
  then show "in_effect oq wok f S'"
  proof (rule in_effect_grows [OF _ assms(3)])
    assume "Item (Frame f) \<in> set (inflight S) \<union> set (oq (outbound_tx (shared (tk S)))) \<union> cancelled S"
    then have "Item (Frame f) \<in> set (inflight S') \<union> set (oq (outbound_tx (shared (tk S')))) \<union> cancelled S'"
      using assms(5) by blast
    then show "in_effect oq wok f S'" unfolding in_effect_def by blast
  qed
qed

text \<open>A replay writes them all, or has them refused.\<close>

lemma write_all_reaches:
  "f \<in> set fs \<Longrightarrow> (session t, Frame f) \<in> set (wire (write_all wok fs t)) \<or> refused wok f (write_all wok fs t)"
proof (induction fs arbitrary: t)
  case (Cons g fs)
  let ?t = "snd (write_item wok (Frame g) t)"
  have k: "grows ?t (write_all wok fs ?t)" "session ?t = session t"
    using keeps_grows [OF keeps_write_all] keeps_write [of t wok "Frame g"] by (auto simp: keeps_def)
  show ?case
  proof (cases "f = g")
    case True
    show ?thesis
    proof (cases "wok (wire t) (Frame f)")
      case True
      then have "(session t, Frame f) \<in> set (wire ?t)" using \<open>f = g\<close> by (simp add: write_item_def)
      then show ?thesis using k by (auto simp: grows_def)
    next
      case False
      then have "refused wok f t" unfolding refused_def by (intro exI [of _ "wire t"] exI [of _ "[]"]) simp
      then have "refused wok f ?t" using False \<open>f = g\<close> by (simp add: write_item_def)
      then show ?thesis using refused_grows [OF _ k(1)] by simp
    qed
  next
    case False
    then show ?thesis using Cons.IH [of ?t] Cons.prems k(2) by simp
  qed
qed simp

text \<open>The sections of the task register nothing.\<close>

definition fewer :: "('c, 'q) task \<Rightarrow> ('c, 'q) task \<Rightarrow> bool" where
  "fewer t t' \<longleftrightarrow> set (resub_snapshot (subscriptions (shared t'))) \<subseteq> set (resub_snapshot (subscriptions (shared t)))"

lemma fewer_same: "subscriptions (shared t') = subscriptions (shared t) \<Longrightarrow> fewer t t'"
  by (simp add: fewer_def)

lemma fewer_abandon: "fewer t (abandon ts f sid d n t)"
proof (cases "hm_get (subscriptions (shared t)) d")
  case None
  then show ?thesis by (simp add: abandon_def fewer_same Let_def)
next
  case (Some v)
  then have "subscriptions (shared (abandon ts f sid d n t)) = hm_remove d (subscriptions (shared t))"
    by (simp add: abandon_def forward_def on_shared_def Let_def split: option.split)
  then show ?thesis
    unfolding fewer_def by (metis hm_remove_subset snapshot_subset subsetI)
qed

lemma fewer_sections:
  "fewer t (record_section f ids t)" "fewer t (sweep_section live t)"
  "fewer t (error_settle f (t\<lparr>last_received := now\<rparr>))" "fewer t (error_count ts f sid dest t)"
  "fewer t (replay_section wok t)" "fewer t (loop_top t)" "fewer t (handle_heartbeat notify now t)"
  "fewer t (failed_attempt t)" "fewer t (end_session lasted t)" "fewer t (end_task t)"
  "fewer t (on_shared (forget_pending i) t)" "fewer t (discard_section now t)"
proof -
  have "fewer t (abandon ts f sid d n (t\<lparr>sub_errors := se\<rparr>))" for d n se
    using fewer_abandon [of "t\<lparr>sub_errors := se\<rparr>" ts f sid d n] by (simp add: fewer_def)
  then show "fewer t (error_count ts f sid dest t)"
    by (cases dest) (auto simp: error_count_def Let_def fewer_def forward_def on_shared_def)
  show "fewer t (replay_section wok t)"
    using write_all_quiet [of t wok] by (intro fewer_same) (simp add: replay_section_def quiet_def Let_def)
  show "fewer t (end_task t)" by (simp add: fewer_def end_task_def on_shared_def)
  show "fewer t (discard_section now t)"
    by (simp add: fewer_def discard_section_def on_shared_def Let_def snapshot_discard)
qed (auto intro!: fewer_same simp: record_section_def sweep_section_def error_settle_def settle_receipt_def
      loop_top_def handle_heartbeat_def failed_attempt_def end_session_def forget_pending_def on_shared_def
      Let_def split: option.split)

lemma fewer_fail: "fail_section ts wok now f ovs d t = (t', fl) \<Longrightarrow> fewer t t'"
proof -
  assume fail: "fail_section ts wok now f ovs d t = (t', fl)"
  obtain t2 fl2 where fo: "fail_overflowed ts wok now ovs t = (t2, fl2)" by fastforce
  have "subscriptions (shared t2) = subscriptions (shared t)"
    using fail_overflowed_result [OF fo] by (simp add: quiet_def Let_def)
  moreover have "t' = t2 \<or> t' = forward ts f t2"
    using fail fo by (auto simp: fail_section_def split: flow.splits if_splits)
  ultimately show ?thesis by (auto simp: fewer_def forward_def on_shared_def)
qed

lemma fewer_hb_tick: "handle_hb_tick wok now si t = (t', fl) \<Longrightarrow> fewer t t'"
  by (rule fewer_same) (auto simp: handle_hb_tick_def write_item_def split: option.splits if_splits)

lemma fewer_deliver: "deliver_section ts f t = Some (t', live, ovs, d) \<Longrightarrow> fewer t t'"
  by (auto simp: fewer_def deliver_section_def dest!: deliver_pass_snapshot [THEN subsetD])

lemma fewer_drain: "drain_section ts sid t = (t', closed) \<Longrightarrow> fewer t t'"
  unfolding fewer_def drain_section_def
  by (auto simp: Let_def on_shared_def split: prod.splits
      dest!: snapshot_drop_empty [THEN subsetD] drain_map_snapshot [THEN subsetD])

lemma fewer_other_frame:
  assumes "command f \<noteq> ''MESSAGE''" "command f \<noteq> ''ERROR''" and "handle_frame ts wok now f t = Some (t', fl)"
  shows "fewer t t'"
  using assms
  by (intro fewer_same)
    (auto simp: handle_frame_def handle_receipt_def Let_def on_shared_def settle_receipt_def forward_def
      split: if_splits option.splits)

lemma subscribed_task:
  assumes "subscribed_inv oq wok S" and "connected (phase S') \<Longrightarrow> connected (phase S)"
    and "keeps (tk S) (tk S')" and "fewer (tk S) (tk S')"
    and "inflight S' = inflight S" "cancelled S' = cancelled S"
  shows "subscribed_inv oq wok S'"
  using assms(3,4)
  by (intro subscribed_quiet [OF assms(1,2) keeps_grows [OF assms(3)]])
    (simp_all add: fewer_def keeps_def assms(5,6))

text \<open>A step of the client that leaves the registry alone, or makes it smaller.\<close>

lemma subscribed_client:
  fixes S S' :: "('c, 'q) sys"
  assumes "subscribed_inv oq wok S" and "phase S' = phase S"
    and "session (tk S') = session (tk S)" "wire (tk S') = wire (tk S)"
    and "set (resub_snapshot (subscriptions (shared (tk S')))) \<subseteq> set (resub_snapshot (subscriptions (shared (tk S))))"
    and "set (inflight S) \<subseteq> set (inflight S')" "cancelled S \<subseteq> cancelled S'"
    and "set (oq (outbound_tx (shared (tk S)))) \<subseteq> set (oq (outbound_tx (shared (tk S'))))"
  shows "subscribed_inv oq wok S'"
  using assms(2,6-8)
  by (intro subscribed_quiet [OF assms(1) _ grows_refl [OF assms(3,4)] assms(5)]) auto

context connection_channels
begin

lemma sends_kept: "set (out_queued q) \<subseteq> set (out_queued (snd (tso q out)))"
  by (rule sending.ts_cases [of q out]) auto

lemma subscribed_register:
  assumes inv: "subscribed_inv out_queued wok S" and reg: "register mk d a hs cap lim (shared (tk S)) = (e, s)"
  shows "subscribed_inv out_queued wok
    ((with_shared S s)\<lparr>inflight := inflight S @ [Item (Frame (subscribe_frame (sub_id e) d a hs))]\<rparr>)"
    (is "subscribed_inv _ _ ?S")
  unfolding subscribed_inv_def
proof (intro impI ballI)
  let ?m = "subscriptions (shared (tk S))" and ?v = "unwrap_or [] (hm_get (subscriptions (shared (tk S))) d)"
  have subs: "subscriptions s = hm_insert d (?v @ [e]) ?m" "outbound_tx s = outbound_tx (shared (tk S))"
    "sub_key e = (sub_id e, a, hs)"
    using reg by (auto simp: register_def Let_def sub_key_def)
  fix f assume conn: "connected (phase ?S)" and f: "f \<in> set (resubscribe_frames (subscriptions (shared (tk ?S))))"
  obtain x where x: "x \<in> set (resub_snapshot (subscriptions s))"
    "f = (case x of (dest, i, m, hs) \<Rightarrow> subscribe_frame i dest m hs)"
    using f unfolding resubscribe_frames_def set_map by (auto simp: with_shared_def)
  from x(1) obtain d0 v0 e0 where e0: "(d0, v0) \<in> set (hm_insert d (?v @ [e]) ?m)" "e0 \<in> set v0" "x = (d0, sub_key e0)"
    unfolding in_snapshot subs(1) by blast
  have "x \<in> set (resub_snapshot ?m) \<or> x = (d, sub_key e)"
    using update_subset [OF e0(1)]
  proof
    assume d0: "(d0, v0) = (d, ?v @ [e])"
    have "e0 \<in> set ?v \<Longrightarrow> x \<in> set (resub_snapshot ?m)"
      using e0(3) d0 unfolding in_snapshot by (cases "hm_get ?m d") (auto simp: unwrap_or_def dest: map_of_SomeD)
    then show ?thesis using e0(2,3) d0 by auto
  next
    assume "(d0, v0) \<in> set ?m"
    then show ?thesis using e0(2,3) unfolding in_snapshot by blast
  qed
  then show "in_effect out_queued wok f ?S"
  proof
    assume "x \<in> set (resub_snapshot ?m)"
    then have "f \<in> set (resubscribe_frames ?m)" 
      using x(2) unfolding resubscribe_frames_def set_map by (rule image_eqI [rotated])
    then have "in_effect out_queued wok f S" using inv conn by (simp add: subscribed_inv_def with_shared_def)
    then show ?thesis by (auto simp: in_effect_def refused_def with_shared_def subs(2))
  next
    assume "x = (d, sub_key e)"
    then show ?thesis using x(2) subs(3) by (simp add: in_effect_def)
  qed
qed

lemma subscribed_outbound:
  assumes inv: "subscribed_inv out_queued wok S" and ph: "phase S = Running"
    and recv: "tro (outbound_tx (shared (tk S))) = Some (out, q)"
    and step: "handle_outbound wok now out ((tk S)\<lparr>shared := (shared (tk S))\<lparr>outbound_tx := q\<rparr>\<rparr>) = (t, fl)"
  shows "subscribed_inv out_queued wok (S\<lparr>tk := t, phase := after_flow fl, acked := acked'\<rparr>)"
    (is "subscribed_inv _ _ ?S")
  unfolding subscribed_inv_def
proof (intro impI ballI)
  fix f assume conn: "connected (phase ?S)" and f: "f \<in> set (resubscribe_frames (subscriptions (shared (tk ?S))))"
  have fl: "fl = Continue" using conn by (cases fl) (simp_all add: after_flow_def)
  have same: "subscriptions (shared t) = subscriptions (shared (tk S))" "outbound_tx (shared t) = q"
    "session t = session (tk S)"
    using step by (auto simp: handle_outbound_def write_item_def Let_def on_shared_def forget_pending_def
        split: option.splits stomp_item.splits if_splits)
  have wire: "wire t = wire (tk S) @ (case writable_in out (session (tk S)) of None \<Rightarrow> [] | Some i \<Rightarrow> [(session (tk S), i)])"
    using step fl by (auto simp: handle_outbound_def write_item_def Let_def on_shared_def forget_pending_def
        split: option.splits stomp_item.splits if_splits)
  have "in_effect out_queued wok f S"
    using inv f ph by (simp add: subscribed_inv_def same connected_def)
  then show "in_effect out_queued wok f ?S"
  proof (rule in_effect_grows)
    show "grows (tk S) (tk ?S)" using wire same(3) by (auto simp: grows_def split: option.split)
    assume "Item (Frame f) \<in> set (inflight S) \<union> set (out_queued (outbound_tx (shared (tk S)))) \<union> cancelled S"
    then consider "Item (Frame f) \<in> set (inflight S) \<union> set (out_queued q) \<union> cancelled S" | "out = Item (Frame f)"
      using tro_Some [OF recv] by auto
    then show "in_effect out_queued wok f ?S"
    proof cases
      case 1
      then show ?thesis by (auto simp: in_effect_def same(2))
    next
      case 2
      then have "(session t, Frame f) \<in> set (wire t)" using wire same(3) by (simp add: writable_in_def)
      then show ?thesis by (simp add: in_effect_def)
    qed
  qed
qed

lemma subscribed_step:
  assumes inv: "subscribed_inv out_queued wok S" and T: "task_inv (tk S)"
    and step: "sys_step ts tso tro rx wok mk S S'"
  shows "subscribed_inv out_queued wok S'"
  using step
proof cases
  case (Register d a hs cap lim e s)
  show ?thesis unfolding Register(1) by (rule subscribed_register [OF inv Register(2)])
next
  case (Outbound out q now t fl)
  show ?thesis unfolding Outbound(1) by (rule subscribed_outbound [OF inv Outbound(2-4)])
next
  case (Replay)
  show ?thesis
    unfolding subscribed_inv_def
  proof (intro impI ballI)
    let ?fs = "resubscribe_frames (subscriptions (shared (tk S)))"
    fix f assume "f \<in> set (resubscribe_frames (subscriptions (shared (tk S'))))"
    then have "f \<in> set ?fs"
      using frames_mono fewer_sections(5) [of "tk S" wok] unfolding Replay(1) fewer_def by auto
    then show "in_effect out_queued wok f S'"
      using write_all_reaches [of f ?fs "tk S" wok] keeps_write_all [of "tk S" wok ?fs]
      by (auto simp: Replay(1) replay_section_def in_effect_def keeps_def)
  qed
next
  case (Enqueue xs out ys q)
  have "out_queued q = out_queued (outbound_tx (shared (tk S))) @ [out]" using sending.ts_Sent [OF Enqueue(3)] by simp
  then show ?thesis
    by (intro subscribed_quiet [OF inv])
      (auto simp: Enqueue(1,2) with_shared_def)
next
  case (GiveUp xs out ys)
  show ?thesis by (rule subscribed_quiet [OF inv]) (auto simp: GiveUp)
next
  case (Deregister sid)
  show ?thesis
    using snapshot_retain T
    by (intro subscribed_client [OF inv]) (auto simp: Deregister with_shared_def deregister_eq task_inv_def dest: subsetD)
next
  case (BestEffort a b sid)
  let ?s = "unsubscribe_best_effort tso a b sid (shared (tk S))"
  have "set (resub_snapshot (subscriptions ?s)) \<subseteq> set (resub_snapshot (subscriptions (shared (tk S))))"
    using snapshot_retain by (simp add: unsubscribe_best_effort_def forget_pending_def Let_def)
  moreover have "set (out_queued (outbound_tx (shared (tk S)))) \<subseteq> set (out_queued (outbound_tx ?s))"
    using sends_kept by (simp add: unsubscribe_best_effort_def forget_pending_def Let_def)
  ultimately show ?thesis
    by (intro subscribed_client [OF inv]) (simp_all add: BestEffort with_shared_def)
next
  case (Deliver f t live ovs d)
  show ?thesis
    by (rule subscribed_task [OF inv])
      (simp_all add: Deliver(1,2) connected_def keeps_deliver [OF Deliver(4)] fewer_deliver [OF Deliver(4)])
next
  case (Fail f ovs d now t fl)
  show ?thesis
    by (rule subscribed_task [OF inv])
      (simp_all add: Fail(1,2) connected_def keeps_fail [OF Fail(3)] fewer_fail [OF Fail(3)])
next
  case (Inbound f now t fl)
  show ?thesis
    by (rule subscribed_task [OF inv])
      (simp_all add: Inbound(1,2) connected_def keeps_frame [OF Inbound(5)] fewer_other_frame [OF Inbound(3-5)])
next
  case (Parked sid t closed)
  show ?thesis
    by (rule subscribed_task [OF inv])
      (simp_all add: Parked(1,2) connected_def keeps_drain [OF Parked(4)] fewer_drain [OF Parked(4)])
next
  case (Tick now si t fl)
  show ?thesis
    by (rule subscribed_task [OF inv])
      (simp_all add: Tick(1,2) connected_def keeps_hb_tick [OF Tick(3)] fewer_hb_tick [OF Tick(3)])
next
  case (Refused f sid t now)
  show ?thesis
    using keeps_sections(3) [of "(tk S)\<lparr>last_received := now\<rparr>" f]
    by (intro subscribed_task [OF inv])
      (simp_all add: Refused(1,2,5) connected_def fewer_sections keeps_def)
next
  case (Record f ids t)
  show ?thesis
    by (rule subscribed_task [OF inv]) (simp_all add: Record(1-3) connected_def keeps_sections fewer_sections)
next
  case (Sweep f live ovs d)
  show ?thesis
    by (rule subscribed_task [OF inv]) (simp_all add: Sweep connected_def keeps_sections fewer_sections)
next
  case (Count f sid dest)
  show ?thesis
    by (rule subscribed_task [OF inv]) (simp_all add: Count connected_def keeps_sections fewer_sections)
next
  case (Clear sid)
  show ?thesis
    by (rule subscribed_task [OF inv]) (simp_all add: Clear connected_def keeps_sections fewer_sections)
next
  case (Start now)
  show ?thesis
    by (rule subscribed_task [OF inv]) (simp_all add: Start connected_def keeps_sections fewer_sections)
next
  case (LoopTop)
  have "keeps (tk S) (loop_top (tk S))" by (rule keepsI) (simp_all add: loop_top_def)
  then show ?thesis by (intro subscribed_task [OF inv]) (simp_all add: LoopTop fewer_sections)
next
  case (BrokerBeat notify now)
  have "keeps (tk S) (handle_heartbeat notify now (tk S))"
    by (rule keepsI) (simp_all add: handle_heartbeat_def Let_def split: option.split)
  then show ?thesis by (intro subscribed_task [OF inv]) (simp_all add: BrokerBeat fewer_sections)
next
  case (Arrive f now)
  show ?thesis by (rule subscribed_task [OF inv]) (simp_all add: Arrive(1,2) connected_def fewer_same)
next
  case (Skip f now)
  show ?thesis by (rule subscribed_task [OF inv]) (simp_all add: Skip(1,2) connected_def fewer_same)
next
  case (Collect f need)
  show ?thesis by (rule subscribed_task [OF inv]) (simp_all add: Collect connected_def fewer_same)
next
  case (Find f sid)
  show ?thesis by (rule subscribed_task [OF inv]) (simp_all add: Find connected_def fewer_same)
next
  case (Watchdog now ri)
  show ?thesis by (rule subscribed_task [OF inv]) (simp_all add: Watchdog connected_def fewer_same)
next
  case (Panic f now)
  show ?thesis by (simp add: Panic subscribed_inv_def)
next
  case (SessionOver lasted)
  show ?thesis by (simp add: SessionOver subscribed_inv_def)
next
  case (AttemptFailed)
  show ?thesis by (simp add: AttemptFailed subscribed_inv_def)
next
  case (Reconnected now)
  show ?thesis by (simp add: Reconnected subscribed_inv_def)
next
  case (StreamGone)
  show ?thesis by (simp add: StreamGone subscribed_inv_def)
next
  case (Shutdown)
  show ?thesis by (simp add: Shutdown subscribed_inv_def)
qed (rule subscribed_client [OF inv]; simp add: with_shared_def forget_pending_def registered_def; blast)+

lemma subscribed_reachable:
  assumes "reachable ts tso tro rx wok mk q0 S" and "out_queued q0 = []"
  shows "subscribed_inv out_queued wok S"
  using assms(1)
proof (induction rule: reachable.induct)
  case (Init now cs)
  show ?case by (simp add: subscribed_inv_def sys_new_def task_new_def conn_new_def resubscribe_frames_def resub_snapshot_def)
next
  case (Step S S')
  show ?case
    by (rule subscribed_step [OF Step.IH _ Step.hyps(2)]) (rule sys_invD(1) [OF reachable_inv [OF Step.hyps(1) assms(2)]])
qed

end
section \<open>Twice in one session\<close>

text \<open>
  What waits in the outbound channel when a session is replayed is written after the replay: a
  SUBSCRIBE that was queued while the connection was down is written a second time.
\<close>

lemma subscribed_twice:
  assumes "phase S = Replaying" and "f \<in> set (resubscribe_frames (subscriptions (shared (tk S))))"
    and "tro (outbound_tx (shared (tk S))) = Some (Item (Frame f), q)"
  shows "\<exists>S'. sys_runs ts tso tro rx all_written mk S S' \<and> phase S' = Running \<and>
    session (tk S') = session (tk S) \<and> subscriptions (shared (tk S')) = subscriptions (shared (tk S)) \<and>
    wire (tk S') = wire (tk S) @ map (\<lambda>g. (session (tk S), Frame g))
      (resubscribe_frames (subscriptions (shared (tk S))) @ [f])"
proof -
  let ?fs = "resubscribe_frames (subscriptions (shared (tk S)))"
  let ?t1 = "(tk S)\<lparr>wire := wire (tk S) @ map (\<lambda>f. (session (tk S), Frame f)) ?fs\<rparr>"
  let ?S1 = "S\<lparr>tk := ?t1, phase := Running\<rparr>"
  have replay: "sys_step ts tso tro rx all_written mk S ?S1"
    using sys_step.Replay [OF assms(1), where wok = all_written] by (simp add: replay_section_def write_all_written)
  have sub: "command f = ''SUBSCRIBE''"
    using assms(2) by (auto simp: resubscribe_frames_def subscribe_frame_headers)
  obtain t fl where out: "handle_outbound all_written 0 (Item (Frame f))
      ((tk ?S1)\<lparr>shared := (shared (tk ?S1))\<lparr>outbound_tx := q\<rparr>\<rparr>) = (t, fl)" by fastforce
  then have t: "t = ?t1\<lparr>shared := (shared (tk S))\<lparr>outbound_tx := q\<rparr>,
      wire := wire ?t1 @ [(session (tk S), Frame f)], last_sent := 0\<rparr>" "fl = Continue"
    using sub by (simp_all add: handle_outbound_def writable_in_def write_item_def)
  have "sys_step ts tso tro rx all_written mk ?S1
      (?S1\<lparr>tk := t, phase := after_flow fl, acked := acked ?S1 \<union> ack_written (Item (Frame f)) (tk ?S1) t\<rparr>)"
    by (rule sys_step.Outbound [OF _ _ out]) (simp_all add: assms(3))
  from runs_step [OF one_step [OF replay] this]
  show ?thesis by (intro exI conjI) (assumption, simp_all add: t after_flow_def)
qed

text \<open>A state of that kind: the connection goes down before the first SUBSCRIBE is written.\<close>

lemma demo_replaying_reachable:
  "\<exists>S q. demo_reachable S \<and> phase S = Replaying \<and> wire (tk S) = [] \<and>
     resubscribe_frames (subscriptions (shared (tk S))) = [subscribe_frame ''1'' ''/queue/a'' Client []] \<and>
     bc_recv (outbound_tx (shared (tk S))) = Some (Item (Frame (subscribe_frame ''1'' ''/queue/a'' Client [])), q)"
proof -
  let ?f = "subscribe_frame ''1'' ''/queue/a'' Client []"
  have d: "inflight demo_running = [] @ Item (Frame ?f) # []" "phase demo_running = Running"
    "wire (tk demo_running) = []" "outbound_tx (shared (tk demo_running)) = bc_new 32"
    "subscriptions (shared (tk demo_running)) = subscriptions one_sub_conn"
    by (simp_all add: demo_running_def demo_task_def task_new_def one_sub_conn_def register_def fresh_conn_def
        conn_new_def Let_def)
  have fs: "resubscribe_frames (subscriptions one_sub_conn) = [?f]" by code_simp
  let ?q = "\<lparr>bc_buf = [Item (Frame ?f)], bc_cap = 32, bc_closed = False\<rparr>"
  have "bc_try_send (outbound_tx (shared (tk demo_running))) (Item (Frame ?f)) = (Sent, ?q)"
    by (simp add: d bc_try_send_def bc_new_def)
  from reachable.Step [OF demo_running_reachable sys_step.Enqueue [where tso = bc_try_send, OF d(1) this]]
  obtain S1 where S1: "demo_reachable S1" "phase S1 = Running" "wire (tk S1) = []" "outbound_tx (shared (tk S1)) = ?q"
    "subscriptions (shared (tk S1)) = subscriptions one_sub_conn"
    using d by (fastforce simp: with_shared_def)
  obtain S2 where S2: "demo_reachable S2" "phase S2 = Broken" "tk S2 = tk S1"
    using reachable.Step [OF S1(1) sys_step.StreamGone [OF S1(2)]] by fastforce
  obtain S3 where S3: "demo_reachable S3" "phase S3 = Backoff" "wire (tk S3) = []" "outbound_tx (shared (tk S3)) = ?q"
    "subscriptions (shared (tk S3)) = subscriptions one_sub_conn"
    using reachable.Step [OF S2(1) sys_step.SessionOver [OF S2(2)]] S1 S2(3)
    by (fastforce simp: end_session_def on_shared_def)
  obtain S4 where S4: "demo_reachable S4" "phase S4 = Replaying" "tk S4 = discard_section 0 (tk S3)"
    using reachable.Step [OF S3(1) sys_step.Reconnected [OF S3(2), of _ _ _ _ _ _ 0]] by fastforce
  have "resubscribe_frames (subscriptions (shared (tk S4))) = [?f]" "wire (tk S4) = []"
    "outbound_tx (shared (tk S4)) = ?q"
    using S3 fs by (simp_all add: S4(3) discard_section_def on_shared_def Let_def resubscribe_discard)
  with S4(1,2) show ?thesis by (intro exI [of _ S4]) (simp add: bc_recv_def)
qed

end
