(* ===== verification/Stomp_Wake.thy ===== *)
theory Stomp_Wake
  imports Stomp_Handlers
begin

text \<open>
  Which parked subscription the loop serves next (\<^verbatim>\<open>parked_capacity\<close>), and that serving them ends:
  no wake-up is lost, and none is empty.
\<close>

section \<open>Waiting for room\<close>

text \<open>
  \<open>ready\<close> says whether \<^verbatim>\<open>reserve()\<close> on a sender resolves now: there is a free place, or the receiver
  is gone. \<^verbatim>\<open>select_all\<close> polls in order and takes the first that does; \<^const>\<open>None\<close> is a wait that goes on,
  as it does when nothing is parked.
\<close>

definition parked_capacity :: "('c \<Rightarrow> bool) \<Rightarrow> (chan_id \<Rightarrow> 'c) \<Rightarrow> wake_list \<Rightarrow> string option" where
  "parked_capacity ready cs pk = map_option fst (List.find (\<lambda>(_, a). ready (cs a)) pk)"

text \<open>A turn of the loop that takes this branch, and leaves the task alone while it waits.\<close>

definition parked_turn ::
  "('c, frame) try_send \<Rightarrow> ('c \<Rightarrow> bool) \<Rightarrow> ('c, 'q) task \<Rightarrow> ('c, 'q) task" where
  "parked_turn ts ready t =
     (let t = loop_top t
      in case parked_capacity ready (chans (shared t)) (parked t) of
           None \<Rightarrow> t
         | Some sid \<Rightarrow> handle_parked ts sid t)"

definition parked_frames :: "('c, 'q) task \<Rightarrow> nat" where
  "parked_frames t = sum_list (map (\<lambda>e. length (ov_queue (sub_overflow e))) (entries (subscriptions (shared t))))"

lemma loop_top_fields [simp]:
  "shared (loop_top t) = shared t"
  "parked (loop_top t) = prune_parked (parked t) (subscriptions (shared t))"
  by (simp_all add: loop_top_def prune_parked_def)

lemma parked_frames_loop_top [simp]: "parked_frames (loop_top t) = parked_frames t"
  by (simp add: parked_frames_def)

text \<open>What is woken is on the list and ready; when nothing is, nothing on the list is ready.\<close>

lemma parked_capacity_Some:
  "parked_capacity ready cs pk = Some sid \<Longrightarrow> \<exists>a. (sid, a) \<in> set pk \<and> ready (cs a)"
  by (auto simp: parked_capacity_def dest!: find_SomeD)

lemma parked_capacity_None:
  "parked_capacity ready cs pk = None \<longleftrightarrow> (\<forall>(sid, a)\<in>set pk. \<not> ready (cs a))"
  by (auto simp: parked_capacity_def find_None_iff split_beta)

text \<open>After the top of the loop the list holds registered subscriptions that have parked frames.\<close>

lemma pruned_entry:
  assumes "task_inv t" and "(sid, a) \<in> set (parked (loop_top t))"
  obtains e where "e \<in> set (entries (subscriptions (shared t)))" "sub_id e = sid" "sub_sender e = a"
    "ov_queue (sub_overflow e) \<noteq> []"
  using assms by (fastforce simp: in_prune task_inv_def wake_inv_def)

lemma parked_listed:
  assumes "task_inv t" and "e \<in> set (entries (subscriptions (shared t)))" and "ov_queue (sub_overflow e) \<noteq> []"
  shows "(sub_id e, sub_sender e) \<in> set (parked (loop_top t))"
  using assms by (fastforce simp: in_prune task_inv_def wake_inv_def)

section \<open>A wake-up makes progress\<close>

lemma drain_queue_length: "drain_queue ts q c = (alive, q', c') \<Longrightarrow> length q' \<le> length q"
proof (induction ts q c arbitrary: alive q' c' rule: drain_queue.induct)
  case (2 ts p q c)
  then show ?case by (fastforce split: prod.splits try_send_result.splits)
qed simp

lemma processed_one:
  assumes "distinct (map sub_id (xs @ e # ys))"
  shows "processed (\<lambda>x. sub_id x = sub_id e) (\<lambda>_. alive) (\<lambda>_. e') (xs @ e # ys) =
    xs @ (if alive then [e'] else []) @ ys"
proof -
  have "sub_id e \<notin> sub_id ` set xs" "sub_id e \<notin> sub_id ` set ys" using assms by auto
  moreover have "processed (\<lambda>x. sub_id x = sub_id e) (\<lambda>_. alive) (\<lambda>_. e') [e] = (if alive then [e'] else [])"
    by (simp add: processed_def)
  ultimately show ?thesis
    using processed_append [where xs = "[e]" and ys = ys]
    by (simp add: processed_append [where ys = "e # ys"] processed_other)
qed

section \<open>Serving the list ends\<close>

text \<open>
  What a consumer will read of a subscription stays the same, or its receiver is gone and the
  subscription with it.
\<close>

definition same_reading ::
  "('c \<Rightarrow> frame list) \<Rightarrow> ('c \<Rightarrow> bool) \<Rightarrow> ('c, 'q) task \<Rightarrow> ('c, 'q) task \<Rightarrow> sub_entry \<Rightarrow> bool" where
  "same_reading queued rx_closed t t' e \<longleftrightarrow>
     (\<exists>e'\<in>set (entries (subscriptions (shared t'))). sub_id e' = sub_id e \<and> sub_sender e' = sub_sender e \<and>
        queued (chans (shared t') (sub_sender e)) @ ov_queue (sub_overflow e') =
          queued (chans (shared t) (sub_sender e)) @ ov_queue (sub_overflow e) \<and>
        rx_closed (chans (shared t') (sub_sender e)) = rx_closed (chans (shared t) (sub_sender e))) \<or>
     rx_closed (chans (shared t) (sub_sender e)) \<and> sub_id e \<notin> live_sub_ids t'"

lemma same_reading_refl: "e \<in> set (entries (subscriptions (shared t))) \<Longrightarrow> same_reading queued rx_closed t t e"
  by (auto simp: same_reading_def)

lemma same_reading_trans:
  assumes "same_reading queued rx_closed t t1 e"
    and "\<forall>x\<in>set (entries (subscriptions (shared t1))). same_reading queued rx_closed t1 t2 x"
    and "live_sub_ids t2 \<subseteq> live_sub_ids t1"
  shows "same_reading queued rx_closed t t2 e"
  using assms(1) unfolding same_reading_def [of queued rx_closed t t1]
proof
  assume "rx_closed (chans (shared t) (sub_sender e)) \<and> sub_id e \<notin> live_sub_ids t1"
  then show ?thesis using assms(3) by (auto simp: same_reading_def)
next
  assume "\<exists>e'\<in>set (entries (subscriptions (shared t1))). sub_id e' = sub_id e \<and> sub_sender e' = sub_sender e \<and>
    queued (chans (shared t1) (sub_sender e)) @ ov_queue (sub_overflow e') =
      queued (chans (shared t) (sub_sender e)) @ ov_queue (sub_overflow e) \<and>
    rx_closed (chans (shared t1) (sub_sender e)) = rx_closed (chans (shared t) (sub_sender e))"
  then obtain x where x: "x \<in> set (entries (subscriptions (shared t1)))" "sub_id x = sub_id e" "sub_sender x = sub_sender e"
    "queued (chans (shared t1) (sub_sender e)) @ ov_queue (sub_overflow x) =
      queued (chans (shared t) (sub_sender e)) @ ov_queue (sub_overflow e)"
    "rx_closed (chans (shared t1) (sub_sender e)) = rx_closed (chans (shared t) (sub_sender e))" by blast
  have "same_reading queued rx_closed t1 t2 x" using assms(2) x(1) by blast
  then show ?thesis using x(2-5) by (auto simp: same_reading_def)
qed

locale waking_channel = frame_channel +
  fixes ready :: "'a \<Rightarrow> bool"
  assumes ready_iff: "ready c \<longleftrightarrow> fst (ts c f) \<noteq> Full f"
begin

lemma gone_ready: "rx_closed c \<Longrightarrow> ready c"
  using ready_iff [of c undefined] ts_Full [of c undefined] by (metis prod.collapse)

lemma ready_drain:
  assumes "ready c" and "q \<noteq> []" and "drain_queue ts q c = (alive, q', c')"
  shows "length q' < length q"
proof -
  obtain p r where q: "q = p # r" using assms(2) by (cases q) auto
  have "fst (ts c p) \<noteq> Full p" using assms(1) ready_iff by blast
  then show ?thesis
    using assms(3) ts_Full drain_queue_length [of ts r] unfolding q
    by (fastforce split: prod.splits try_send_result.splits simp: less_Suc_eq_le)
qed

lemma wake_progress:
  assumes T: "task_inv t" and e: "e \<in> set (entries (subscriptions (shared t)))"
    and q: "ov_queue (sub_overflow e) \<noteq> []" "ready (chans (shared t) (sub_sender e))"
  shows "parked_frames (handle_parked ts (sub_id e) t) < parked_frames t"
proof -
  let ?es = "entries (subscriptions (shared t))" and ?c = "chans (shared t) (sub_sender e)"
  obtain alive q' c' where dq: "drain_queue ts (ov_queue (sub_overflow e)) ?c = (alive, q', c')"
    by (metis prod_cases3)
  then obtain e' where drain: "drain_overflow ts e ?c = (alive, e', c')" "sub_id e' = sub_id e"
    "ov_queue (sub_overflow e') = q'"
    by (auto simp: drain_overflow_def Let_def reset_warnings_def)
  obtain xs ys where es: "?es = xs @ e # ys" using e by (metis split_list)
  have "distinct (map sub_id ?es)" using T by (simp add: task_inv_def reg_inv_def all_distinct_def)
  then have "entries (subscriptions (shared (handle_parked ts (sub_id e) t))) =
      xs @ (if alive then [e'] else []) @ ys"
    using parked_effect(1) [OF T e refl drain(1,2)] processed_one [of xs e ys] unfolding es by simp
  then show ?thesis
    using ready_drain [OF q(2,1) dq] q(1) by (simp add: parked_frames_def es drain(3))
qed

lemma parked_reading:
  assumes T: "task_inv t" and e: "e \<in> set (entries (subscriptions (shared t)))"
    and w: "w \<in> set (entries (subscriptions (shared t)))"
  shows "same_reading queued rx_closed t (handle_parked ts (sub_id w) t) e"
proof (cases "sub_id e = sub_id w")
  case False
  then show ?thesis
    using parked_other [OF T w e False] e by (auto simp: same_reading_def intro!: bexI [of _ e])
next
  case True
  have ov: "ov_inv (sub_overflow e)" using e T by (auto simp: task_inv_def reg_inv_def entry_ok_def)
  from ov show ?thesis
  proof (cases rule: drain_overflow_cases [of e "chans (shared t) (sub_sender e)"])
    case (Alive sent ov c')
    note eff = parked_effect [OF T e True Alive(1), simplified]
    have "e\<lparr>sub_overflow := ov\<rparr> \<in> set (entries (subscriptions (shared (handle_parked ts (sub_id w) t))))"
      using e True by (auto simp: eff in_processed)
    with Alive show ?thesis
      by (auto simp: same_reading_def eff intro!: bexI [of _ "e\<lparr>sub_overflow := ov\<rparr>"])
  next
    case (Dead ov)
    note eff = parked_effect [OF T e True Dead(1), simplified]
    show ?thesis using Dead(2) True by (auto simp: same_reading_def live_sub_ids_def eff in_processed)
  qed
qed

lemma parked_live:
  assumes T: "task_inv t" and w: "w \<in> set (entries (subscriptions (shared t)))"
  shows "live_sub_ids (handle_parked ts (sub_id w) t) \<subseteq> live_sub_ids t"
proof -
  have ov: "ov_inv (sub_overflow w)" using w T by (auto simp: task_inv_def reg_inv_def entry_ok_def)
  obtain alive e' c where d: "drain_overflow ts w (chans (shared t) (sub_sender w)) = (alive, e', c)"
    "sub_id e' = sub_id w"
    using ov by (cases rule: drain_overflow_cases [of w "chans (shared t) (sub_sender w)"]) auto
  show ?thesis
    using d(2) w by (auto simp: live_sub_ids_def parked_effect(1) [OF T w refl d] in_processed)
qed

lemma wake_settles:
  assumes "task_inv t"
  shows "\<exists>n \<le> parked_frames t. let t' = (parked_turn ts ready ^^ n) t in
    task_inv t' \<and> live_sub_ids t' \<subseteq> live_sub_ids t \<and>
    (\<forall>e\<in>set (entries (subscriptions (shared t'))).
       ov_queue (sub_overflow e) = [] \<or> \<not> ready (chans (shared t') (sub_sender e))) \<and>
    (\<forall>e\<in>set (entries (subscriptions (shared t))). same_reading queued rx_closed t t' e)"
  using assms
proof (induction "parked_frames t" arbitrary: t rule: less_induct)
  case less
  note T = task_inv_loop_top [OF less.prems]
  show ?case
  proof (cases "parked_capacity ready (chans (shared t)) (parked (loop_top t))")
    case None
    then have "\<forall>e\<in>set (entries (subscriptions (shared t))).
        ov_queue (sub_overflow e) = [] \<or> \<not> ready (chans (shared t) (sub_sender e))"
      using parked_listed [OF less.prems] by (fastforce simp: parked_capacity_None)
    then show ?thesis using less.prems by (intro exI [of _ 0]) (simp add: same_reading_refl)
  next
    case (Some sid)
    then obtain a where a: "(sid, a) \<in> set (parked (loop_top t))" "ready (chans (shared t) a)"
      using parked_capacity_Some by blast
    obtain w where w: "w \<in> set (entries (subscriptions (shared t)))" "sub_id w = sid" "sub_sender w = a"
      "ov_queue (sub_overflow w) \<noteq> []"
      by (rule pruned_entry [OF less.prems a(1)])
    let ?t1 = "handle_parked ts sid (loop_top t)"
    have turn: "parked_turn ts ready t = ?t1" using Some by (simp add: parked_turn_def)
    have w': "w \<in> set (entries (subscriptions (shared (loop_top t))))" using w(1) by simp
    have dec: "parked_frames ?t1 < parked_frames t"
      using wake_progress [OF T w' w(4)] a(2) w(2,3) by simp
    obtain n where n: "n \<le> parked_frames ?t1" "task_inv ((parked_turn ts ready ^^ n) ?t1)"
      "live_sub_ids ((parked_turn ts ready ^^ n) ?t1) \<subseteq> live_sub_ids ?t1"
      "\<forall>e\<in>set (entries (subscriptions (shared ((parked_turn ts ready ^^ n) ?t1)))).
         ov_queue (sub_overflow e) = [] \<or> \<not> ready (chans (shared ((parked_turn ts ready ^^ n) ?t1)) (sub_sender e))"
      "\<forall>e\<in>set (entries (subscriptions (shared ?t1))). same_reading queued rx_closed ?t1 ((parked_turn ts ready ^^ n) ?t1) e"
      using less.hyps [OF dec handle_parked_result [OF T]] unfolding Let_def by blast
    have pow: "(parked_turn ts ready ^^ Suc n) t = (parked_turn ts ready ^^ n) ?t1"
      by (simp add: turn funpow_Suc_right del: funpow.simps)
    have "same_reading queued rx_closed t ?t1 e" if "e \<in> set (entries (subscriptions (shared t)))" for e
      using parked_reading [OF T _ w', of e] that w(2) by (simp add: same_reading_def)
    then have reading: "\<forall>e\<in>set (entries (subscriptions (shared t))).
        same_reading queued rx_closed t ((parked_turn ts ready ^^ n) ?t1) e"
      using same_reading_trans n(5,3) by blast
    have live: "live_sub_ids ((parked_turn ts ready ^^ n) ?t1) \<subseteq> live_sub_ids t"
      using n(3) parked_live [OF T w'] w(2) by (simp add: live_sub_ids_def)
    have "Suc n \<le> parked_frames t" using n(1) dec by simp
    then show ?thesis
      unfolding Let_def using n(2,4) reading live unfolding pow [symmetric] by (intro exI conjI)
  qed
qed

lemma not_ready: "\<not> ready c \<Longrightarrow> ts c f = (Full f, c)"
  using ready_iff [of c f] ts_Full [of c f f "snd (ts c f)"] by (metis prod.collapse)

lemma wake_settles_full:
  assumes "task_inv t"
  shows "\<exists>n \<le> parked_frames t. let t' = (parked_turn ts ready ^^ n) t in
    task_inv t' \<and> parked_capacity ready (chans (shared t')) (parked (loop_top t')) = None \<and>
    (\<forall>e\<in>set (entries (subscriptions (shared t'))). ov_queue (sub_overflow e) \<noteq> [] \<longrightarrow>
       (\<forall>f. ts (chans (shared t') (sub_sender e)) f = (Full f, chans (shared t') (sub_sender e)))) \<and>
    (\<forall>e\<in>set (entries (subscriptions (shared t))). same_reading queued rx_closed t t' e)"
proof -
  obtain n where n: "n \<le> parked_frames t" "task_inv ((parked_turn ts ready ^^ n) t)"
    "\<forall>e\<in>set (entries (subscriptions (shared ((parked_turn ts ready ^^ n) t)))).
       ov_queue (sub_overflow e) = [] \<or> \<not> ready (chans (shared ((parked_turn ts ready ^^ n) t)) (sub_sender e))"
    "\<forall>e\<in>set (entries (subscriptions (shared t))). same_reading queued rx_closed t ((parked_turn ts ready ^^ n) t) e"
    using wake_settles [OF assms] unfolding Let_def by blast
  let ?t = "(parked_turn ts ready ^^ n) t"
  have "\<not> ready (chans (shared ?t) a)" if "(sid, a) \<in> set (parked (loop_top ?t))" for sid a
    using pruned_entry [OF n(2) that] n(3) by metis
  then have none: "parked_capacity ready (chans (shared ?t)) (parked (loop_top ?t)) = None"
    unfolding parked_capacity_None by blast
  have "\<forall>e\<in>set (entries (subscriptions (shared ?t))). ov_queue (sub_overflow e) \<noteq> [] \<longrightarrow>
      (\<forall>f. ts (chans (shared ?t) (sub_sender e)) f = (Full f, chans (shared ?t) (sub_sender e)))"
    using n(3) not_ready by blast
  with n(1,2,4) none show ?thesis unfolding Let_def by (intro exI conjI)
qed

end

text \<open>The bounded buffer as a channel that says when it is ready.\<close>

definition bc_ready :: "'m bounded_chan \<Rightarrow> bool" where
  "bc_ready c \<longleftrightarrow> bc_closed c \<or> length (bc_buf c) < bc_cap c"

interpretation bounded_waking: waking_channel bc_try_send bc_buf bc_closed bc_ready
  by unfold_locales (auto simp: bc_ready_def bc_try_send_def)

section \<open>Property\<close>

text \<open>
  C12. Parked frames move as soon as they can, and serving them ends. While nothing new arrives and no
  consumer reads, after at most as many turns of the branch that waits for room as there are parked
  frames, the loop only waits: every subscription that still has parked frames has a full channel
  whose receiver is there. Nothing was lost, doubled or reordered on the way: what a consumer will
  read of each subscription is what it was, or its receiver is gone and the subscription with it.
\<close>

theorem parked_frames_settle:
  assumes "waking_channel ts queued rx_closed ready" and "task_inv t"
  shows "\<exists>n \<le> parked_frames t. let t' = (parked_turn ts ready ^^ n) t in
    task_inv t' \<and> parked_capacity ready (chans (shared t')) (parked (loop_top t')) = None \<and>
    (\<forall>e\<in>set (entries (subscriptions (shared t'))). ov_queue (sub_overflow e) \<noteq> [] \<longrightarrow>
       (\<forall>f. ts (chans (shared t') (sub_sender e)) f = (Full f, chans (shared t') (sub_sender e)))) \<and>
    (\<forall>e\<in>set (entries (subscriptions (shared t))). same_reading queued rx_closed t t' e)"
  using waking_channel.wake_settles_full [OF assms] .

text \<open>A subscription with one place in its channel and two frames parked behind it.\<close>

definition parked_demo :: "(frame bounded_chan, outbound bounded_chan) task" where
  "parked_demo =
     (let s = shared demo_task;
          ov = (overflow_new 1024 16)\<lparr>ov_queue := [demo_message ''m1'', demo_message ''m2''], ov_warned := True, ov_warn_at := 16\<rparr>
      in demo_task\<lparr>shared := s\<lparr>
             subscriptions := map (\<lambda>(d, v). (d, map (\<lambda>e. e\<lparr>sub_overflow := ov\<rparr>) v)) (subscriptions s)\<rparr>,
           parked := [(''1'', 1)]\<rparr>)"

lemma one_sub_registry:
  "subscriptions one_sub_conn =
     [(''/queue/a'', [\<lparr>sub_id = ''1'', sub_sender = 1, sub_ack = Client, sub_hdrs = [],
        sub_overflow = overflow_new 1024 16, sub_ended = 0\<rparr>])]"
  by code_simp

lemma parked_demo_inv: "task_inv parked_demo" "parked_frames parked_demo = 2"
proof -
  have inv: "task_inv demo_task" by (rule task_inv_demo)
  have s: "shared demo_task = one_sub_conn" by (simp add: demo_task_def task_new_def)
  have "\<exists>k < sub_id_counter one_sub_conn. show_nat k = ''1''"
    using inv by (auto simp: task_inv_def reg_inv_def entry_ok_def s one_sub_registry)
  then show "task_inv parked_demo"
    using inv
    by (auto simp: task_inv_def parked_demo_def s one_sub_registry reg_inv_def entry_ok_def all_distinct_def
        ov_inv_def wake_inv_def pend_inv_def backoff_inv_def receipts_inv_def overflow_new_def Let_def)
  show "parked_frames parked_demo = 2"
    by (simp add: parked_frames_def parked_demo_def s one_sub_registry Let_def)
qed

theorem parked_frames_settle_witness:
  "\<exists>n \<le> 2. let t' = (parked_turn bc_try_send bc_ready ^^ n) parked_demo in
     parked_capacity bc_ready (chans (shared t')) (parked (loop_top t')) = None"
  using parked_frames_settle [OF bounded_waking.waking_channel_axioms parked_demo_inv(1)]
  unfolding parked_demo_inv(2) Let_def by blast

end
