(* ===== verification/Stomp_Timers.thy ===== *)
theory Stomp_Timers
  imports Stomp_Handlers
begin

text \<open>
  The timers of the \<^verbatim>\<open>'conn\<close> loop (\<^verbatim>\<open>src/connection.rs\<close>) while the broker is silent. Each turn of the
  loop waits for the first of: something the application did (an item in the outbound channel, room
  in a parked channel), the next tick of \<^verbatim>\<open>hb_tick\<close>, the watchdog's sleep. The interval keeps its
  deadlines across turns; the sleep is created anew by every \<^verbatim>\<open>select!\<close>, so it counts from the start
  of the turn. Time is nanoseconds; timers fire on their deadline and a handler takes no time. When
  several branches are ready \<^verbatim>\<open>select!\<close> takes one of them at random: \<open>pick\<close> says which.
\<close>

section \<open>The loop's timers\<close>

definition hb_period :: "duration option \<Rightarrow> duration" where
  "hb_period send_interval = (case send_interval of Some d \<Rightarrow> d | None \<Rightarrow> from_secs 86400)"

definition watchdog_half :: "duration option \<Rightarrow> duration option" where
  "watchdog_half recv_interval = map_option (\<lambda>d. d div 2) recv_interval"

datatype wake = AppWake | TickWake | WatchWake

datatype app_event = Queued outbound | Room string

record ('c, 'q) timed =
  tt :: "('c, 'q) task"
  tm_now :: nat
  tm_tick :: nat
  tm_app :: "(nat \<times> app_event) list"

text \<open>The branches a turn waits on, each with the instant it is ready.\<close>

definition wakes :: "duration option \<Rightarrow> ('c, 'q) timed \<Rightarrow> (wake \<times> nat) list" where
  "wakes ri T =
     (case tm_app T of [] \<Rightarrow> [] | (at, _) # _ \<Rightarrow> [(AppWake, max (tm_now T) at)]) @
     [(TickWake, max (tm_now T) (tm_tick T))] @
     (case watchdog_half ri of None \<Rightarrow> [] | Some h \<Rightarrow> [(WatchWake, tm_now T + h)])"

definition next_wake :: "wake \<Rightarrow> (wake \<times> nat) list \<Rightarrow> wake \<times> nat" where
  "next_wake pick ws =
     (let first = Min (snd ` set ws);
          due = map fst (filter (\<lambda>(w, i). i = first) ws)
      in (if pick \<in> set due then pick else hd due, first))"

definition app_step ::
  "('c, frame) try_send \<Rightarrow> write_oracle \<Rightarrow> nat \<Rightarrow> app_event \<Rightarrow> ('c, 'q) task \<Rightarrow> ('c, 'q) task \<times> flow" where
  "app_step ts wok now ev t =
     (case ev of
        Queued out \<Rightarrow> handle_outbound wok now out t
      | Room sid \<Rightarrow> (handle_parked ts sid t, Continue))"

definition silent_turn ::
  "('c, frame) try_send \<Rightarrow> write_oracle \<Rightarrow> duration option \<Rightarrow> duration option \<Rightarrow> wake \<Rightarrow>
   ('c, 'q) timed \<Rightarrow> ('c, 'q) timed \<times> flow" where
  "silent_turn ts wok si ri pick T =
     (case next_wake pick (wakes ri T) of
        (w, at) \<Rightarrow>
          let t = loop_top (tt T); T' = T\<lparr>tt := t, tm_now := at\<rparr>; now = as_millis at
          in case w of
               AppWake \<Rightarrow>
                 (case tm_app T of
                    [] \<Rightarrow> (T', Continue)
                  | (_, ev) # rest \<Rightarrow>
                      (case app_step ts wok now ev t of (t, fl) \<Rightarrow> (T'\<lparr>tt := t, tm_app := rest\<rparr>, fl)))
             | TickWake \<Rightarrow>
                 (case handle_hb_tick wok now si t of
                    (t, fl) \<Rightarrow> (T'\<lparr>tt := t, tm_tick := tm_tick T + hb_period si\<rparr>, fl))
             | WatchWake \<Rightarrow> (T', handle_watchdog now ri t))"

text \<open>Turns of the loop: \<^const>\<open>Inl\<close> when one left it (and when), \<^const>\<open>Inr\<close> when it still waits.\<close>

fun silent_run ::
  "('c, frame) try_send \<Rightarrow> write_oracle \<Rightarrow> duration option \<Rightarrow> duration option \<Rightarrow> (nat \<Rightarrow> wake) \<Rightarrow>
   nat \<Rightarrow> ('c, 'q) timed \<Rightarrow> ('c, 'q) timed + ('c, 'q) timed" where
  "silent_run ts wok si ri pick 0 T = Inr T"
| "silent_run ts wok si ri pick (Suc n) T =
     (case silent_turn ts wok si ri (pick 0) T of
        (T, BreakConn) \<Rightarrow> Inl T
      | (T, Continue) \<Rightarrow> silent_run ts wok si ri (\<lambda>k. pick (Suc k)) n T)"

section \<open>What a turn does\<close>

text \<open>Nothing is received, so the instant of the last reception stays.\<close>

lemma last_received_handlers [simp]:
  "last_received (loop_top t) = last_received t"
  "last_received (handle_parked ts sid t) = last_received t"
  "last_received (snd (write_item wok item t)) = last_received t"
  by (simp_all add: loop_top_def handle_parked_def on_shared_def write_item_def Let_def split: prod.split)

lemma last_received_tick:
  "handle_hb_tick wok now si t = (t', fl) \<Longrightarrow> last_received t' = last_received t"
  by (auto simp: handle_hb_tick_def write_item_def split: option.splits if_splits)

lemma last_received_app:
  "app_step ts wok now ev t = (t', fl) \<Longrightarrow> last_received t' = last_received t"
  by (auto simp: app_step_def handle_outbound_def write_item_def on_shared_def Let_def
      split: app_event.splits option.splits stomp_item.splits if_splits)

lemma next_wake_mem:
  assumes "ws \<noteq> []" and nw: "next_wake pick ws = (w, at)"
  shows "(w, at) \<in> set ws" "\<forall>(w', at')\<in>set ws. at \<le> at'"
proof -
  have at: "at = Min (snd ` set ws)" using nw by (simp add: next_wake_def Let_def)
  define due where "due = map fst (filter (\<lambda>(w, i). i = at) ws)"
  have w: "w = (if pick \<in> set due then pick else hd due)"
    using nw unfolding next_wake_def Let_def due_def at by blast
  have "at \<in> snd ` set ws" unfolding at using assms(1) by (intro Min_in) simp_all
  then have "due \<noteq> []" by (force simp: due_def filter_empty_conv)
  then have "w \<in> set due" using w hd_in_set by metis
  then show "(w, at) \<in> set ws" by (auto simp: due_def)
  show "\<forall>(w', at')\<in>set ws. at \<le> at'" by (force simp: at intro: Min_le)
qed

lemma wakes_nonempty: "wakes ri T \<noteq> []"
  by (simp add: wakes_def)

text \<open>One turn, by the branch it takes.\<close>

lemma silent_turn_cases:
  assumes "silent_turn ts wok si ri pick T = (T', fl)"
  obtains (App) at ev rest where "tm_app T = (at, ev) # rest" "tm_now T' = max (tm_now T) at"
      "tm_now T' \<le> max (tm_now T) (tm_tick T)" "tm_tick T' = tm_tick T" "tm_app T' = rest"
      "\<And>h. watchdog_half ri = Some h \<Longrightarrow> tm_now T' \<le> tm_now T + h"
      "app_step ts wok (as_millis (tm_now T')) ev (loop_top (tt T)) = (tt T', fl)"
  | (Tick) "tm_now T' = max (tm_now T) (tm_tick T)" "tm_tick T' = tm_tick T + hb_period si"
      "tm_app T' = tm_app T" "\<And>h. watchdog_half ri = Some h \<Longrightarrow> tm_now T' \<le> tm_now T + h"
      "handle_hb_tick wok (as_millis (tm_now T')) si (loop_top (tt T)) = (tt T', fl)"
  | (Watch) h where "watchdog_half ri = Some h" "tm_now T' = tm_now T + h"
      "tm_now T' \<le> max (tm_now T) (tm_tick T)" "tm_tick T' = tm_tick T" "tm_app T' = tm_app T"
      "tt T' = loop_top (tt T)" "fl = handle_watchdog (as_millis (tm_now T')) ri (tt T')"
proof -
  obtain w at where wk: "next_wake pick (wakes ri T) = (w, at)" by fastforce
  note mem = next_wake_mem [OF wakes_nonempty wk]
  have "(TickWake, max (tm_now T) (tm_tick T)) \<in> set (wakes ri T)"
    "\<And>h. watchdog_half ri = Some h \<Longrightarrow> (WatchWake, tm_now T + h) \<in> set (wakes ri T)"
    by (simp_all add: wakes_def)
  then have le: "at \<le> max (tm_now T) (tm_tick T)" "\<And>h. watchdog_half ri = Some h \<Longrightarrow> at \<le> tm_now T + h"
    using mem(2) by fast+
  show thesis
  proof (cases w)
    case AppWake
    then obtain a ev rest where app: "tm_app T = (a, ev) # rest" "at = max (tm_now T) a"
      using mem(1) by (cases "tm_app T") (auto simp: wakes_def split: option.splits)
    obtain t fl' where step: "app_step ts wok (as_millis at) ev (loop_top (tt T)) = (t, fl')" by fastforce
    have "T' = T\<lparr>tm_now := at, tt := t, tm_app := rest\<rparr>" "fl = fl'"
      using assms wk AppWake app(1) step by (simp_all add: silent_turn_def Let_def)
    then show thesis using App [OF app(1)] app(2) le step by simp
  next
    case TickWake
    then have at: "at = max (tm_now T) (tm_tick T)"
      using mem(1) by (auto simp: wakes_def split: list.splits option.splits)
    obtain t fl' where step: "handle_hb_tick wok (as_millis at) si (loop_top (tt T)) = (t, fl')" by fastforce
    have "T' = T\<lparr>tm_now := at, tt := t, tm_tick := tm_tick T + hb_period si\<rparr>" "fl = fl'"
      using assms wk TickWake step by (simp_all add: silent_turn_def Let_def)
    then show thesis using Tick at le step by simp
  next
    case WatchWake
    then obtain h where h: "watchdog_half ri = Some h" "at = tm_now T + h"
      using mem(1) by (cases "watchdog_half ri") (auto simp: wakes_def split: list.splits)
    have "T' = T\<lparr>tt := loop_top (tt T), tm_now := at\<rparr>" "fl = handle_watchdog (as_millis at) ri (loop_top (tt T))"
      using assms wk WatchWake by (simp_all add: silent_turn_def Let_def)
    then show thesis using Watch [OF h(1)] h(2) le by simp
  qed
qed

lemma silent_turn_received:
  assumes "silent_turn ts wok si ri pick T = (T', fl)"
  shows "last_received (tt T') = last_received (tt T)"
  using assms
  by (cases rule: silent_turn_cases) (auto dest: last_received_app last_received_tick)

section \<open>A silent broker is detected\<close>

lemma half_millis: "watchdog_half (Some (from_millis m)) = Some (m * 500000)"
  by (simp add: watchdog_half_def from_millis_def)

text \<open>The watchdog gives up once more than twice the interval has passed, in whole milliseconds.\<close>

lemma watchdog_flow:
  assumes "m * 2 < u64_limit"
  shows "handle_watchdog (as_millis at) (Some (from_millis m)) t =
    (if (last_received t + 2 * m + 1) * 1000000 \<le> at then BreakConn else Continue)"
proof -
  have "m * 2 < at div 1000000 - last_received t \<longleftrightarrow> last_received t + 2 * m + 1 \<le> at div 1000000"
    by linarith
  also have "\<dots> \<longleftrightarrow> (last_received t + 2 * m + 1) * 1000000 \<le> at"
    by (rule less_eq_div_iff_mult_less_eq) simp
  finally show ?thesis
    using assms by (simp add: handle_watchdog_def watchdog_expired_def) (simp add: as_millis_def)
qed

text \<open>
  A quiet application: nothing is queued and no parked channel gets room. \<open>alarm\<close> is the first
  instant at which a check gives up; past it the next branch ready is the watchdog's.
\<close>

definition alarm :: "nat \<Rightarrow> nat \<Rightarrow> nat" where
  "alarm m heard = (heard + 2 * m + 1) * 1000000"

definition watching :: "nat \<Rightarrow> nat \<Rightarrow> ('c, 'q) timed \<Rightarrow> bool" where
  "watching m heard T \<longleftrightarrow>
     tm_app T = [] \<and> tm_now T \<le> tm_tick T \<and> last_received (tt T) = heard \<and>
     tm_now T < alarm m heard + m * 500000 \<and>
     (alarm m heard \<le> tm_now T \<longrightarrow> tm_now T + m * 500000 < tm_tick T)"

definition distance :: "nat \<Rightarrow> nat \<Rightarrow> ('c, 'q) timed \<Rightarrow> nat" where
  "distance m heard T =
     2 * (alarm m heard + m * 500000 - tm_now T) + (if tm_tick T \<le> tm_now T + m * 500000 then 1 else 0)"

text \<open>
  When ticks are further apart than half the receive interval, a turn gives the connection up within
  one receive interval of the alarm, or comes nearer to it.
\<close>

lemma watching_turn:
  assumes w: "watching m heard T" and m: "0 < m" "m * 2 < u64_limit" and period: "m * 500000 < hb_period si"
    and turn: "silent_turn ts wok si (Some (from_millis m)) pick T = (T1, fl)"
  shows "(fl = BreakConn \<and> tm_now T1 < alarm m heard + m * 1000000) \<or>
    (fl = Continue \<and> watching m heard T1 \<and> distance m heard T1 < distance m heard T)"
proof -
  have lr: "last_received (tt T1) = heard"
    using silent_turn_received [OF turn] w by (simp add: watching_def)
  show ?thesis
    using turn
  proof (cases rule: silent_turn_cases)
    case (App at ev rest)
    then show ?thesis using w by (simp add: watching_def)
  next
    case Tick
    have t1: "tm_now T1 = tm_tick T" "tm_tick T \<le> tm_now T + m * 500000"
      using Tick(1) Tick(4) [OF half_millis] w by (simp_all add: watching_def)
    then have near: "tm_now T < alarm m heard" "tm_now T \<le> tm_tick T" using w by (auto simp: watching_def)
    then have "watching m heard T1"
      using t1 Tick(2,3) period lr w by (simp add: watching_def)
    moreover have "distance m heard T1 < distance m heard T"
      using t1 near Tick(2) period by (simp add: distance_def)
    ultimately show ?thesis using t1 near m(1) by (cases fl) simp_all
  next
    case (Watch h)
    have h: "tm_now T1 = tm_now T + m * 500000" using Watch(1,2) half_millis by simp
    have fl: "fl = (if alarm m heard \<le> tm_now T1 then BreakConn else Continue)"
      using Watch(7) watchdog_flow [OF m(2), of "tm_now T1" "tt T1"] lr by (simp add: alarm_def)
    have "tm_now T + m * 500000 \<le> tm_tick T" using Watch(3) h m(1) by (simp add: max_def split: if_splits)
    then have "watching m heard T1" if "tm_now T1 < alarm m heard"
      using that h Watch(4,5) lr w by (simp add: watching_def)
    moreover have "distance m heard T1 < distance m heard T" if "tm_now T1 < alarm m heard"
      using that h m(1) by (auto simp: distance_def)
    ultimately show ?thesis using fl h w by (auto simp: watching_def not_le)
  qed
qed

lemma silent_detected:
  assumes "watching m heard T" and "0 < m" "m * 2 < u64_limit" "m * 500000 < hb_period si"
  shows "\<exists>n T'. silent_run ts wok si (Some (from_millis m)) pick n T = Inl T' \<and>
    tm_now T' < alarm m heard + m * 1000000"
  using assms(1)
proof (induction "distance m heard T" arbitrary: T pick rule: less_induct)
  case less
  obtain T1 fl where turn: "silent_turn ts wok si (Some (from_millis m)) (pick 0) T = (T1, fl)" by fastforce
  from watching_turn [OF less.prems assms(2-4) turn] show ?case
  proof (elim disjE conjE)
    assume "fl = BreakConn" "tm_now T1 < alarm m heard + m * 1000000"
    then show ?thesis using turn by (intro exI [of _ "Suc 0"] exI [of _ T1]) simp
  next
    assume next_turn: "fl = Continue" "watching m heard T1" "distance m heard T1 < distance m heard T"
    obtain n T' where "silent_run ts wok si (Some (from_millis m)) (\<lambda>k. pick (Suc k)) n T1 = Inl T'"
      "tm_now T' < alarm m heard + m * 1000000"
      using less.hyps [OF next_turn(3,2)] by blast
    then show ?thesis using turn next_turn(1) by (intro exI [of _ "Suc n"] exI [of _ T']) simp
  qed
qed

text \<open>When every write succeeds only the watchdog leaves the loop, and not before the alarm.\<close>

lemma app_step_written:
  "app_step ts (\<lambda>_ _. True) now ev t = (t', fl) \<Longrightarrow> fl = Continue"
  by (auto simp: app_step_def handle_outbound_def write_item_def Let_def split: app_event.splits option.splits)

lemma tick_written: "handle_hb_tick (\<lambda>_ _. True) now si t = (t', fl) \<Longrightarrow> fl = Continue"
  by (auto simp: handle_hb_tick_def write_item_def split: option.splits if_splits)

lemma no_early_alarm:
  assumes "silent_run ts (\<lambda>_ _. True) si (Some (from_millis m)) pick n T = Inl T'" and "m * 2 < u64_limit"
  shows "alarm m (last_received (tt T)) \<le> tm_now T'"
  using assms(1)
proof (induction n arbitrary: T pick)
  case (Suc n)
  obtain T1 fl where turn: "silent_turn ts (\<lambda>_ _. True) si (Some (from_millis m)) (pick 0) T = (T1, fl)" by fastforce
  have lr: "last_received (tt T1) = last_received (tt T)" by (rule silent_turn_received [OF turn])
  show ?case
  proof (cases fl)
    case Continue
    then show ?thesis using Suc.IH [of "\<lambda>k. pick (Suc k)" T1] Suc.prems turn lr by simp
  next
    case BreakConn
    then have T': "T' = T1" using Suc.prems turn by simp
    show ?thesis
      using turn
    proof (cases rule: silent_turn_cases)
      case (Watch h)
      then show ?thesis
        using BreakConn T' lr watchdog_flow [OF assms(2), of "tm_now T1" "tt T1"]
        by (simp add: alarm_def split: if_splits)
    qed (use BreakConn app_step_written tick_written in \<open>blast+\<close>)
  qed
qed simp

text \<open>Without a receive interval there is no watchdog, and nothing else leaves a loop whose writes succeed.\<close>

lemma unwatched_run:
  "\<exists>T'. silent_run ts (\<lambda>_ _. True) si None pick n T = Inr T'"
proof (induction n arbitrary: T pick)
  case (Suc n)
  obtain T1 fl where turn: "silent_turn ts (\<lambda>_ _. True) si None (pick 0) T = (T1, fl)" by fastforce
  then have "fl = Continue"
    by (cases rule: silent_turn_cases) (use app_step_written tick_written in \<open>auto simp: watchdog_half_def\<close>)
  then show ?case using Suc.IH [of "\<lambda>k. pick (Suc k)" T1] turn by simp
qed simp

section \<open>A busy loop does not watch\<close>

text \<open>
  Ticks closer together than half the receive interval: each one starts a new turn, and with it a new
  sleep, before the old one is over. \<open>k\<close> counts the ticks.
\<close>

lemma busy_turn:
  assumes "si = Some s" and ri: "ri = Some r" "s < r div 2" and "tm_tick T \<le> tm_now T + s"
    and turn: "silent_turn ts (\<lambda>_ _. True) si ri pick T = (T1, fl)"
  shows "fl = Continue" "tm_tick T1 \<le> tm_now T1 + s"
    "tm_tick T1 = tm_tick T + s \<and> tm_app T1 = tm_app T \<or>
     tm_tick T1 = tm_tick T \<and> length (tm_app T) = Suc (length (tm_app T1))"
proof -
  have "fl = Continue \<and> tm_tick T1 \<le> tm_now T1 + s \<and>
    (tm_tick T1 = tm_tick T + s \<and> tm_app T1 = tm_app T \<or>
     tm_tick T1 = tm_tick T \<and> length (tm_app T) = Suc (length (tm_app T1)))"
    using turn
  proof (cases rule: silent_turn_cases)
    case (App at ev rest)
    then show ?thesis using assms(4) app_step_written by fastforce
  next
    case Tick
    then show ?thesis using assms(1,4) tick_written by (fastforce simp: hb_period_def)
  next
    case (Watch h)
    then show ?thesis using assms(4) ri by (auto simp: watchdog_half_def)
  qed
  then show "fl = Continue" "tm_tick T1 \<le> tm_now T1 + s"
    "tm_tick T1 = tm_tick T + s \<and> tm_app T1 = tm_app T \<or>
     tm_tick T1 = tm_tick T \<and> length (tm_app T) = Suc (length (tm_app T1))"
    by simp_all
qed

lemma busy_run:
  assumes "si = Some s" and "ri = Some r" "s < r div 2" and "tm_tick T \<le> tm_now T + s"
  shows "\<exists>T' k. silent_run ts (\<lambda>_ _. True) si ri pick n T = Inr T' \<and>
    last_received (tt T') = last_received (tt T) \<and> n \<le> k + length (tm_app T) \<and>
    tm_tick T + k * s \<le> tm_now T' + s"
  using assms(4)
proof (induction n arbitrary: T pick)
  case 0
  then show ?case by (intro exI [of _ T] exI [of _ 0]) simp
next
  case (Suc n)
  obtain T1 fl where turn: "silent_turn ts (\<lambda>_ _. True) si ri (pick 0) T = (T1, fl)" by fastforce
  note busy = busy_turn [OF assms(1-3) Suc.prems turn]
  obtain T' k where run: "silent_run ts (\<lambda>_ _. True) si ri (\<lambda>k. pick (Suc k)) n T1 = Inr T'"
    "last_received (tt T') = last_received (tt T1)" "n \<le> k + length (tm_app T1)"
    "tm_tick T1 + k * s \<le> tm_now T' + s"
    using Suc.IH [OF busy(2)] by blast
  have "\<exists>k'. Suc n \<le> k' + length (tm_app T) \<and> tm_tick T + k' * s \<le> tm_now T' + s"
    using busy(3) run(3,4) by (elim disjE) (rule exI [of _ "Suc k"], simp, rule exI [of _ k], simp)
  then show ?case
    using run(1,2) turn busy(1) silent_turn_received [OF turn] by auto
qed

section \<open>A silent broker\<close>

lemma silent_given_up:
  assumes "tm_app T = []" and "tm_now T \<le> tm_tick T" and "as_millis (tm_now T) = last_received (tt T)"
    and "0 < m" and "m * 2 < u64_limit" and "from_millis m div 2 < hb_period si"
  shows "\<exists>n T'. silent_run ts wok si (Some (from_millis m)) pick n T = Inl T' \<and>
    as_millis (tm_now T') \<le> last_received (tt T) + 3 * m \<and>
    (wok = (\<lambda>_ _. True) \<longrightarrow> last_received (tt T) + 2 * m < as_millis (tm_now T'))"
proof -
  let ?last = "last_received (tt T)"
  have "tm_now T < (?last + 1) * 1000000"
    using assms(3) by (simp add: as_millis_def flip: div_less_iff_less_mult)
  then have "watching m ?last T" using assms(1,2) by (simp add: watching_def alarm_def)
  moreover have "m * 500000 < hb_period si" using assms(6) by (simp add: from_millis_def)
  ultimately obtain n T' where run: "silent_run ts wok si (Some (from_millis m)) pick n T = Inl T'"
    "tm_now T' < alarm m ?last + m * 1000000"
    using silent_detected [OF _ assms(4,5)] by blast
  have "tm_now T' < (?last + 3 * m + 1) * 1000000" using run(2) by (simp add: alarm_def algebra_simps)
  then have "as_millis (tm_now T') \<le> ?last + 3 * m"
    unfolding as_millis_def by (simp add: div_less_iff_less_mult flip: less_Suc_eq_le)
  moreover have "?last + 2 * m < as_millis (tm_now T')" if "wok = (\<lambda>_ _. True)"
    using no_early_alarm [OF run(1) [unfolded that] assms(5)]
    by (simp add: alarm_def as_millis_def less_eq_div_iff_mult_less_eq flip: Suc_le_eq)
  ultimately show ?thesis using run(1) by blast
qed

section \<open>Properties\<close>

text \<open>
  C20. A broker that falls silent is noticed. While the application is quiet and heart-beat ticks are
  further apart than half the receive interval (no ticks, the default of equal intervals, ...), the
  session is given up, in whatever order simultaneous branches are taken and whatever writes
  succeed, at most three receive intervals after the last thing received; and, when no write fails,
  not before two of them have passed.
\<close>

theorem silent_broker_detected:
  assumes "tm_app T = []" and "tm_now T \<le> tm_tick T" and "as_millis (tm_now T) = last_received (tt T)"
    and "0 < m" and "m * 2 < u64_limit" and "from_millis m div 2 < hb_period si"
  shows "\<exists>n T'. silent_run ts wok si (Some (from_millis m)) pick n T = Inl T' \<and>
    as_millis (tm_now T') \<le> last_received (tt T) + 3 * m \<and>
    (wok = (\<lambda>_ _. True) \<longrightarrow> last_received (tt T) + 2 * m < as_millis (tm_now T'))"
  by (rule silent_given_up [OF assms])

definition demo_timed :: "(frame bounded_chan, outbound bounded_chan) timed" where
  "demo_timed = \<lparr>tt = demo_task, tm_now = 0, tm_tick = 0, tm_app = []\<rparr>"

theorem silent_broker_detected_witness:
  "\<exists>n T'. silent_run bc_try_send (\<lambda>_ _. True) (Some (from_millis 10000)) (Some (from_millis 10000))
     (\<lambda>_. TickWake) n demo_timed = Inl T' \<and> as_millis (tm_now T') \<le> 30000 \<and> 20000 < as_millis (tm_now T')"
  using silent_broker_detected [of demo_timed 10000 "Some (from_millis 10000)" bc_try_send "\<lambda>_ _. True" "\<lambda>_. TickWake"]
  by (simp add: demo_timed_def demo_task_def task_new_def hb_period_def from_millis_def as_millis_def u64_limit_def)

text \<open>
  C21. The watchdog can be starved. When ticks come closer together than half the receive interval, and
  every write succeeds, then whatever else the application does and whatever branch is taken on a
  tie, no turn ever gives the connection up: the loop runs for any number of turns and past any
  instant with nothing received, because each tick starts a new sleep before the old one is over.
\<close>

theorem watchdog_starved:
  assumes "si = Some s" and "ri = Some r" and "0 < s" and "s < r div 2" and "tm_tick T \<le> tm_now T + s"
  shows "(\<forall>n. \<exists>T'. silent_run ts (\<lambda>_ _. True) si ri pick n T = Inr T') \<and>
    (\<forall>instant. \<exists>n T'. silent_run ts (\<lambda>_ _. True) si ri pick n T = Inr T' \<and>
       instant \<le> tm_now T' \<and> last_received (tt T') = last_received (tt T))"
proof (intro conjI allI)
  note run = busy_run [OF assms(1,2,4,5)]
  show "\<exists>T'. silent_run ts (\<lambda>_ _. True) si ri pick n T = Inr T'" for n
    using run [of ts pick n] by blast
  fix instant
  let ?n = "instant + 1 + length (tm_app T)"
  obtain T' k where T': "silent_run ts (\<lambda>_ _. True) si ri pick ?n T = Inr T'"
    "last_received (tt T') = last_received (tt T)" "instant + 1 \<le> k" "tm_tick T + k * s \<le> tm_now T' + s"
    using run [of ts pick ?n] by auto
  have "instant * s + s \<le> k * s" using mult_le_mono1 [OF T'(3), of s] by simp
  moreover have "instant \<le> instant * s" using assms(3) by simp
  ultimately have "instant \<le> tm_now T'" using T'(4) by linarith
  then show "\<exists>n T'. silent_run ts (\<lambda>_ _. True) si ri pick n T = Inr T' \<and>
      instant \<le> tm_now T' \<and> last_received (tt T') = last_received (tt T)"
    using T'(1,2) by blast
qed

theorem watchdog_starved_witness:
  "case negotiate_heartbeats 1000 10000 0 0 of (si, ri) \<Rightarrow>
     \<exists>n T'. silent_run bc_try_send (\<lambda>_ _. True) si ri (\<lambda>_. WatchWake) n demo_timed = Inr T' \<and>
       from_secs 3600 \<le> tm_now T' \<and> last_received (tt T') = 0"
proof -
  have neg: "negotiate_heartbeats 1000 10000 0 0 = (Some (from_millis 1000), Some (from_millis 10000))"
    by (simp add: negotiate_heartbeats_def)
  have "\<forall>instant. \<exists>n T'. silent_run bc_try_send (\<lambda>_ _. True) (Some (from_millis 1000)) (Some (from_millis 10000))
      (\<lambda>_. WatchWake) n demo_timed = Inr T' \<and>
       instant \<le> tm_now T' \<and> last_received (tt T') = last_received (tt demo_timed)"
    by (rule watchdog_starved [THEN conjunct2, OF refl refl]) (simp_all add: from_millis_def demo_timed_def)
  then show ?thesis by (simp add: neg demo_timed_def demo_task_def task_new_def)
qed

end
