(* ===== verification/Stomp_Connect.thy ===== *)
theory Stomp_Connect
  imports Stomp_Handlers
begin

text \<open>
  Establishing the connection (\<^verbatim>\<open>src/connection.rs\<close>): the attempt loop of
  \<^verbatim>\<open>connect_with_options\<close> with its back-off and its optional time bound, and the reconnect loop of
  the background task. What the network does is a list of attempts: how each one ended and how
  long it took. Times are nanoseconds, like \<^verbatim>\<open>Duration\<close>.
\<close>

section \<open>One attempt\<close>

text \<open>
  The dial fails, the CONNECT frame cannot be written, or the broker talks: the results of
  \<^verbatim>\<open>framed.next()\<close> in the order they come, which may depend on the CONNECT frame.
\<close>

datatype dial = NoDial io_error | NoSend io_error | Talk "stream_event list"

record attempt =
  at_dial :: "frame \<Rightarrow> dial"
  at_took :: duration

type_synonym intervals = "duration option \<times> duration option"

definition negotiated :: "string \<Rightarrow> string \<Rightarrow> intervals" where
  "negotiated client_hb server_hb =
     (case parse_heartbeat_header client_hb of
        (cx, cy) \<Rightarrow>
          (case parse_heartbeat_header server_hb of
             (sx, sy) \<Rightarrow> negotiate_heartbeats cx cy sx sy))"

text \<open>
  What every attempt of one connection uses: the CONNECT frame and the client's own heart-beat.
\<close>

record credentials =
  cr_frame :: frame
  cr_hb :: string

definition credentials_of :: "string \<Rightarrow> string \<Rightarrow> string \<Rightarrow> connect_config \<Rightarrow> credentials" where
  "credentials_of login passcode client_hb cfg =
     \<lparr>cr_frame = build_connect_frame (cfg_accept_version cfg) (cfg_host cfg) login passcode client_hb
                   (cfg_client_id cfg) (cfg_custom_headers cfg),
      cr_hb = client_hb\<rparr>"

definition attempt_outcome :: "credentials \<Rightarrow> attempt \<Rightarrow> (conn_error, intervals) result option" where
  "attempt_outcome cr a =
     (case at_dial a (cr_frame cr) of
        NoDial e \<Rightarrow> Some (Inl (Io e))
      | NoSend e \<Rightarrow> Some (Inl (Io e))
      | Talk es \<Rightarrow> map_option (map_sum id (negotiated (cr_hb cr))) (await_connected_response es))"

section \<open>The first connection\<close>

text \<open>
  How the attempt future ends under the bound: with a connection, with an error that is not
  retried, cut by the bound (with the last error seen), or, without a bound, not yet.
\<close>

datatype connect_end =
    Connected intervals
  | Refused conn_error
  | Elapsed "conn_error option"
  | Waiting

definition over :: "duration option \<Rightarrow> duration \<Rightarrow> bool" where
  "over bound at = (case bound of Some b \<Rightarrow> b < at | None \<Rightarrow> False)"

definition cut :: "duration option \<Rightarrow> conn_error option \<Rightarrow> connect_end" where
  "cut bound last_err = (case bound of Some _ \<Rightarrow> Elapsed last_err | None \<Rightarrow> Waiting)"

text \<open>
  The loop, from the time \<open>at\<close> with the current back-off and the last error: how it ends, when,
  and the back-offs it slept.
\<close>

fun connect_loop ::
  "duration option \<Rightarrow> credentials \<Rightarrow> attempt list \<Rightarrow> duration \<Rightarrow> nat \<Rightarrow> conn_error option \<Rightarrow>
   connect_end \<times> duration \<times> nat list" where
  "connect_loop bound cr [] at backoff last_err =
     (cut bound last_err, unwrap_or at bound, [])"
| "connect_loop bound cr (a # as) at backoff last_err =
     (let answered = at + at_took a
      in case attempt_outcome cr a of
           None \<Rightarrow> (cut bound last_err, unwrap_or answered bound, [])
         | Some r \<Rightarrow>
             if over bound answered then (Elapsed last_err, unwrap_or answered bound, [])
             else
               (case r of
                  Inr iv \<Rightarrow> (Connected iv, answered, [])
                | Inl (ServerRejected e) \<Rightarrow> (Refused (ServerRejected e), answered, [])
                | Inl e \<Rightarrow>
                    let woken = answered + from_secs backoff
                    in if over bound woken then (Elapsed (Some e), unwrap_or woken bound, [])
                       else
                         (case connect_loop bound cr as woken (backoff_double backoff) (Some e) of
                            (r, t, sleeps) \<Rightarrow> (r, t, backoff # sleeps))))"

text \<open>The error synthesized when the bound elapses before any attempt failed.\<close>

definition timeout_error :: "(duration \<Rightarrow> string) \<Rightarrow> string \<Rightarrow> duration \<Rightarrow> conn_error" where
  "timeout_error dur_text addr bound =
     Io (OsError TimedOut (''connect to '' @ addr @ '' timed out after '' @ dur_text bound))"

definition connect_with_options ::
  "(duration \<Rightarrow> string) \<Rightarrow> string \<Rightarrow> string \<Rightarrow> string \<Rightarrow> string \<Rightarrow> connect_options \<Rightarrow> attempt list \<Rightarrow>
   nat \<Rightarrow> 'q \<Rightarrow> (chan_id \<Rightarrow> 'c) \<Rightarrow> (conn_error, ('c, 'q) task \<times> intervals) result option" where
  "connect_with_options dur_text addr login passcode client_hb opts attempts now q cs =
     (let cfg = connect_config_of opts;
          bound = cfg_connect_timeout cfg;
          cr = credentials_of login passcode client_hb cfg
      in case fst (connect_loop bound cr attempts 0 1 None) of
           Connected iv \<Rightarrow> Some (Inr (task_new now (conn_new q cs), iv))
         | Refused e \<Rightarrow> Some (Inl e)
         | Elapsed last_err \<Rightarrow>
             Some (Inl (unwrap_or (timeout_error dur_text addr (unwrap_or 0 bound)) last_err))
         | Waiting \<Rightarrow> None)"

definition connect ::
  "(duration \<Rightarrow> string) \<Rightarrow> string \<Rightarrow> string \<Rightarrow> string \<Rightarrow> string \<Rightarrow> attempt list \<Rightarrow>
   nat \<Rightarrow> 'q \<Rightarrow> (chan_id \<Rightarrow> 'c) \<Rightarrow> (conn_error, ('c, 'q) task \<times> intervals) result option" where
  "connect dur_text addr login passcode client_hb attempts now q cs =
     connect_with_options dur_text addr login passcode client_hb connect_options_new attempts now q cs"

section \<open>Reconnecting\<close>

text \<open>
  The background task's own attempts. For each: whether the shutdown signal is there when the loop
  begins, the attempt, and whether the signal comes during the back-off that follows a failure. A
  rejection is retried like any other failure.
\<close>

datatype reconnect_end = Back intervals | Stopped | Trying

fun reconnect_loop ::
  "credentials \<Rightarrow> (bool \<times> attempt \<times> bool) list \<Rightarrow> ('c, 'q) task \<Rightarrow> reconnect_end \<times> ('c, 'q) task" where
  "reconnect_loop cr [] t = (Trying, t)"
| "reconnect_loop cr ((stop, a, stop_asleep) # as) t =
     (if stop then (Stopped, t)
      else
        (case attempt_outcome cr a of
           None \<Rightarrow> (Trying, t)
         | Some (Inr iv) \<Rightarrow> (Back iv, t)
         | Some (Inl _) \<Rightarrow>
             if stop_asleep then (Stopped, t) else reconnect_loop cr as (failed_attempt t)))"

section \<open>How the loop ends\<close>

text \<open>An attempt that failed in a way the first connection retries.\<close>

definition retried :: "credentials \<Rightarrow> attempt \<Rightarrow> bool" where
  "retried cr a \<longleftrightarrow> (\<exists>e. attempt_outcome cr a = Some (Inl e) \<and> (\<forall>x. e \<noteq> ServerRejected x))"

lemma connect_loop_cases:
  assumes "connect_loop bound cr (a # as) at b le = (r, t, sleeps)"
  obtains (Unanswered) "attempt_outcome cr a = None" "r = cut bound le" "t = unwrap_or (at + at_took a) bound"
      "sleeps = []"
  | (Late) "over bound (at + at_took a)" "r = Elapsed le" "t = unwrap_or (at + at_took a) bound" "sleeps = []"
  | (Answered) iv where "attempt_outcome cr a = Some (Inr iv)" "\<not> over bound (at + at_took a)"
      "r = Connected iv" "t = at + at_took a" "sleeps = []"
  | (Rejected) x where "attempt_outcome cr a = Some (Inl (ServerRejected x))" "\<not> over bound (at + at_took a)"
      "r = Refused (ServerRejected x)" "t = at + at_took a" "sleeps = []"
  | (Overslept) e where "attempt_outcome cr a = Some (Inl e)" "retried cr a"
      "over bound (at + at_took a + from_secs b)" "r = Elapsed (Some e)"
      "t = unwrap_or (at + at_took a + from_secs b) bound" "sleeps = []"
  | (Retry) e sleeps' where "attempt_outcome cr a = Some (Inl e)" "retried cr a"
      "\<not> over bound (at + at_took a + from_secs b)" "sleeps = b # sleeps'"
      "connect_loop bound cr as (at + at_took a + from_secs b) (backoff_double b) (Some e) = (r, t, sleeps')"
proof (cases "attempt_outcome cr a")
  case None
  with assms show ?thesis by (intro Unanswered) auto
next
  case (Some res)
  show ?thesis
  proof (cases "over bound (at + at_took a)")
    case True
    with assms Some show ?thesis by (intro Late) (auto simp: Let_def)
  next
    case False
    show ?thesis
    proof (cases res)
      case (Inr iv)
      with assms Some False show ?thesis by (intro Answered) (auto simp: Let_def)
    next
      case (Inl e)
      show ?thesis
      proof (cases "\<exists>x. e = ServerRejected x")
        case True
        with assms Some Inl False show ?thesis by (auto simp: Let_def intro: Rejected)
      next
        case other: False
        then have ret: "retried cr a" using Some Inl by (auto simp: retried_def)
        let ?woken = "at + at_took a + from_secs b"
        have eq: "connect_loop bound cr (a # as) at b le =
            (if over bound ?woken then (Elapsed (Some e), unwrap_or ?woken bound, [])
             else (case connect_loop bound cr as ?woken (backoff_double b) (Some e) of
                     (r, t, sleeps) \<Rightarrow> (r, t, b # sleeps)))"
          using Some Inl False other by (cases e) (simp_all add: Let_def)
        show ?thesis
          using assms Some Inl ret unfolding eq
          by (cases "over bound ?woken") (auto intro: Overslept Retry split: prod.splits)
      qed
    qed
  qed
qed

lemma backoff_double_pow: "(backoff_double ^^ k) 1 = min (2 ^ k) 30"
  by (induction k) (auto simp: backoff_double_def)

lemma backoff_shift:
  "b # map (\<lambda>k. (backoff_double ^^ k) (backoff_double b)) [0..<n] = map (\<lambda>k. (backoff_double ^^ k) b) [0..<Suc n]"
  by (simp add: upt_conv_Cons map_Suc_upt [symmetric] funpow_swap1 del: upt_Suc)

lemma connect_loop_sleeps:
  "connect_loop bound cr as at b le = (r, t, sleeps) \<Longrightarrow>
     sleeps = map (\<lambda>k. (backoff_double ^^ k) b) [0..<length sleeps]"
proof (induction as arbitrary: at b le sleeps)
  case (Cons a as)
  show ?case
    using Cons.prems
  proof (cases rule: connect_loop_cases)
    case (Retry e sleeps')
    show ?thesis
      using Cons.IH [OF Retry(5)] backoff_shift [of b "length sleeps'"] Retry(4)
      by (simp del: upt_Suc)
  qed simp_all
qed simp


lemma connect_loop_end:
  "connect_loop bound cr as at b le = (r, t, sleeps) \<Longrightarrow>
    (\<forall>k < length sleeps. k < length as \<and> retried cr (as ! k)) \<and>
    (case r of
       Connected iv \<Rightarrow> length sleeps < length as \<and> attempt_outcome cr (as ! length sleeps) = Some (Inr iv)
     | Refused e \<Rightarrow> length sleeps < length as \<and> attempt_outcome cr (as ! length sleeps) = Some (Inl e) \<and>
         (\<exists>x. e = ServerRejected x)
     | Elapsed e \<Rightarrow> bound \<noteq> None
     | Waiting \<Rightarrow> bound = None)"
proof (induction as arbitrary: at b le sleeps)
  case Nil
  then show ?case by (auto simp: cut_def split: option.splits)
next
  case (Cons a as)
  show ?case
    using Cons.prems
  proof (cases rule: connect_loop_cases)
    case (Retry e sleeps')
    then show ?thesis
      using Cons.IH [OF Retry(5)] by (auto simp: nth_Cons split: nat.splits connect_end.splits)
  qed (auto simp: cut_def over_def split: option.splits)
qed


section \<open>Reconnecting\<close>

text \<open>
  Every failure, a rejection included, is slept on and retried; only a stop signal or a
  connection ends the loop.
\<close>

lemma capped_twice: "min (min (b * 2) 30 * 2 ^ n) 30 = min (b * 2 ^ Suc n) (30::nat)"
proof -
  have p: "1 \<le> (2::nat) ^ n" by simp
  show ?thesis
  proof (cases "b * 2 \<le> 30")
    case False
    have "30 * 1 \<le> 30 * (2::nat) ^ n" using p by (intro mult_le_mono) simp_all
    moreover have "30 * 1 \<le> b * 2 * 2 ^ n" using False p by (intro mult_le_mono) simp_all
    moreover have "min (b * 2) 30 = 30" "b * 2 ^ Suc n = b * 2 * 2 ^ n" using False by simp_all
    ultimately show ?thesis by (simp only: min_absorb2 mult_1_right)
  qed (simp add: min_def mult.assoc)
qed

lemma reconnect_loop_end:
  "reconnect_loop cr as t = (r, t') \<Longrightarrow>
    (\<exists>n \<le> length as.
       (\<forall>k<n. \<not> fst (as ! k) \<and> \<not> snd (snd (as ! k)) \<and>
          (\<exists>e. attempt_outcome cr (fst (snd (as ! k))) = Some (Inl e))) \<and>
       t' = t\<lparr>backoff_secs := if n = 0 then backoff_secs t else min (backoff_secs t * 2 ^ n) 30\<rparr> \<and>
       (case r of
          Back iv \<Rightarrow> n < length as \<and> \<not> fst (as ! n) \<and> attempt_outcome cr (fst (snd (as ! n))) = Some (Inr iv)
        | Stopped \<Rightarrow> n < length as \<and> (fst (as ! n) \<or>
            snd (snd (as ! n)) \<and> (\<exists>e. attempt_outcome cr (fst (snd (as ! n))) = Some (Inl e)))
        | Trying \<Rightarrow> n = length as \<or>
            \<not> fst (as ! n) \<and> attempt_outcome cr (fst (snd (as ! n))) = None))"
proof (induction cr as t rule: reconnect_loop.induct)
  case (1 cr t)
  then show ?case by simp
next
  case (2 cr stop a asleep as t)
  show ?case
  proof (cases "\<not> stop \<and> \<not> asleep \<and> (\<exists>e. attempt_outcome cr a = Some (Inl e))")
    case True
    then obtain e where e: "attempt_outcome cr a = Some (Inl e)" by blast
    have "reconnect_loop cr as (failed_attempt t) = (r, t')" using "2.prems" e True by simp
    then obtain n where n: "n \<le> length as"
      "\<forall>k<n. \<not> fst (as ! k) \<and> \<not> snd (snd (as ! k)) \<and>
          (\<exists>e. attempt_outcome cr (fst (snd (as ! k))) = Some (Inl e))"
      "t' = (failed_attempt t)\<lparr>backoff_secs := if n = 0 then backoff_secs (failed_attempt t)
         else min (backoff_secs (failed_attempt t) * 2 ^ n) 30\<rparr>"
      "case r of
          Back iv \<Rightarrow> n < length as \<and> \<not> fst (as ! n) \<and> attempt_outcome cr (fst (snd (as ! n))) = Some (Inr iv)
        | Stopped \<Rightarrow> n < length as \<and> (fst (as ! n) \<or>
            snd (snd (as ! n)) \<and> (\<exists>e. attempt_outcome cr (fst (snd (as ! n))) = Some (Inl e)))
        | Trying \<Rightarrow> n = length as \<or>
            \<not> fst (as ! n) \<and> attempt_outcome cr (fst (snd (as ! n))) = None"
      using "2.IH" True e by blast
    let ?as = "(stop, a, asleep) # as"
    have "\<forall>k<Suc n. \<not> fst (?as ! k) \<and> \<not> snd (snd (?as ! k)) \<and>
        (\<exists>e. attempt_outcome cr (fst (snd (?as ! k))) = Some (Inl e))"
      using n(2) True by (auto simp: less_Suc_eq_0_disj)
    moreover have "t' = t\<lparr>backoff_secs := min (backoff_secs t * 2 ^ Suc n) 30\<rparr>"
      using n(3) capped_twice [of "backoff_secs t" n]
      by (cases "n = 0") (simp_all add: failed_attempt_def backoff_double_def)
    ultimately show ?thesis
      using n(1,4) by (intro exI [of _ "Suc n"]) (simp split: reconnect_end.splits)
  next
    case False
    then show ?thesis
      using "2.prems" by (intro exI [of _ 0]) (auto split: if_splits option.splits sum.splits)
  qed
qed

section \<open>Properties\<close>

definition down :: attempt where
  "down = \<lparr>at_dial = (\<lambda>_. NoDial (OsError ConnectionRefused ''refused'')), at_took = from_millis 1\<rparr>"

definition up :: attempt where
  "up = \<lparr>at_dial = (\<lambda>_. Talk [StreamItem Heartbeat,
       StreamItem (Frame (with_header ''heart-beat'' ''0,5000'' (frame_new ''CONNECTED'')))]),
     at_took = from_millis 20\<rparr>"

definition refusing :: attempt where
  "refusing = \<lparr>at_dial = (\<lambda>_. Talk [StreamItem (Frame (frame_new ''ERROR''))]), at_took = from_millis 5\<rparr>"

definition demo_credentials :: credentials where
  "demo_credentials = credentials_of ''u'' ''p'' ''10000,0'' (connect_config_of connect_options_new)"

lemma demo_outcomes:
  "attempt_outcome demo_credentials down = Some (Inl (Io (OsError ConnectionRefused ''refused'')))"
  "attempt_outcome demo_credentials up = Some (Inr (Some (from_millis 10000), None))"
  "attempt_outcome demo_credentials refusing =
     Some (Inl (ServerRejected (server_error_from_frame (frame_new ''ERROR''))))"
proof -
  have "find_header ''heart-beat'' [(''heart-beat'', ''0,5000'')] = Some ''0,5000''" by code_simp
  moreover have "negotiated ''10000,0'' ''0,5000'' = (Some (from_millis 10000), None)"
    by code_simp
  ultimately show "attempt_outcome demo_credentials up = Some (Inr (Some (from_millis 10000), None))"
    by (simp add: attempt_outcome_def up_def demo_credentials_def credentials_of_def get_header_def
        frame_builders)
qed (simp_all add: attempt_outcome_def down_def refusing_def)

text \<open>
  C17. The first connection. The waits between attempts double from one second up to thirty. Every
  attempt before the one that decided failed with an I/O or protocol error. The loop succeeds
  exactly with the intervals negotiated by the attempt that was answered, and gives up on its own
  only when that attempt was rejected by the broker; without a time bound it never gives up
  otherwise.
\<close>

theorem connect_attempts:
  assumes "connect_loop bound cr as 0 1 None = (r, t, sleeps)"
  shows "sleeps = map (\<lambda>k. min (2 ^ k) 30) [0..<length sleeps] \<and>
    (\<forall>k < length sleeps. k < length as \<and> retried cr (as ! k)) \<and>
    (case r of
       Connected iv \<Rightarrow> length sleeps < length as \<and> attempt_outcome cr (as ! length sleeps) = Some (Inr iv)
     | Refused e \<Rightarrow> length sleeps < length as \<and> attempt_outcome cr (as ! length sleeps) = Some (Inl e) \<and>
         (\<exists>x. e = ServerRejected x)
     | Elapsed e \<Rightarrow> bound \<noteq> None
     | Waiting \<Rightarrow> bound = None)"
proof -
  have "sleeps = map (\<lambda>k. min (2 ^ k) 30) [0..<length sleeps]"
    using connect_loop_sleeps [OF assms] unfolding backoff_double_pow .
  then show ?thesis using connect_loop_end [OF assms] by blast
qed

theorem connect_attempts_witness:
  "\<exists>t. connect_loop None demo_credentials [down, down, down, up] 0 1 None =
     (Connected (Some (from_millis 10000), None), t, map (\<lambda>k. min (2 ^ k) 30) [0..<3])"
proof -
  obtain t where run: "connect_loop None demo_credentials [down, down, down, up] 0 1 None =
      (Connected (Some (from_millis 10000), None), t, [1, 2, 4])"
    by (simp add: demo_outcomes over_def backoff_double_def Let_def)
  have "[1, 2, 4 :: nat] = map (\<lambda>k. min (2 ^ k) 30) [0..<length [1, 2, 4 :: nat]]"
    using connect_attempts [OF run] by (rule conjunct1)
  moreover have "length [1, 2, 4 :: nat] = 3" by simp
  ultimately show ?thesis using run by metis
qed



text \<open>
  C18. Reconnecting never gives up by itself. The task leaves the loop with a connection that the broker
  answered, or because a stop was signalled before an attempt or during the back-off after one.
  Every earlier attempt failed, with no stop signal around it, even if the broker rejected it, and all
  that the \<open>n\<close> failures did to the task is to double the back-off \<open>n\<close> times, up to thirty
  seconds.
\<close>

theorem reconnect_persists:
  assumes "reconnect_loop cr as t = (r, t')"
  shows "\<exists>n \<le> length as.
    (\<forall>k<n. \<not> fst (as ! k) \<and> \<not> snd (snd (as ! k)) \<and>
       (\<exists>e. attempt_outcome cr (fst (snd (as ! k))) = Some (Inl e))) \<and>
    t' = t\<lparr>backoff_secs := if n = 0 then backoff_secs t else min (backoff_secs t * 2 ^ n) 30\<rparr> \<and>
    (case r of
       Back iv \<Rightarrow> n < length as \<and> \<not> fst (as ! n) \<and> attempt_outcome cr (fst (snd (as ! n))) = Some (Inr iv)
     | Stopped \<Rightarrow> n < length as \<and> (fst (as ! n) \<or>
         snd (snd (as ! n)) \<and> (\<exists>e. attempt_outcome cr (fst (snd (as ! n))) = Some (Inl e)))
     | Trying \<Rightarrow> n = length as \<or>
         \<not> fst (as ! n) \<and> attempt_outcome cr (fst (snd (as ! n))) = None)"
  by (rule reconnect_loop_end [OF assms])

theorem reconnect_persists_witness:
  "reconnect_loop demo_credentials [(False, down, False), (False, refusing, False), (False, up, False)] demo_task =
     (Back (Some (from_millis 10000), None), demo_task\<lparr>backoff_secs := 4\<rparr>)"
proof -
  let ?as = "[(False, down, False), (False, refusing, False), (False, up, False)]"
  obtain r t' where run: "reconnect_loop demo_credentials ?as demo_task = (r, t')"
    by (cases "reconnect_loop demo_credentials ?as demo_task")
  then have r: "r = Back (Some (from_millis 10000), None)" by (simp add: demo_outcomes)
  obtain n where n: "n < length ?as"
    "attempt_outcome demo_credentials (fst (snd (?as ! n))) = Some (Inr (Some (from_millis 10000), None))"
    "t' = demo_task\<lparr>backoff_secs := if n = 0 then backoff_secs demo_task else min (backoff_secs demo_task * 2 ^ n) 30\<rparr>"
    using reconnect_persists [OF run, unfolded r reconnect_end.case] by blast
  from n(1) consider "n = 0" | "n = 1" | "n = 2" by fastforce
  then have "n = 2" using n(2) by cases (simp_all add: demo_outcomes)
  moreover have "backoff_secs demo_task = 1" by (simp add: demo_task_def task_new_def)
  ultimately show ?thesis using run r n(3) by simp
qed

end
