(* ===== verification/Stomp_Cli_State.thy ===== *)
theory Stomp_Cli_State
  imports Stomp_Strings "HOL-Library.Signed_Division"
begin

text \<open>
  The state of the command line client (\<^verbatim>\<open>src/bin/cli/state.rs\<close>): counters, the two ring buffers,
  the input line with its history, the session report and the text helpers. Times are nanoseconds;
  what \<^verbatim>\<open>chrono\<close> prints is a parameter. The counters are 64-bit, the heart-beat interval 32-bit;
  \<^verbatim>\<open>None\<close> is a panic (an index out of range).
\<close>

section \<open>Text helpers\<close>

definition char_count :: "string \<Rightarrow> nat" where
  "char_count s = length (chars s)"

definition truncate_str :: "string \<Rightarrow> nat \<Rightarrow> string" where
  "truncate_str s max_len =
     (if char_count s \<le> max_len then s
      else if max_len \<le> 3 then replicate max_len CHR ''.''
      else concat (take (max_len - 3) (chars s)) @ ''...'')"

text \<open>\<^verbatim>\<open>chunks\<close> of a slice; the width is not zero.\<close>

function chunks :: "nat \<Rightarrow> 'a list \<Rightarrow> 'a list list" where
  "chunks w xs = (if xs = [] \<or> w = 0 then [] else take w xs # chunks w (drop w xs))"
  by pat_completeness auto
termination
  by (relation "measure (length \<circ> snd)") auto

declare chunks.simps [simp del]

definition char_wrap :: "string \<Rightarrow> nat \<Rightarrow> string list" where
  "char_wrap s width = (if width = 0 then [] else map concat (chunks width (chars s)))"

text \<open>Rust's padding to a width, which counts characters.\<close>

definition pad_left :: "nat \<Rightarrow> string \<Rightarrow> string" where
  "pad_left w s = s @ replicate (w - char_count s) CHR '' ''"

definition pad_right :: "nat \<Rightarrow> string \<Rightarrow> string" where
  "pad_right w s = replicate (w - char_count s) CHR '' '' @ s"

definition repeat_str :: "nat \<Rightarrow> string \<Rightarrow> string" where
  "repeat_str n s = concat (replicate n s)"

fun join_lines :: "string list \<Rightarrow> string" where
  "join_lines [] = []"
| "join_lines [l] = l"
| "join_lines (l # ls) = l @ [LF] @ join_lines ls"

text \<open>Decimal \<^verbatim>\<open>i64\<close>, and the same padded with zeros to two places after the sign.\<close>

definition show_int :: "int \<Rightarrow> string" where
  "show_int n = (if n < 0 then CHR ''-'' # show_nat (nat (- n)) else show_nat (nat n))"

definition zero_pad :: "nat \<Rightarrow> string \<Rightarrow> string" where
  "zero_pad w s = replicate (w - length s) CHR ''0'' @ s"

definition show_int2 :: "int \<Rightarrow> string" where
  "show_int2 n =
     (if n < 0 then CHR ''-'' # zero_pad 1 (show_nat (nat (- n))) else zero_pad 2 (show_nat (nat n)))"

section \<open>The state\<close>

definition MAX_MESSAGES :: nat where "MAX_MESSAGES = 1000"

definition MAX_ERRORS :: nat where "MAX_ERRORS = 100"

type_synonym instant = nat

record sub_stats =
  message_count :: "64 word"

record display_message =
  dm_timestamp :: int
  dm_destination :: string
  dm_body :: string
  dm_headers :: "(string \<times> string) list"

record app_state =
  app_start_time :: int
  app_host :: string
  app_user :: string
  app_heartbeat_interval_ms :: "32 word"
  app_subscriptions :: "(string, sub_stats) hmap"
  app_heartbeat_count :: "64 word"
  app_last_heartbeat :: "instant option"
  app_sent_count :: "64 word"
  app_error_count :: "64 word"
  app_warning_count :: "64 word"
  app_info_count :: "64 word"
  app_messages :: "display_message list"
  app_errors :: "display_message list"
  app_show_headers :: bool
  app_scroll_offset :: nat
  app_error_scroll_offset :: nat
  app_input :: string
  app_cursor_pos :: nat
  app_command_history :: "string list"
  app_history_index :: "nat option"
  app_saved_input :: string

definition app_new :: "int \<Rightarrow> string \<Rightarrow> string \<Rightarrow> 32 word \<Rightarrow> app_state" where
  "app_new now host user interval =
     \<lparr>app_start_time = now, app_host = host, app_user = user, app_heartbeat_interval_ms = interval,
      app_subscriptions = [], app_heartbeat_count = 0, app_last_heartbeat = None,
      app_sent_count = 0, app_error_count = 0, app_warning_count = 0, app_info_count = 0,
      app_messages = [], app_errors = [], app_show_headers = False, app_scroll_offset = 0,
      app_error_scroll_offset = 0, app_input = [], app_cursor_pos = 0, app_command_history = [],
      app_history_index = None, app_saved_input = []\<rparr>"

section \<open>Heart-beats\<close>

definition record_heartbeat :: "instant \<Rightarrow> app_state \<Rightarrow> app_state" where
  "record_heartbeat now st =
     st\<lparr>app_heartbeat_count := app_heartbeat_count st + 1, app_last_heartbeat := Some now\<rparr>"

text \<open>
  The elapsed milliseconds are cut to 32 bits and the interval is doubled in 32 bits, as a release
  build does.
\<close>

definition heartbeat_indicator :: "instant \<Rightarrow> app_state \<Rightarrow> string \<times> bool" where
  "heartbeat_indicator now st =
     (case app_last_heartbeat st of
        Some t0 \<Rightarrow>
          let elapsed = of_nat ((now - t0) div 1000000) :: 32 word
          in if elapsed < 1000 then (encode_char 0x2726, True)
             else if elapsed < app_heartbeat_interval_ms st * 2 then (encode_char 0x25C7, False)
             else (''!'', False)
      | None \<Rightarrow> (encode_char 0x25CB, False))"

section \<open>Messages and errors\<close>

fun pop_excess :: "nat \<Rightarrow> 'a list \<Rightarrow> 'a list" where
  "pop_excess limit [] = []"
| "pop_excess limit (x # xs) = (if limit < length (x # xs) then pop_excess limit xs else x # xs)"

definition record_error :: "int \<Rightarrow> string \<Rightarrow> (string \<times> string) list \<Rightarrow> app_state \<Rightarrow> app_state" where
  "record_error now b hs st =
     (let msg = \<lparr>dm_timestamp = now, dm_destination = ''BROKER ERROR'', dm_body = b, dm_headers = hs\<rparr>
      in st\<lparr>app_error_count := app_error_count st + 1,
            app_errors := pop_excess MAX_ERRORS (app_errors st @ [msg])\<rparr>)"

definition bump_subscription :: "string \<Rightarrow> app_state \<Rightarrow> app_state" where
  "bump_subscription dest st =
     (let n = (case hm_get (app_subscriptions st) dest of Some s \<Rightarrow> message_count s | None \<Rightarrow> 0)
      in st\<lparr>app_subscriptions := hm_insert dest \<lparr>message_count = n + 1\<rparr> (app_subscriptions st)\<rparr>)"

definition record_message ::
  "int \<Rightarrow> string \<Rightarrow> string \<Rightarrow> (string \<times> string) list \<Rightarrow> app_state \<Rightarrow> app_state" where
  "record_message now dest b hs st =
     (if dest = ''BROKER ERROR'' then record_error now b hs st
      else
        let st =
              (if dest = ''SENT'' then st\<lparr>app_sent_count := app_sent_count st + 1\<rparr>
               else if dest = ''ERROR'' then st\<lparr>app_error_count := app_error_count st + 1\<rparr>
               else if dest = ''WARN'' then st\<lparr>app_warning_count := app_warning_count st + 1\<rparr>
               else if dest = ''INFO'' then st\<lparr>app_info_count := app_info_count st + 1\<rparr>
               else bump_subscription dest st);
            msg = \<lparr>dm_timestamp = now, dm_destination = dest, dm_body = b, dm_headers = hs\<rparr>
        in st\<lparr>app_messages := pop_excess MAX_MESSAGES (app_messages st @ [msg])\<rparr>)"

definition register_subscription :: "string \<Rightarrow> app_state \<Rightarrow> app_state" where
  "register_subscription dest st =
     (case hm_get (app_subscriptions st) dest of
        Some _ \<Rightarrow> st
      | None \<Rightarrow> st\<lparr>app_subscriptions := hm_insert dest \<lparr>message_count = 0\<rparr> (app_subscriptions st)\<rparr>)"

definition total_message_count :: "app_state \<Rightarrow> 64 word" where
  "total_message_count st = sum_list (map (message_count \<circ> snd) (app_subscriptions st))"

definition toggle_headers :: "app_state \<Rightarrow> app_state" where
  "toggle_headers st = st\<lparr>app_show_headers := \<not> app_show_headers st\<rparr>"

definition clear_messages :: "app_state \<Rightarrow> app_state" where
  "clear_messages st = st\<lparr>app_messages := [], app_scroll_offset := 0\<rparr>"

section \<open>The command history\<close>

definition add_to_history :: "string \<Rightarrow> app_state \<Rightarrow> app_state" where
  "add_to_history cmd st =
     (let cmd = trim cmd;
          st = (if cmd \<noteq> [] \<and> (app_command_history st = [] \<or> last (app_command_history st) \<noteq> cmd)
                then st\<lparr>app_command_history := app_command_history st @ [cmd]\<rparr> else st)
      in st\<lparr>app_history_index := None, app_saved_input := []\<rparr>)"

text \<open>The input line becomes the history entry, with the cursor at its end.\<close>

definition show_entry :: "nat \<Rightarrow> app_state \<Rightarrow> app_state option" where
  "show_entry i st =
     (if i < length (app_command_history st)
      then let cmd = app_command_history st ! i
           in Some (st\<lparr>app_history_index := Some i, app_input := cmd, app_cursor_pos := length cmd\<rparr>)
      else None)"

definition history_prev :: "app_state \<Rightarrow> app_state option" where
  "history_prev st =
     (if app_command_history st = [] then Some st
      else
        (case app_history_index st of
           None \<Rightarrow>
             show_entry (length (app_command_history st) - 1) (st\<lparr>app_saved_input := app_input st\<rparr>)
         | Some i \<Rightarrow> if 0 < i then show_entry (i - 1) st else Some st))"

definition history_next :: "app_state \<Rightarrow> app_state option" where
  "history_next st =
     (case app_history_index st of
        None \<Rightarrow> Some st
      | Some i \<Rightarrow>
          if i + 1 < length (app_command_history st) then show_entry (i + 1) st
          else Some (st\<lparr>app_history_index := None, app_input := app_saved_input st,
                        app_cursor_pos := length (app_saved_input st)\<rparr>))"

section \<open>The session report\<close>

text \<open>\<^verbatim>\<open>num_seconds\<close> and the \<^verbatim>\<open>i64\<close> operators truncate towards zero.\<close>

definition num_seconds :: "int \<Rightarrow> int" where
  "num_seconds d = d sdiv 1000000000"

definition session_duration :: "int \<Rightarrow> app_state \<Rightarrow> string" where
  "session_duration now st =
     (let total = num_seconds (now - app_start_time st)
      in show_int2 (total sdiv 3600) @ '':'' @ show_int2 ((total smod 3600) sdiv 60) @ '':'' @
         show_int2 (total smod 60))"

definition double_rule :: string where
  "double_rule = repeat_str 79 (encode_char 0x2550)"

definition single_rule :: string where
  "single_rule = repeat_str 79 (encode_char 0x2500)"

definition by_count :: "(string, sub_stats) hmap \<Rightarrow> (string \<times> sub_stats) list" where
  "by_count m = sort_key (\<lambda>(_, s). - int (unat (message_count s))) m"

definition max_dest_len :: "(string \<times> sub_stats) list \<Rightarrow> nat" where
  "max_dest_len subs = min 40 (if subs = [] then 20 else Max (set (map (length \<circ> fst) subs)))"

definition count_line :: "nat \<Rightarrow> string \<Rightarrow> 64 word \<Rightarrow> string" where
  "count_line w label n = ''    '' @ pad_left w label @ '' '' @ pad_right 6 (show_nat (unat n))"

definition history_line :: "(int \<Rightarrow> string) \<Rightarrow> nat \<Rightarrow> display_message \<Rightarrow> string" where
  "history_line clock max_width m =
     (let pre = ''  '' @ clock (dm_timestamp m) @ '' ['' @ dm_destination m @ ''] ''
      in pre @ truncate_str (dm_body m) (max_width - length pre))"

definition generate_summary_with_options ::
  "(int \<Rightarrow> string) \<Rightarrow> (int \<Rightarrow> string) \<Rightarrow> int \<Rightarrow> bool \<Rightarrow> nat \<Rightarrow> app_state \<Rightarrow> string" where
  "generate_summary_with_options date_text clock now include_messages max_width st =
     (let total = num_seconds (now - app_start_time st);
          subs = by_count (app_subscriptions st);
          w = max_dest_len subs
      in join_lines
           ([double_rule, ''  iridium-stomp Session Report'', double_rule,
             ''  Host:       '' @ app_host st, ''  User:       '' @ app_user st,
             ''  Started:    '' @ date_text (app_start_time st), ''  Ended:      '' @ date_text now,
             ''  Duration:   '' @ show_int (total sdiv 60) @ ''m '' @ show_int (total smod 60) @ ''s'',
             [], ''  Subscriptions:''] @
            map (\<lambda>(d, s). count_line w (truncate_str d w) (message_count s)) subs @
            [''    '' @ repeat_str (w + 7) (encode_char 0x2500),
             count_line w ''Total'' (total_message_count st), [],
             ''  Heartbeats received: '' @ show_nat (unat (app_heartbeat_count st))] @
            (if include_messages \<and> app_messages st \<noteq> []
             then [[], single_rule, ''  Message History'', single_rule] @
                  map (history_line clock max_width) (app_messages st)
             else []) @
            [double_rule]))"

definition generate_summary :: "(int \<Rightarrow> string) \<Rightarrow> (int \<Rightarrow> string) \<Rightarrow> int \<Rightarrow> app_state \<Rightarrow> string" where
  "generate_summary date_text clock now st =
     generate_summary_with_options date_text clock now False 80 st"

section \<open>Pieces of text\<close>

text \<open>A list of single characters, each a valid UTF-8 sequence.\<close>

definition char_list :: "string list \<Rightarrow> bool" where
  "char_list cs \<longleftrightarrow> (\<forall>c\<in>set cs. utf8_width c = Some (length c))"

lemma char_list_chars: "utf8_valid s \<Longrightarrow> char_list (chars s)"
proof (induction s rule: utf8_induct)
  case (Char s n)
  have "length (take n s) = n" using utf8_width_bounds [OF Char(1)] by simp
  then show ?case
    using Char.IH chars_step [OF Char(1)] utf8_width_take [OF Char(1)] by (simp add: char_list_def)
qed (simp add: char_list_def)

lemma char_list_concat: "char_list cs \<Longrightarrow> utf8_valid (concat cs) \<and> chars (concat cs) = cs"
proof (induction cs)
  case (Cons c cs)
  have w: "utf8_width c = Some (length c)" and rest: "char_list cs"
    using Cons.prems by (auto simp: char_list_def)
  have c: "utf8_valid c" "chars c = [c]"
    using utf8_valid_step [OF w] chars_step [OF w] by auto
  show ?case
    using c chars_append [OF c(1)] utf8_valid_append Cons.IH [OF rest] by simp
qed simp

lemma char_list_take: "char_list cs \<Longrightarrow> char_list (take n cs)"
  by (auto simp: char_list_def dest: in_set_takeD)

lemma char_list_drop: "char_list cs \<Longrightarrow> char_list (drop n cs)"
  by (auto simp: char_list_def dest: in_set_dropD)

lemma chunks_Nil [simp]: "chunks w [] = []"
  by (simp add: chunks.simps)

lemma concat_chunks: "0 < w \<Longrightarrow> concat (chunks w xs) = xs"
proof (induction w xs rule: chunks.induct)
  case (1 w xs)
  then show ?case by (subst chunks.simps) auto
qed

lemma chunks_bounds: "p \<in> set (chunks w xs) \<Longrightarrow> p \<noteq> [] \<and> length p \<le> w \<and> set p \<subseteq> set xs"
proof (induction w xs rule: chunks.induct)
  case (1 w xs)
  show ?case
  proof (cases "xs = [] \<or> w = 0 \<or> p = take w xs")
    case True
    then show ?thesis using "1.prems" by (subst (asm) chunks.simps) (auto dest: in_set_takeD)
  next
    case False
    then show ?thesis
      using "1.prems" "1.IH" by (subst (asm) chunks.simps) (auto dest: in_set_dropD)
  qed
qed

lemma char_count_ascii: "is_ascii s \<Longrightarrow> char_count s = length s"
  by (simp add: char_count_def chars_ascii)

lemma is_ascii_replicate [simp]: "byte c < 0x80 \<Longrightarrow> is_ascii (replicate n c)"
  by (simp add: is_ascii_def list_all_iff)

lemma truncate_str_cut:
  assumes "utf8_valid s" and "max_len < char_count s" and "3 < max_len"
  shows "utf8_valid (truncate_str s max_len) \<and> char_count (truncate_str s max_len) = max_len"
proof -
  let ?kept = "take (max_len - 3) (chars s)"
  have kept: "utf8_valid (concat ?kept) \<and> chars (concat ?kept) = ?kept"
    by (intro char_list_concat char_list_take char_list_chars assms)
  have dots: "utf8_valid ''...''" "chars ''...'' = [''.'', ''.'', ''.'']"
    by (simp_all add: is_ascii_valid is_ascii_def chars_ascii)
  have eq: "truncate_str s max_len = concat ?kept @ ''...''"
    using assms(2,3) by (simp add: truncate_str_def)
  have "char_count (truncate_str s max_len) = length (chars (concat ?kept) @ chars ''...'')"
    unfolding eq char_count_def using chars_append [of "concat ?kept" "''...''"] kept by metis
  also have "\<dots> = max_len"
    using kept dots assms(2,3) by (simp add: char_count_def)
  finally show ?thesis
    using utf8_valid_append [OF _ dots(1)] kept unfolding eq by blast
qed

lemma truncate_str_fits:
  assumes "utf8_valid s"
  shows "utf8_valid (truncate_str s max_len) \<and> char_count (truncate_str s max_len) \<le> max_len"
proof (cases "max_len < char_count s \<and> 3 < max_len")
  case True
  then show ?thesis using truncate_str_cut assms by auto
next
  case False
  then show ?thesis
    using assms by (auto simp: truncate_str_def char_count_ascii is_ascii_valid)
qed

lemma char_wrap_pieces:
  assumes "utf8_valid s" and "0 < width"
  shows "concat (char_wrap s width) = s"
    and "\<forall>p\<in>set (char_wrap s width). utf8_valid p \<and> 1 \<le> char_count p \<and> char_count p \<le> width"
proof -
  have "concat (map concat qs) = concat (concat qs)" for qs :: "string list list"
    by (induction qs) auto
  then show "concat (char_wrap s width) = s"
    using assms by (simp add: char_wrap_def concat_chunks concat_chars)
  show "\<forall>p\<in>set (char_wrap s width). utf8_valid p \<and> 1 \<le> char_count p \<and> char_count p \<le> width"
  proof
    fix p assume "p \<in> set (char_wrap s width)"
    then obtain q where q: "q \<in> set (chunks width (chars s))" "p = concat q"
      using assms by (auto simp: char_wrap_def)
    have "char_list q"
      using chunks_bounds [OF q(1)] char_list_chars [OF assms(1)] by (auto simp: char_list_def)
    then show "utf8_valid p \<and> 1 \<le> char_count p \<and> char_count p \<le> width"
      using chunks_bounds [OF q(1)] char_list_concat [of q] q(2)
      by (cases q) (auto simp: char_count_def)
  qed
qed

text \<open>
  C37. Text shown by the client is cut and wrapped on character boundaries: for any valid string
  \<^verbatim>\<open>truncate_str\<close> returns a valid string of at most the given number of characters, unchanged when
  it already fits, and \<^verbatim>\<open>char_wrap\<close> returns non-empty valid pieces of at most the given width that
  put together are the string, so no multibyte character is ever split.
\<close>

theorem text_on_char_boundaries:
  assumes "utf8_valid s" and "0 < width"
  shows "utf8_valid (truncate_str s width) \<and> char_count (truncate_str s width) \<le> width \<and>
    (truncate_str s width = s \<or> width < char_count s) \<and>
    concat (char_wrap s width) = s \<and>
    list_all (\<lambda>p. utf8_valid p \<and> 1 \<le> char_count p \<and> char_count p \<le> width) (char_wrap s width)"
  using truncate_str_fits [OF assms(1)] char_wrap_pieces [OF assms]
  by (auto simp: list_all_iff truncate_str_def)

theorem text_on_char_boundaries_witness:
  "char_count (truncate_str (''aaaa'' @ encode_char 0xE9 @ ''aaaaa'') 8) \<le> 8 \<and>
   concat (char_wrap (''aaaa'' @ encode_char 0xE9 @ ''aaaaa'') 8) = ''aaaa'' @ encode_char 0xE9 @ ''aaaaa''"
proof -
  have "utf8_valid (''aaaa'' @ encode_char 0xE9 @ ''aaaaa'')" by code_simp
  then show ?thesis using text_on_char_boundaries [of _ 8] by simp
qed

section \<open>Counting and the ring buffers\<close>

definition last_n :: "nat \<Rightarrow> 'a list \<Rightarrow> 'a list" where
  "last_n n xs = drop (length xs - n) xs"

lemma pop_excess_eq: "pop_excess n xs = last_n n xs"
  by (induction xs) (auto simp: last_n_def Suc_diff_le)

lemma last_n_snoc: "last_n n (last_n n xs @ [x]) = last_n n (xs @ [x])"
  by (cases "n \<le> length xs") (auto simp: last_n_def Suc_diff_le)

lemma length_last_n [simp]: "length (last_n n xs) = min n (length xs)"
  by (simp add: last_n_def)

definition message_for :: "app_state \<Rightarrow> string \<Rightarrow> 64 word" where
  "message_for st d = (case hm_get (app_subscriptions st) d of Some s \<Rightarrow> message_count s | None \<Rightarrow> 0)"

definition display_of :: "int \<times> string \<times> string \<times> (string \<times> string) list \<Rightarrow> display_message" where
  "display_of = (\<lambda>(now, d, b, hs).
     \<lparr>dm_timestamp = now, dm_destination = d, dm_body = b, dm_headers = hs\<rparr>)"

definition record_all ::
  "(int \<times> string \<times> string \<times> (string \<times> string) list) list \<Rightarrow> app_state \<Rightarrow> app_state" where
  "record_all evs st = fold (\<lambda>(now, d, b, hs). record_message now d b hs) evs st"

definition event_dest :: "int \<times> string \<times> string \<times> (string \<times> string) list \<Rightarrow> string" where
  "event_dest = (\<lambda>(now, d, b, hs). d)"

abbreviation pseudo :: "string set" where
  "pseudo \<equiv> {''SENT'', ''ERROR'', ''BROKER ERROR'', ''WARN'', ''INFO''}"

lemma event_dest_simp [simp]: "event_dest (now, d, b, hs) = d"
  by (simp add: event_dest_def)

lemma total_bump:
  "total_message_count (bump_subscription d st) = total_message_count st + 1"
proof -
  have "sum_list (map (message_count \<circ> snd) (hm_insert d \<lparr>message_count =
      (case hm_get m d of Some s \<Rightarrow> message_count s | None \<Rightarrow> 0) + 1\<rparr> m)) =
    sum_list (map (message_count \<circ> snd) m) + 1" for m
    by (induction m) auto
  then show ?thesis by (simp add: total_message_count_def bump_subscription_def Let_def)
qed

lemma message_for_bump:
  "message_for (bump_subscription d st) = (message_for st)(d := message_for st d + 1)"
  by (rule ext) (simp add: message_for_def bump_subscription_def Let_def)

lemma bump_frame [simp]:
  "app_messages (bump_subscription d st) = app_messages st"
  "app_errors (bump_subscription d st) = app_errors st"
  "app_sent_count (bump_subscription d st) = app_sent_count st"
  "app_error_count (bump_subscription d st) = app_error_count st"
  "app_warning_count (bump_subscription d st) = app_warning_count st"
  "app_info_count (bump_subscription d st) = app_info_count st"
  by (simp_all add: bump_subscription_def Let_def)

lemma message_for_cong [simp]:
  "message_for (st\<lparr>app_messages := ms\<rparr>) = message_for st"
  "message_for (st\<lparr>app_errors := ms\<rparr>) = message_for st"
  "message_for (st\<lparr>app_sent_count := n\<rparr>) = message_for st"
  "message_for (st\<lparr>app_error_count := n\<rparr>) = message_for st"
  "message_for (st\<lparr>app_warning_count := n\<rparr>) = message_for st"
  "message_for (st\<lparr>app_info_count := n\<rparr>) = message_for st"
  by (rule ext; simp add: message_for_def)+

lemma total_cong [simp]:
  "total_message_count (st\<lparr>app_messages := ms\<rparr>) = total_message_count st"
  "total_message_count (st\<lparr>app_errors := ms\<rparr>) = total_message_count st"
  "total_message_count (st\<lparr>app_sent_count := n\<rparr>) = total_message_count st"
  "total_message_count (st\<lparr>app_error_count := n\<rparr>) = total_message_count st"
  "total_message_count (st\<lparr>app_warning_count := n\<rparr>) = total_message_count st"
  "total_message_count (st\<lparr>app_info_count := n\<rparr>) = total_message_count st"
  by (simp_all add: total_message_count_def)

definition counts_ok ::
  "(int \<times> string \<times> string \<times> (string \<times> string) list) list \<Rightarrow> app_state \<Rightarrow> bool" where
  "counts_ok evs st \<longleftrightarrow>
     app_messages st = last_n 1000 (map display_of (filter (\<lambda>e. event_dest e \<noteq> ''BROKER ERROR'') evs)) \<and>
     app_errors st = last_n 100 (map display_of (filter (\<lambda>e. event_dest e = ''BROKER ERROR'') evs)) \<and>
     app_sent_count st = of_nat (length (filter (\<lambda>e. event_dest e = ''SENT'') evs)) \<and>
     app_error_count st = of_nat (length (filter (\<lambda>e. event_dest e \<in> {''ERROR'', ''BROKER ERROR''}) evs)) \<and>
     app_warning_count st = of_nat (length (filter (\<lambda>e. event_dest e = ''WARN'') evs)) \<and>
     app_info_count st = of_nat (length (filter (\<lambda>e. event_dest e = ''INFO'') evs)) \<and>
     (\<forall>d. message_for st d = (if d \<in> pseudo then 0 else of_nat (length (filter (\<lambda>e. event_dest e = d) evs)))) \<and>
     total_message_count st = of_nat (length (filter (\<lambda>e. event_dest e \<notin> pseudo) evs))"

lemma counts_ok_step:
  assumes "counts_ok evs st"
  shows "counts_ok (evs @ [(now, d, b, hs)]) (record_message now d b hs st)"
proof (cases "d \<in> pseudo")
  case True
  then show ?thesis
    using assms
    by (auto simp: counts_ok_def record_message_def record_error_def Let_def pop_excess_eq MAX_ERRORS_def
        MAX_MESSAGES_def last_n_snoc display_of_def)
next
  case False
  then show ?thesis
    using assms
    by (auto simp: counts_ok_def record_message_def Let_def pop_excess_eq MAX_MESSAGES_def last_n_snoc
        display_of_def message_for_bump total_bump)
qed

lemma counts_ok_new: "counts_ok [] (app_new t h u i)"
  by (simp add: counts_ok_def app_new_def last_n_def message_for_def total_message_count_def)

lemma counts_ok_all: "counts_ok evs (record_all evs (app_new t h u i))"
proof (induction evs rule: rev_induct)
  case Nil
  then show ?case by (simp add: record_all_def counts_ok_new)
next
  case (snoc e evs)
  then show ?case
    by (cases e) (simp add: record_all_def counts_ok_step)
qed

text \<open>
  C36. The client's counters are exact and its buffers bounded. After any sequence of recorded
  messages the display buffer holds the last 1000 of those that are not broker errors, in order, and
  the error pane the last 100 broker errors, every counter (sent, errors, warnings, infos, and each destination) is the number
  of messages recorded for it, and the total is the number recorded for real destinations
  (all modulo the 64 bits of a counter).
\<close>

theorem counts_and_buffers:
  "let st = record_all evs (app_new t host user interval) in
   app_messages st = last_n 1000 (map display_of (filter (\<lambda>e. event_dest e \<noteq> ''BROKER ERROR'') evs)) \<and>
   app_errors st = last_n 100 (map display_of (filter (\<lambda>e. event_dest e = ''BROKER ERROR'') evs)) \<and>
   app_sent_count st = of_nat (length (filter (\<lambda>e. event_dest e = ''SENT'') evs)) \<and>
   app_error_count st = of_nat (length (filter (\<lambda>e. event_dest e \<in> {''ERROR'', ''BROKER ERROR''}) evs)) \<and>
   app_warning_count st = of_nat (length (filter (\<lambda>e. event_dest e = ''WARN'') evs)) \<and>
   app_info_count st = of_nat (length (filter (\<lambda>e. event_dest e = ''INFO'') evs)) \<and>
   (\<forall>d. message_for st d =
      (if d \<in> pseudo then 0 else of_nat (length (filter (\<lambda>e. event_dest e = d) evs)))) \<and>
   total_message_count st = of_nat (length (filter (\<lambda>e. event_dest e \<notin> pseudo) evs))"
  using counts_ok_all [of evs t host user interval] by (simp add: counts_ok_def Let_def)

section \<open>Browsing the history\<close>

primrec repeat_op :: "nat \<Rightarrow> ('a \<Rightarrow> 'a option) \<Rightarrow> 'a \<Rightarrow> 'a option" where
  "repeat_op 0 f x = Some x"
| "repeat_op (Suc n) f x = Option.bind (f x) (repeat_op n f)"

lemma repeat_op_snoc: "repeat_op (Suc n) f x = Option.bind (repeat_op n f x) f"
proof (induction n arbitrary: x)
  case (Suc n)
  then show ?case by (cases "f x") auto
next
  case 0
  show ?case by (cases "f x") auto
qed

text \<open>The state \<open>k\<close> entries back from the newest, with the line being typed saved.\<close>

definition browsing :: "nat \<Rightarrow> app_state \<Rightarrow> app_state" where
  "browsing k st =
     (let i = length (app_command_history st) - k; cmd = app_command_history st ! i
      in st\<lparr>app_saved_input := app_input st, app_history_index := Some i, app_input := cmd,
            app_cursor_pos := length cmd\<rparr>)"

lemma history_prev_first:
  assumes "app_history_index st = None" and "app_command_history st \<noteq> []"
  shows "history_prev st = Some (browsing 1 st)"
  using assms by (simp add: history_prev_def show_entry_def browsing_def Let_def)

lemma history_prev_browsing:
  assumes "k < length (app_command_history st)" and "0 < k"
  shows "history_prev (browsing k st) = Some (browsing (Suc k) st)"
  using assms by (auto simp: history_prev_def show_entry_def browsing_def Let_def)

lemma history_prev_run:
  assumes "app_history_index st = None"
  shows "Suc k \<le> length (app_command_history st) \<Longrightarrow>
    repeat_op (Suc k) history_prev st = Some (browsing (Suc k) st)"
proof (induction k)
  case 0
  then show ?case using history_prev_first [OF assms] by (cases "app_command_history st") auto
next
  case (Suc k)
  then show ?case
    unfolding repeat_op_snoc [of "Suc k"] by (simp add: history_prev_browsing del: repeat_op.simps)
qed

lemma history_next_browsing:
  assumes "Suc (Suc k) \<le> length (app_command_history st)"
  shows "history_next (browsing (Suc (Suc k)) st) = Some (browsing (Suc k) st)"
proof -
  have "Suc (length (app_command_history st) - Suc (Suc k)) = length (app_command_history st) - Suc k"
    using assms by simp
  then show ?thesis
    using assms by (simp add: history_next_def show_entry_def browsing_def Let_def)
qed

lemma history_next_last:
  assumes "app_history_index st = None" and "app_command_history st \<noteq> []"
  shows "history_next (browsing 1 st) =
    Some (st\<lparr>app_saved_input := app_input st, app_cursor_pos := length (app_input st)\<rparr>)"
  using assms by (cases st) (simp add: history_next_def browsing_def Let_def)

lemma history_next_run:
  assumes "app_history_index st = None"
  shows "Suc k \<le> length (app_command_history st) \<Longrightarrow>
    repeat_op (Suc k) history_next (browsing (Suc k) st) =
      Some (st\<lparr>app_saved_input := app_input st, app_cursor_pos := length (app_input st)\<rparr>)"
proof (induction k)
  case 0
  then have "app_command_history st \<noteq> []" by auto
  then show ?case using history_next_last [OF assms] by simp
next
  case (Suc k)
  then show ?case by (simp add: history_next_browsing)
qed

text \<open>
  Browsing the command history loses nothing. From a line being typed, \<open>n\<close> presses of Up (at
  most the length of the history) show the \<open>n\<close>-th newest command, and \<open>n\<close> presses of Down after
  that bring back the line as it was, with the cursor at its end; no press indexes out of range.
\<close>

theorem history_roundtrip:
  assumes "app_history_index st = None" and "0 < n" and "n \<le> length (app_command_history st)"
  shows "\<exists>st'. repeat_op n history_prev st = Some st' \<and>
    app_input st' = app_command_history st ! (length (app_command_history st) - n) \<and>
    repeat_op n history_next st' =
      Some (st\<lparr>app_saved_input := app_input st, app_cursor_pos := length (app_input st)\<rparr>)"
proof -
  obtain k where n: "n = Suc k" using assms(2) by (cases n) auto
  then show ?thesis
    using history_prev_run [OF assms(1), of k] history_next_run [OF assms(1), of k] assms(3)
    by (intro exI [of _ "browsing n st"]) (simp add: browsing_def Let_def del: repeat_op.simps)
qed

definition two_commands :: app_state where
  "two_commands = (add_to_history ''help'' (add_to_history ''sub /queue/a'' (app_new 0 ''h'' ''u'' 10000)))
     \<lparr>app_input := ''sen'', app_cursor_pos := 3\<rparr>"

lemma two_commands_history:
  "app_history_index two_commands = None \<and> app_input two_commands = ''sen'' \<and>
   app_command_history two_commands = [''sub /queue/a'', ''help'']"
  by (simp add: two_commands_def add_to_history_def app_new_def Let_def trim_def chars_ascii is_ascii_def
      is_whitespace_def whitespace_cp_def)

theorem history_roundtrip_witness:
  "\<exists>st' st''. repeat_op 2 history_prev two_commands = Some st' \<and> app_input st' = ''sub /queue/a'' \<and>
     repeat_op 2 history_next st' = Some st'' \<and> app_input st'' = ''sen''"
  using history_roundtrip [of two_commands 2] two_commands_history by auto

end
