(* ===== verification/Stomp_Cli.thy ===== *)
theory Stomp_Cli
  imports Stomp_Connect Stomp_Cli_State
begin

text \<open>
  The command line client without its terminal interface (\<^verbatim>\<open>src/bin/stomp.rs\<close> and
  \<^verbatim>\<open>src/bin/cli/\<close>): the exit codes and error texts, \<^verbatim>\<open>execute_command\<close>, the one-shot
  \<^verbatim>\<open>--send\<close>, and plain mode. What is printed is a log of lines; the file system, the clock's text
  and the text of an I/O error are fields of an environment.
\<close>

section \<open>Arguments, environment, world\<close>

record cli_args =
  arg_address :: string
  arg_login :: string
  arg_passcode :: string
  arg_heartbeat :: string
  arg_subscribe :: "string list"
  arg_tui :: bool
  arg_summary :: bool
  arg_send :: "(string \<times> string) option"
  arg_timeout :: nat

datatype printed = Out string | Err string | Prompt

text \<open>How creating a file and writing the report to it end, with the text of the error.\<close>

datatype file_result = Written | CreateFailed string | WriteFailed string

record cli_env =
  env_io_text :: "io_error \<Rightarrow> string"
  env_date_text :: "int \<Rightarrow> string"
  env_clock_text :: "int \<Rightarrow> string"
  env_version :: string
  env_file :: "string \<Rightarrow> file_result"

text \<open>
  The handle's shared state, the client's own state, the channel of subscription requests, what
  was printed and what was written to files.
\<close>

record ('c, 'q, 's) world =
  w_conn :: "('c, 'q) conn"
  w_app :: app_state
  w_sub_tx :: 's
  w_printed :: "printed list"
  w_files :: "(string \<times> string) list"

definition on_app :: "(app_state \<Rightarrow> app_state) \<Rightarrow> ('c, 'q, 's) world \<Rightarrow> ('c, 'q, 's) world" where
  "on_app f w = w\<lparr>w_app := f (w_app w)\<rparr>"

definition print_all :: "printed list \<Rightarrow> ('c, 'q, 's) world \<Rightarrow> ('c, 'q, 's) world" where
  "print_all ps w = w\<lparr>w_printed := w_printed w @ ps\<rparr>"

definition SUCCESS :: nat where "SUCCESS = 0"
definition NETWORK_ERROR :: nat where "NETWORK_ERROR = 1"
definition AUTH_ERROR :: nat where "AUTH_ERROR = 2"
definition PROTOCOL_ERROR :: nat where "PROTOCOL_ERROR = 3"
definition FRAME_REJECTED :: nat where "FRAME_REJECTED = 4"

section \<open>Errors for the user\<close>

definition with_reason :: "string \<Rightarrow> server_error \<Rightarrow> string" where
  "with_reason label e =
     label @ err_message e @ (case err_body e of Some b \<Rightarrow> '' ('' @ b @ '')'' | None \<Rightarrow> [])"

fun format_connection_error_pub :: "(io_error \<Rightarrow> string) \<Rightarrow> conn_error \<Rightarrow> string \<Rightarrow> string \<times> nat" where
  "format_connection_error_pub io_text (Io e) address =
     ((case io_error_kind e of
         ConnectionRefused \<Rightarrow> ''Connection refused: '' @ address
       | TimedOut \<Rightarrow> ''Connection timed out: '' @ address
       | _ \<Rightarrow> ''Connection failed: '' @ io_text e), NETWORK_ERROR)"
| "format_connection_error_pub io_text (ServerRejected e) address =
     (with_reason ''Authentication failed: '' e, AUTH_ERROR)"
| "format_connection_error_pub io_text (FrameRejected e) address =
     (with_reason ''Frame rejected: '' e, FRAME_REJECTED)"
| "format_connection_error_pub io_text (Protocol msg) address =
     (''Protocol error: '' @ msg, PROTOCOL_ERROR)"
| "format_connection_error_pub io_text (ReceiptTimeout rid) address =
     (''Receipt timeout: '' @ rid, PROTOCOL_ERROR)"
| "format_connection_error_pub io_text MissingAckId address =
     (''Connection failed: '' @ display_conn_error io_text MissingAckId, PROTOCOL_ERROR)"

section \<open>Commands\<close>

datatype command_result = Ok | Quit | Info string | Error string

definition quoted :: "string \<Rightarrow> string" where
  "quoted s = [CHR 0x27] @ s @ [CHR 0x27]"

definition invalid_destination :: "string \<Rightarrow> string" where
  "invalid_destination dest =
     ''Invalid destination '' @ quoted dest @ ''. Must start with / (e.g., /topic/test, /queue/test)''"

definition unusual_destination :: "string \<Rightarrow> string" where
  "unusual_destination dest =
     ''Warning: '' @ quoted dest @ '' doesn'' @ [CHR 0x27] @
     ''t match common patterns (/topic/, /queue/, /amq/, /exchange/)''"

definition is_common_pattern :: "string \<Rightarrow> bool" where
  "is_common_pattern dest \<longleftrightarrow>
     starts_with dest ''/topic/'' \<or> starts_with dest ''/queue/'' \<or>
     starts_with dest ''/amq/'' \<or> starts_with dest ''/exchange/''"

definition text_frame :: "string \<Rightarrow> string \<Rightarrow> frame" where
  "text_frame dest msg =
     set_body msg (with_header ''content-type'' ''text/plain''
       (with_header ''destination'' dest (frame_new ''SEND'')))"

text \<open>A message for the user, in the message pane or on the console.\<close>

definition warn_user :: "int \<Rightarrow> bool \<Rightarrow> string \<Rightarrow> ('c, 'q, 's) world \<Rightarrow> ('c, 'q, 's) world" where
  "warn_user now tui msg w =
     (if tui then on_app (record_message now ''WARN'' msg []) w else print_all [Err msg] w)"

definition sent_notice ::
  "int \<Rightarrow> bool \<Rightarrow> string \<Rightarrow> string \<Rightarrow> ('c, 'q, 's) world \<Rightarrow> ('c, 'q, 's) world" where
  "sent_notice now tui dest msg w =
     (if tui then on_app (record_message now ''SENT'' (''['' @ dest @ ''] '' @ msg) []) w
      else print_all [Out (''Sent to '' @ dest)] w)"

definition command_send ::
  "cli_env \<Rightarrow> ('q, outbound) try_send \<Rightarrow> int \<Rightarrow> bool \<Rightarrow> string list \<Rightarrow> ('c, 'q, 's) world \<Rightarrow>
   (command_result \<times> ('c, 'q, 's) world) option" where
  "command_send env tso now tui parts w =
     (if length parts < 3 then Some (Error ''Usage: send <destination> <message>'', w)
      else
        let dest = parts ! 1; msg = parts ! 2 in
        if \<not> starts_with dest ''/'' then Some (Error (invalid_destination dest), w)
        else
          let known = hm_get (app_subscriptions (w_app w)) dest \<noteq> None
          in case send_frame tso (text_frame dest msg) (w_conn w) of
               None \<Rightarrow> None
             | Some (Inl e, s) \<Rightarrow>
                 Some (Error (''Send error: '' @ display_conn_error (env_io_text env) e), w\<lparr>w_conn := s\<rparr>)
             | Some (Inr _, s) \<Rightarrow>
                 let w = w\<lparr>w_conn := s\<rparr>;
                     w = (if \<not> known \<and> \<not> is_common_pattern dest
                          then warn_user now tui (unusual_destination dest) w else w)
                 in Some (Ok, sent_notice now tui dest msg w))"

definition command_sub ::
  "('s, string) try_send \<Rightarrow> int \<Rightarrow> bool \<Rightarrow> string list \<Rightarrow> ('c, 'q, 's) world \<Rightarrow>
   (command_result \<times> ('c, 'q, 's) world) option" where
  "command_sub tss now tui parts w =
     (if length parts < 2 then Some (Error ''Usage: sub <destination>'', w)
      else
        let dest = parts ! 1 in
        if \<not> starts_with dest ''/'' then Some (Error (invalid_destination dest), w)
        else
          let w = (if is_common_pattern dest then w else warn_user now tui (unusual_destination dest) w)
          in case tss (w_sub_tx w) dest of
               (Sent, tx) \<Rightarrow> Some (Ok, w\<lparr>w_sub_tx := tx\<rparr>)
             | (Closed _, tx) \<Rightarrow> Some (Error ''Failed to request subscription'', w\<lparr>w_sub_tx := tx\<rparr>)
             | (Full _, _) \<Rightarrow> None)"

definition about_lines :: "string \<Rightarrow> printed list" where
  "about_lines version =
     [Out [], Out (''iridium-stomp v'' @ version), Out [],
      Out (encode_char 0xA9 @ '' 2025 Brad Siegfreid''), Out [],
      Out ''Licensed under MIT OR Apache-2.0, at your option.'',
      Out ''See https://github.com/iridiumdesign/iridium-stomp for more information.'', Out []]"

definition help_lines :: "printed list" where
  "help_lines =
     [Out ''Commands:'',
      Out ''  send <destination> <message>  - Send a message'',
      Out ''  sub <destination>             - Subscribe to a destination'',
      Out ''  about                         - Show copyright and license'',
      Out ''  summary [file]                - Print session summary (or save to file)'',
      Out ''  report [file]                 - Full report with message history (or save to file)'',
      Out ''  clear                         - Clear message history'',
      Out ''  quit                          - Exit'']"

text \<open>\<^verbatim>\<open>summary\<close> and \<^verbatim>\<open>report\<close>: to a file, to the console, or (in the terminal interface) refused.\<close>

definition command_report ::
  "cli_env \<Rightarrow> bool \<Rightarrow> string \<Rightarrow> string \<Rightarrow> string \<Rightarrow> string list \<Rightarrow> ('c, 'q, 's) world \<Rightarrow>
   (command_result \<times> ('c, 'q, 's) world) option" where
  "command_report env tui name Name report parts w =
     (if 2 \<le> length parts then
        let filename = parts ! 1 in
        case env_file env filename of
          CreateFailed e \<Rightarrow> Some (Error (''Failed to create file: '' @ e), w)
        | WriteFailed e \<Rightarrow> Some (Error (''Failed to write '' @ name @ '': '' @ e), w)
        | Written \<Rightarrow>
            let w = w\<lparr>w_files := w_files w @ [(filename, report @ [LF])]\<rparr>;
                done_text = Name @ '' written to '' @ filename
            in if tui then Some (Info done_text, w) else Some (Ok, print_all [Out done_text] w)
      else if tui then Some (Error (''Usage: '' @ name @ '' <filename>''), w)
      else Some (Ok, print_all [Out report] w))"

definition command_about ::
  "cli_env \<Rightarrow> bool \<Rightarrow> ('c, 'q, 's) world \<Rightarrow> command_result \<times> ('c, 'q, 's) world" where
  "command_about env tui w =
     (if tui
      then (Info (''iridium-stomp v'' @ env_version env @ '' - '' @ encode_char 0xA9 @
                    '' 2025 Brad Siegfreid - MIT OR Apache-2.0''), w)
      else (Ok, print_all (about_lines (env_version env)) w))"

definition command_full_report ::
  "cli_env \<Rightarrow> int \<Rightarrow> bool \<Rightarrow> string list \<Rightarrow> ('c, 'q, 's) world \<Rightarrow>
   (command_result \<times> ('c, 'q, 's) world) option" where
  "command_full_report env now tui parts w =
     command_report env tui ''report'' ''Report''
       (generate_summary_with_options (env_date_text env) (env_clock_text env) now True 80 (w_app w)) parts w"

definition command_help :: "bool \<Rightarrow> ('c, 'q, 's) world \<Rightarrow> command_result \<times> ('c, 'q, 's) world" where
  "command_help tui w =
     (if tui then (Info ''Commands: send, sub, summary <file>, report <file>, clear, quit'', w)
      else (Ok, print_all help_lines w))"

definition unknown_command :: "string \<Rightarrow> command_result" where
  "unknown_command name =
     Error (''Unknown command: '' @ name @ ''. Type '' @ quoted ''help'' @ '' for commands.'')"

definition execute_command ::
  "cli_env \<Rightarrow> ('q, outbound) try_send \<Rightarrow> ('s, string) try_send \<Rightarrow> int \<Rightarrow> bool \<Rightarrow> string \<Rightarrow>
   ('c, 'q, 's) world \<Rightarrow> (command_result \<times> ('c, 'q, 's) world) option" where
  "execute_command env tso tss now tui line w =
     (let parts = splitn 3 (CHR '' '') (trim line) in
      if parts = [] \<or> parts ! 0 = [] then Some (Ok, w)
      else if parts ! 0 \<in> {''quit'', ''exit'', ''q''} then Some (Quit, w)
      else if parts ! 0 = ''send'' then command_send env tso now tui parts w
      else if parts ! 0 \<in> {''sub'', ''subscribe''} then command_sub tss now tui parts w
      else if parts ! 0 = ''about'' then Some (command_about env tui w)
      else if parts ! 0 = ''summary'' then
        command_report env tui ''summary'' ''Summary''
          (generate_summary (env_date_text env) (env_clock_text env) now (w_app w)) parts w
      else if parts ! 0 = ''report'' then
        command_full_report env now tui parts w
      else if parts ! 0 = ''clear'' then Some (Ok, on_app clear_messages w)
      else if parts ! 0 \<in> {''help'', ''?''} then
        Some (command_help tui w)
      else Some (unknown_command (parts ! 0), w))"

lemmas execute_command_eq =
  execute_command_def command_about_def command_full_report_def command_help_def unknown_command_def

section \<open>One-shot send\<close>

text \<open>
  What happens while a confirmed frame is awaited: what the rest of the program does to the shared
  state, and the event that ends the wait of the handle.
\<close>

type_synonym ('c, 'q) answer =
  "(('c, 'q) conn \<Rightarrow> ('c, 'q) conn) \<times> (receipt_handle \<Rightarrow> rx_event)"

text \<open>
  The outer \<^verbatim>\<open>timeout\<close> drops the connect future, so it bounds the attempt loop as its own bound
  would; the last error is lost.
\<close>

definition oneshot_connect ::
  "cli_env \<Rightarrow> cli_args \<Rightarrow> attempt list \<Rightarrow> (string \<times> nat, intervals) result" where
  "oneshot_connect env cli attempts =
     (let timeout = from_secs (arg_timeout cli);
          options = opt_disconnect_timeout timeout connect_options_new;
          cr = credentials_of (arg_login cli) (arg_passcode cli) (arg_heartbeat cli) (connect_config_of options)
      in case fst (connect_loop (Some timeout) cr attempts 0 1 None) of
           Connected iv \<Rightarrow> Inr iv
         | Refused e \<Rightarrow> Inl (format_connection_error_pub (env_io_text env) e (arg_address cli))
         | _ \<Rightarrow> Inl (''Timed out after '' @ show_nat (arg_timeout cli) @ ''s connecting to '' @
                     arg_address cli, NETWORK_ERROR))"

definition disconnect_warning :: "(io_error \<Rightarrow> string) \<Rightarrow> (conn_error, unit) result \<Rightarrow> printed list" where
  "disconnect_warning io_text closed =
     (case closed of
        Inl e \<Rightarrow> [Err (''Warning: broker did not confirm the disconnect: '' @ display_conn_error io_text e)]
      | Inr _ \<Rightarrow> [])"

definition oneshot_run ::
  "cli_env \<Rightarrow> ('q, outbound) try_send \<Rightarrow> cli_args \<Rightarrow> string \<Rightarrow> string \<Rightarrow> attempt list \<Rightarrow>
   ('c, 'q) conn \<Rightarrow> ('c, 'q) answer \<Rightarrow> ('c, 'q) answer \<Rightarrow>
   ((string \<times> nat, unit) result \<times> printed list \<times> ('c, 'q) conn) option" where
  "oneshot_run env tso cli dest msg attempts fresh send_answer close_answer =
     (if \<not> starts_with dest ''/'' then Some (Inl (invalid_destination dest, PROTOCOL_ERROR), [], fresh)
      else
        (case oneshot_connect env cli attempts of
           Inl e \<Rightarrow> Some (Inl e, [], fresh)
         | Inr _ \<Rightarrow>
             (case send_frame_confirmed tso (text_frame dest msg) (fst send_answer) (snd send_answer) fresh of
                None \<Rightarrow> None
              | Some (sent, s) \<Rightarrow>
                  (case close_conn tso (fst close_answer) (snd close_answer) s of
                     None \<Rightarrow> None
                   | Some (closed, s, _) \<Rightarrow>
                       (case sent of
                          Inl e \<Rightarrow>
                            Some (Inl (format_connection_error_pub (env_io_text env) e (arg_address cli)), [], s)
                        | Inr _ \<Rightarrow>
                            Some (Inr (), disconnect_warning (env_io_text env) closed @
                                          [Out (''Sent to '' @ dest)], s))))))"

text \<open>The end of \<^verbatim>\<open>main\<close>: what it prints and the exit code.\<close>

definition main_exit :: "(string \<times> nat, unit) result \<Rightarrow> printed list \<times> nat" where
  "main_exit r = (case r of Inr _ \<Rightarrow> ([], SUCCESS) | Inl (message, code) \<Rightarrow> ([Err message], code))"

section \<open>What plain mode and the terminal interface share\<close>

definition heartbeat_interval_of :: "string \<Rightarrow> 32 word" where
  "heartbeat_interval_of heartbeat =
     (let hb_parts = split_on (CHR '','') heartbeat in
      of_nat (unwrap_or 10000
        (if 1 < length hb_parts then parse_unsigned u32_limit (trim (hb_parts ! 1)) else None)))"

text \<open>The connection of an interactive session; \<open>hb_tx\<close> is the heart-beat channel.\<close>

definition interactive_connect ::
  "cli_env \<Rightarrow> (duration \<Rightarrow> string) \<Rightarrow> cli_args \<Rightarrow> chan_id \<Rightarrow> attempt list \<Rightarrow> nat \<Rightarrow> 'q \<Rightarrow>
   (chan_id \<Rightarrow> 'c) \<Rightarrow> (string \<times> nat, ('c, 'q) conn) result option" where
  "interactive_connect env dur_text cli hb_tx attempts now q cs =
     (let options = opt_connect_timeout (from_secs (arg_timeout cli))
            (opt_heartbeat_notify hb_tx connect_options_new)
      in case connect_with_options dur_text (arg_address cli) (arg_login cli) (arg_passcode cli)
                (arg_heartbeat cli) options attempts now q cs of
           None \<Rightarrow> None
         | Some (Inl e) \<Rightarrow>
             Some (Inl (format_connection_error_pub (env_io_text env) e (arg_address cli)))
         | Some (Inr (t, _)) \<Rightarrow> Some (Inr (shared t)))"

text \<open>
  \<^verbatim>\<open>subscribe_destination\<close>; plain mode also prints. The handle becomes its receiver, which the
  task spawned for it owns.
\<close>

definition subscribe_destination ::
  "cli_env \<Rightarrow> (nat \<Rightarrow> 'c) \<Rightarrow> ('q, outbound) try_send \<Rightarrow> bool \<Rightarrow> string \<Rightarrow> ('c, 'q, 's) world \<Rightarrow>
   ((string \<times> nat, unit) result \<times> ('c, 'q, 's) world) option" where
  "subscribe_destination env mk tso tui dest w =
     (case subscribe mk tso dest Auto (w_conn w) of
        None \<Rightarrow> None
      | Some (Inl e, s) \<Rightarrow>
          Some (Inl (''Failed to subscribe to '' @ quoted dest @ '': '' @
                       display_conn_error (env_io_text env) e, PROTOCOL_ERROR), w\<lparr>w_conn := s\<rparr>)
      | Some (Inr _, s) \<Rightarrow>
          let w = w\<lparr>w_conn := s\<rparr>;
              w = (if tui then w else print_all [Out (''Subscribed to: '' @ dest)] w)
          in Some (Inr (), on_app (register_subscription dest) w))"

primrec subscribe_all ::
  "cli_env \<Rightarrow> (nat \<Rightarrow> 'c) \<Rightarrow> ('q, outbound) try_send \<Rightarrow> bool \<Rightarrow> string list \<Rightarrow> ('c, 'q, 's) world \<Rightarrow>
   ((string \<times> nat, unit) result \<times> ('c, 'q, 's) world) option" where
  "subscribe_all env mk tso tui [] w = Some (Inr (), w)"
| "subscribe_all env mk tso tui (d # ds) w =
     (case subscribe_destination env mk tso tui d w of
        None \<Rightarrow> None
      | Some (Inl e, w) \<Rightarrow> Some (Inl e, w)
      | Some (Inr _, w) \<Rightarrow> subscribe_all env mk tso tui ds w)"

definition body_text :: "bytes \<Rightarrow> string" where
  "body_text b =
     (if b = [] then []
      else case from_utf8 b of
             Some s \<Rightarrow> s
           | None \<Rightarrow> ''('' @ show_nat (length b) @ '' bytes, binary)'')"

definition error_summary :: "server_error \<Rightarrow> string" where
  "error_summary e =
     (case err_body e of Some b \<Rightarrow> err_message e @ '': '' @ b | None \<Rightarrow> err_message e)"

section \<open>Plain mode\<close>

definition header_lines :: "frame \<Rightarrow> string list" where
  "header_lines f = map (\<lambda>(k, v). ''  '' @ k @ '': '' @ v) (headers f)"

definition plain_message :: "int \<Rightarrow> string \<Rightarrow> frame \<Rightarrow> ('c, 'q, 's) world \<Rightarrow> ('c, 'q, 's) world" where
  "plain_message now dest f w =
     print_all
       ([Out (LF # ''['' @ dest @ ''] MESSAGE received:'')] @ map Out (header_lines f) @
        (if body f = [] then [] else [Out (''  Body: '' @ body_text (body f))]) @ [Prompt])
       (on_app (record_message now dest (body_text (body f)) (headers f)) w)"

definition plain_broker_frame ::
  "int \<Rightarrow> received_frame \<Rightarrow> ('c, 'q, 's) world \<Rightarrow> ('c, 'q, 's) world" where
  "plain_broker_frame now rf w =
     (case rf of
        ReceivedError e \<Rightarrow>
          print_all [Prompt]
            (on_app (record_message now ''BROKER ERROR'' (error_summary e) (headers (err_frame e)))
              (print_all
                (Err (LF # ''[BROKER ERROR] '' @ error_summary e) # map Err (header_lines (err_frame e))) w))
      | Received _ \<Rightarrow> w)"

text \<open>One turn of the command loop: \<open>None\<close> for the line at the end of standard input.\<close>

datatype turn = Again | Leave

definition plain_line ::
  "cli_env \<Rightarrow> ('q, outbound) try_send \<Rightarrow> ('s, string) try_send \<Rightarrow> bool \<Rightarrow> ('c, 'q) answer \<Rightarrow> int \<Rightarrow>
   string option \<Rightarrow> ('c, 'q, 's) world \<Rightarrow> (turn \<times> ('c, 'q, 's) world) option" where
  "plain_line env tso tss summary close_answer now line w =
     (let w = print_all [Prompt] w in
      case line of
        None \<Rightarrow> Some (Leave, w)
      | Some l \<Rightarrow>
          (case execute_command env tso tss now False l w of
             None \<Rightarrow> None
           | Some (Ok, w) \<Rightarrow> Some (Again, w)
           | Some (Info msg, w) \<Rightarrow> Some (Again, print_all [Out msg] w)
           | Some (Error msg, w) \<Rightarrow> Some (Again, print_all [Err msg] w)
           | Some (Quit, w) \<Rightarrow>
               let w = print_all [Out ''Disconnecting...''] w;
                   w = (if summary
                        then print_all [Out (generate_summary (env_date_text env) (env_clock_text env)
                               now (w_app w))] w
                        else w)
               in (case close_conn tso (fst close_answer) (snd close_answer) (w_conn w) of
                     None \<Rightarrow> None
                   | Some (closed, s, _) \<Rightarrow>
                       Some (Leave, print_all (disconnect_warning (env_io_text env) closed)
                                      (w\<lparr>w_conn := s\<rparr>)))))"

text \<open>The task that serves subscription requests.\<close>

definition plain_sub_request ::
  "cli_env \<Rightarrow> (nat \<Rightarrow> 'c) \<Rightarrow> ('q, outbound) try_send \<Rightarrow> string \<Rightarrow> ('c, 'q, 's) world \<Rightarrow>
   ('c, 'q, 's) world option" where
  "plain_sub_request env mk tso dest w =
     (case subscribe_destination env mk tso False dest w of
        None \<Rightarrow> None
      | Some (Inl (msg, _), w) \<Rightarrow> Some (print_all [Err msg] w)
      | Some (Inr _, w) \<Rightarrow> Some w)"

text \<open>\<^verbatim>\<open>plain::run\<close> up to its command loop.\<close>

definition world_new :: "('c, 'q) conn \<Rightarrow> app_state \<Rightarrow> 's \<Rightarrow> printed list \<Rightarrow> ('c, 'q, 's) world" where
  "world_new s app tx ps = \<lparr>w_conn = s, w_app = app, w_sub_tx = tx, w_printed = ps, w_files = []\<rparr>"

definition plain_start ::
  "cli_env \<Rightarrow> (duration \<Rightarrow> string) \<Rightarrow> (nat \<Rightarrow> 'c) \<Rightarrow> ('q, outbound) try_send \<Rightarrow> cli_args \<Rightarrow> chan_id \<Rightarrow>
   attempt list \<Rightarrow> nat \<Rightarrow> int \<Rightarrow> 'q \<Rightarrow> (chan_id \<Rightarrow> 'c) \<Rightarrow> 's \<Rightarrow>
   ((string \<times> nat) \<times> printed list + ('c, 'q, 's) world) option" where
  "plain_start env dur_text mk tso cli hb_tx attempts ms now q cs tx =
     (let ps = [Out (''Connecting to '' @ arg_address cli @ ''...'')] in
      case interactive_connect env dur_text cli hb_tx attempts ms q cs of
        None \<Rightarrow> None
      | Some (Inl e) \<Rightarrow> Some (Inl (e, ps))
      | Some (Inr s) \<Rightarrow>
          let app = app_new now (arg_address cli) (arg_login cli) (heartbeat_interval_of (arg_heartbeat cli))
          in (case subscribe_all env mk tso False (arg_subscribe cli)
                     (world_new s app tx (ps @ [Out ''Connected.''])) of
                None \<Rightarrow> None
              | Some (Inl e, w) \<Rightarrow> Some (Inl (e, w_printed w))
              | Some (Inr _, w) \<Rightarrow> Some (Inr (print_all ([Out []] @ help_lines @ [Out []]) w))))"

section \<open>What a command does to the queues\<close>

lemma warn_user_fields [simp]:
  "w_conn (warn_user now tui msg w) = w_conn w"
  "w_sub_tx (warn_user now tui msg w) = w_sub_tx w"
  by (simp_all add: warn_user_def on_app_def print_all_def)

lemma sent_notice_fields [simp]:
  "w_conn (sent_notice now tui dest msg w) = w_conn w"
  "w_sub_tx (sent_notice now tui dest msg w) = w_sub_tx w"
  by (simp_all add: sent_notice_def on_app_def print_all_def)

text \<open>What a command may leave behind: \<open>items\<close> more in the outbound channel, \<open>reqs\<close> more requests.\<close>

definition queues ::
  "('q \<Rightarrow> outbound list) \<Rightarrow> ('s \<Rightarrow> string list) \<Rightarrow> outbound list \<Rightarrow> string list \<Rightarrow>
   ('c, 'q, 's) world \<Rightarrow> ('c, 'q, 's) world \<Rightarrow> bool" where
  "queues oq sq items reqs w w' \<longleftrightarrow>
     w_conn w' = (w_conn w)\<lparr>outbound_tx := outbound_tx (w_conn w')\<rparr> \<and>
     oq (outbound_tx (w_conn w')) = oq (outbound_tx (w_conn w)) @ items \<and>
     sq (w_sub_tx w') = sq (w_sub_tx w) @ reqs"

lemma queues_same: "w_conn w' = w_conn w \<Longrightarrow> w_sub_tx w' = w_sub_tx w \<Longrightarrow> queues oq sq [] [] w w'"
  by (simp add: queues_def)

lemma command_send_queues:
  assumes "mpsc_channel tso oq og"
    and "command_send env tso now tui parts w = Some (r, w')"
  shows "r \<noteq> Quit \<and> (r = Ok \<longrightarrow> starts_with (parts ! 1) ''/'') \<and>
    queues oq sq (if r = Ok then [Item (Frame (text_frame (parts ! 1) (parts ! 2)))] else []) [] w w'"
proof -
  have ch: "outbound_channel tso oq og"
    using assms(1) by (simp add: outbound_channel_def)
  show ?thesis
    by (rule outbound_channel.send_out_cases [OF ch, where out = "Item (Frame (text_frame (parts ! 1) (parts ! 2)))"
          and s = "w_conn w"])
      (use assms(2) in \<open>auto simp: command_send_def send_frame_def Let_def queues_def split: if_splits\<close>)
qed

lemma command_sub_queues:
  assumes "mpsc_channel tss sq sg"
    and "command_sub tss now tui parts w = Some (r, w')"
  shows "r \<noteq> Quit \<and> queues oq sq [] (if r = Ok then [parts ! 1] else []) w w'"
  using assms(2) mpsc_channel.ts_Sent [OF assms(1)] mpsc_channel.ts_Closed [OF assms(1)]
  by (fastforce simp: command_sub_def Let_def queues_def split: if_splits prod.splits try_send_result.splits)

lemma command_report_queues:
  assumes "command_report env tui name Name report parts w = Some (r, w')"
  shows "r \<noteq> Quit \<and> queues oq sq [] [] w w'"
  using assms
  by (auto simp: command_report_def Let_def print_all_def intro!: queues_same
      split: if_splits file_result.splits)

definition words_of :: "string \<Rightarrow> string list" where
  "words_of line = splitn 3 (CHR '' '') (trim line)"

lemma command_other:
  assumes "execute_command env tso tss now tui line w = Some (r, w')"
    and "words_of line = [] \<or> words_of line ! 0 \<notin> {''send'', ''sub'', ''subscribe''}"
  shows "(r = Quit \<longleftrightarrow> words_of line \<noteq> [] \<and> words_of line ! 0 \<in> {''quit'', ''exit'', ''q''}) \<and>
    queues oq sq [] [] w w'"
proof (cases "words_of line \<noteq> [] \<and> words_of line ! 0 \<in> {''summary'', ''report''}")
  case True
  then obtain name Name report where
    "command_report env tui name Name report (words_of line) w = Some (r, w')"
    using assms(1) by (auto simp: execute_command_eq Let_def words_of_def)
  from command_report_queues [OF this] show ?thesis using True by auto
next
  case False
  then show ?thesis
    using assms
    by (auto simp: execute_command_eq Let_def words_of_def print_all_def on_app_def intro!: queues_same
        split: if_splits)
qed

text \<open>
  C34. What a command line can do. Whatever the line, the mode and the state: the client is asked to
  quit exactly for \<^verbatim>\<open>quit\<close>, \<^verbatim>\<open>exit\<close> and \<^verbatim>\<open>q\<close>; exactly one SEND frame is queued, with the given
  destination (which starts with a slash) and text, when a \<^verbatim>\<open>send\<close> command succeeds, and exactly one
  subscription request when a \<^verbatim>\<open>sub\<close> does; and no command touches anything else of the connection.
\<close>

theorem command_queues:
  assumes "mpsc_channel tso oq og" and "mpsc_channel tss sq sg"
    and "execute_command env tso tss now tui line w = Some (r, w')"
  shows "let parts = words_of line;
             sends = (r = Ok \<and> parts \<noteq> [] \<and> parts ! 0 = ''send'');
             subs = (r = Ok \<and> parts \<noteq> [] \<and> parts ! 0 \<in> {''sub'', ''subscribe''})
    in (r = Quit \<longleftrightarrow> parts \<noteq> [] \<and> parts ! 0 \<in> {''quit'', ''exit'', ''q''}) \<and>
       (sends \<longrightarrow> starts_with (parts ! 1) ''/'') \<and>
       queues oq sq (if sends then [Item (Frame (text_frame (parts ! 1) (parts ! 2)))] else [])
         (if subs then [parts ! 1] else []) w w'"
proof (cases "words_of line = [] \<or> words_of line ! 0 \<notin> {''send'', ''sub'', ''subscribe''}")
  case True
  then show ?thesis using command_other [OF assms(3) True, of oq sq] by (auto simp: Let_def)
next
  case False
  then consider (send) "words_of line \<noteq> []" "words_of line ! 0 = ''send''"
    | (sub) "words_of line \<noteq> []" "words_of line ! 0 \<in> {''sub'', ''subscribe''}" by auto
  then show ?thesis
  proof cases
    case send
    then have "command_send env tso now tui (words_of line) w = Some (r, w')"
      using assms(3) by (simp add: execute_command_eq Let_def words_of_def)
    from command_send_queues [OF assms(1) this, of sq] show ?thesis using send by (auto simp: Let_def)
  next
    case sub
    then have "command_sub tss now tui (words_of line) w = Some (r, w')"
      using assms(3) by (auto simp: execute_command_eq Let_def words_of_def)
    from command_sub_queues [OF assms(2) this, of oq] show ?thesis using sub by (auto simp: Let_def)
  qed
qed

definition demo_env :: cli_env where
  "demo_env = \<lparr>env_io_text = (\<lambda>_. ''io''), env_date_text = (\<lambda>_. ''date''), env_clock_text = (\<lambda>_. ''time''),
     env_version = ''0.0.0'', env_file = (\<lambda>_. Written)\<rparr>"

definition demo_world :: "(frame bounded_chan, outbound bounded_chan, string bounded_chan) world" where
  "demo_world = world_new (conn_new (bc_new 32) (\<lambda>_. bc_new 1)) (app_new 0 ''h'' ''u'' 10000) (bc_new 16) []"

lemma demo_words: "words_of ''send /queue/a hello there'' = [''send'', ''/queue/a'', ''hello there'']"
  by code_simp

theorem command_queues_witness:
  "\<exists>w'. execute_command demo_env bc_try_send bc_try_send 0 True ''send /queue/a hello there'' demo_world =
       Some (Ok, w') \<and>
     bc_buf (outbound_tx (w_conn w')) = [Item (Frame (text_frame ''/queue/a'' ''hello there''))]"
proof -
  have start: "bc_buf (outbound_tx (w_conn demo_world)) = []"
    by (simp add: demo_world_def world_new_def conn_new_def bc_new_def)
  obtain w' where run: "execute_command demo_env bc_try_send bc_try_send 0 True
      ''send /queue/a hello there'' demo_world = Some (Ok, w')"
    using demo_words
    by (simp add: execute_command_eq words_of_def command_send_def Let_def starts_with_def send_frame_def
        send_out_def demo_world_def world_new_def conn_new_def bc_new_def bc_try_send_def)
  show ?thesis
    using command_queues [OF bounded.mpsc_channel_axioms bounded.mpsc_channel_axioms run] run start demo_words
    by (simp add: Let_def queues_def)
qed

section \<open>Exit codes\<close>

text \<open>
  C33. The exit code of \<^verbatim>\<open>--send\<close> is the fate of the message alone. Once connected, for a valid
  destination, the program exits with 0 exactly when the broker's RECEIPT for the frame came, with
  4 when the broker answered with an ERROR naming it, and with 3 otherwise (no answer in time, or
  nothing to send on), whatever the disconnect that follows does; and it says that the message
  was sent exactly in the first case.
\<close>

theorem oneshot_exit_code:
  assumes "starts_with dest ''/''" and "oneshot_connect env cli attempts = Inr iv"
    and "oneshot_run env tso cli dest msg attempts s send_answer close_answer = Some (r, out, s')"
  shows "snd (main_exit r) =
      (case send_frame_with_receipt tso (text_frame dest msg) s of
         Some (Inr h, _) \<Rightarrow>
           (case snd send_answer h of RxOutcome (Inr _) \<Rightarrow> 0 | RxOutcome (Inl _) \<Rightarrow> 4 | _ \<Rightarrow> 3)
       | _ \<Rightarrow> 3) \<and>
    (Out (''Sent to '' @ dest) \<in> set out \<longleftrightarrow> snd (main_exit r) = 0)"
proof -
  obtain sent s1 where sent: "send_frame_confirmed tso (text_frame dest msg) (fst send_answer)
      (snd send_answer) s = Some (sent, s1)"
    and r: "r = map_sum (\<lambda>e. format_connection_error_pub (env_io_text env) e (arg_address cli)) id sent"
    and out: "Out (''Sent to '' @ dest) \<in> set out \<longleftrightarrow> sent = Inr ()"
    using assms by (auto simp: oneshot_run_def split: option.splits sum.splits prod.splits)
  have send_err: "e = Protocol ''send channel closed''"
    if "send_frame_with_receipt tso (text_frame dest msg) s = Some (Inl e, s2)" for e s2
    using that by (auto simp: send_frame_with_receipt_def generate_receipt_id_def send_frame_def send_out_def Let_def
        split: option.splits sum.splits prod.splits try_send_result.splits)
  show ?thesis
    using sent r out send_err
    by (auto simp: send_frame_confirmed_def receipt_wait_def main_exit_def SUCCESS_def PROTOCOL_ERROR_def
        FRAME_REJECTED_def split: option.splits sum.splits prod.splits rx_event.splits)
qed

definition demo_cli :: cli_args where
  "demo_cli = \<lparr>arg_address = ''broker:61613'', arg_login = ''u'', arg_passcode = ''p'',
     arg_heartbeat = ''10000,0'', arg_subscribe = [], arg_tui = False, arg_summary = False,
     arg_send = Some (''/queue/a'', ''hi''), arg_timeout = 5\<rparr>"

definition denied :: server_error where
  "denied = server_error_from_frame (frame_new ''ERROR'')"

lemma demo_oneshot_connect: "oneshot_connect demo_env demo_cli [up] = Inr (Some (from_millis 10000), None)"
proof -
  have "credentials_of ''u'' ''p'' ''10000,0''
      (connect_config_of (opt_disconnect_timeout (from_secs 5) connect_options_new)) = demo_credentials"
    by (simp add: demo_credentials_def credentials_of_def connect_config_of_def opt_disconnect_timeout_def
        connect_options_new_def)
  moreover have "\<not> over (Some (from_secs 5)) (at_took up)"
    by (simp add: over_def up_def from_secs_def from_millis_def)
  ultimately show ?thesis
    by (simp add: oneshot_connect_def demo_cli_def demo_outcomes Let_def)
qed

theorem oneshot_exit_code_witness:
  "\<exists>r out s'. oneshot_run demo_env bc_try_send demo_cli ''/queue/a'' ''hi'' [up] (w_conn demo_world)
       (id, \<lambda>_. RxOutcome (Inl denied)) (id, \<lambda>_. RxElapsed) = Some (r, out, s') \<and> snd (main_exit r) = 4"
proof -
  obtain h s1 where sent: "send_frame_with_receipt bc_try_send (text_frame ''/queue/a'' ''hi'') (w_conn demo_world) =
      Some (Inr h, s1)"
    by (simp add: send_frame_with_receipt_def generate_receipt_id_def send_frame_def send_out_def Let_def
        bc_try_send_def demo_world_def world_new_def conn_new_def bc_new_def)
  obtain r out s' where run: "oneshot_run demo_env bc_try_send demo_cli ''/queue/a'' ''hi'' [up]
      (w_conn demo_world) (id, \<lambda>_. RxOutcome (Inl denied)) (id, \<lambda>_. RxElapsed) = Some (r, out, s')"
    by (simp add: oneshot_run_def starts_with_def demo_oneshot_connect send_frame_confirmed_def close_conn_def
        receipt_wait_def send_frame_with_receipt_def generate_receipt_id_def send_frame_def send_out_def Let_def
        bc_try_send_def demo_world_def world_new_def conn_new_def bc_new_def)
  have "starts_with ''/queue/a'' ''/''" by (simp add: starts_with_def)
  then show ?thesis
    using oneshot_exit_code [OF _ demo_oneshot_connect run] run sent by auto
qed

end
