(* ===== verification/Stomp_Tui.thy ===== *)
theory Stomp_Tui
  imports Stomp_Cli
begin

text \<open>
  The terminal interface (\<^verbatim>\<open>src/bin/cli/tui.rs\<close>): key handling, the background tasks that feed the
  state, and the text of the panels. The height and width of a panel are
  parameters; \<open>Stomp_Screen\<close> has the styles and the layout, \<open>Stomp_Client\<close> the terminal itself.
\<close>

section \<open>Editing a string\<close>

text \<open>\<^verbatim>\<open>String::insert\<close> and \<^verbatim>\<open>String::remove\<close>, with \<open>None\<close> for their panics.\<close>

definition str_insert :: "nat \<Rightarrow> string \<Rightarrow> string \<Rightarrow> string option" where
  "str_insert i c s = (if is_char_boundary s i then Some (take i s @ c @ drop i s) else None)"

definition str_remove :: "nat \<Rightarrow> string \<Rightarrow> string option" where
  "str_remove i s =
     (if is_char_boundary s i
      then (case utf8_width (drop i s) of Some n \<Rightarrow> Some (take i s @ drop (i + n) s) | None \<Rightarrow> None)
      else None)"

section \<open>Keys\<close>

text \<open>A character key carries its UTF-8 bytes; \<open>key_other\<close> is any modifier but Control.\<close>

datatype key_code =
    KChar string | KUp | KDown | KPageUp | KPageDown | KEnter | KBackspace | KDelete
  | KLeft | KRight | KHome | KEnd | KEsc | KOther

record key_event =
  key_code :: key_code
  key_ctrl :: bool
  key_other :: bool

text \<open>
  What a key leaves: the program goes on (and whether it should quit), a panic, or a command that
  still waits for room in a channel.
\<close>

datatype 'w outcome = Next bool 'w | Panics | Waits

definition edit :: "(app_state \<Rightarrow> app_state option) \<Rightarrow> ('c, 'q, 's) world \<Rightarrow> ('c, 'q, 's) world outcome" where
  "edit f w = (case f (w_app w) of None \<Rightarrow> Panics | Some st \<Rightarrow> Next False (w\<lparr>w_app := st\<rparr>))"

abbreviation plain_edit where
  "plain_edit f \<equiv> edit (\<lambda>st. Some (f st))"

definition scroll_up :: "app_state \<Rightarrow> app_state" where
  "scroll_up st =
     (if 0 < app_scroll_offset st then st\<lparr>app_scroll_offset := app_scroll_offset st - 1\<rparr> else st)"

definition scroll_down :: "app_state \<Rightarrow> app_state" where
  "scroll_down st =
     (if app_scroll_offset st < length (app_messages st) - 1
      then st\<lparr>app_scroll_offset := app_scroll_offset st + 1\<rparr> else st)"

definition page_up :: "app_state \<Rightarrow> app_state" where
  "page_up st = st\<lparr>app_scroll_offset := app_scroll_offset st - 10\<rparr>"

definition page_down :: "app_state \<Rightarrow> app_state" where
  "page_down st =
     st\<lparr>app_scroll_offset := min (app_scroll_offset st + 10) (length (app_messages st) - 1)\<rparr>"

definition error_up :: "app_state \<Rightarrow> app_state" where
  "error_up st =
     (if 0 < app_error_scroll_offset st
      then st\<lparr>app_error_scroll_offset := app_error_scroll_offset st - 1\<rparr> else st)"

definition error_down :: "app_state \<Rightarrow> app_state" where
  "error_down st =
     (if app_error_scroll_offset st < length (app_errors st) - 1
      then st\<lparr>app_error_scroll_offset := app_error_scroll_offset st + 1\<rparr> else st)"

definition insert_char :: "string \<Rightarrow> app_state \<Rightarrow> app_state option" where
  "insert_char c st =
     map_option (\<lambda>s. st\<lparr>app_input := s, app_cursor_pos := app_cursor_pos st + 1\<rparr>)
       (str_insert (app_cursor_pos st) c (app_input st))"

definition backspace :: "app_state \<Rightarrow> app_state option" where
  "backspace st =
     (if 0 < app_cursor_pos st
      then map_option (\<lambda>s. st\<lparr>app_input := s, app_cursor_pos := app_cursor_pos st - 1\<rparr>)
             (str_remove (app_cursor_pos st - 1) (app_input st))
      else Some st)"

definition delete_char :: "app_state \<Rightarrow> app_state option" where
  "delete_char st =
     (if app_cursor_pos st < length (app_input st)
      then map_option (\<lambda>s. st\<lparr>app_input := s\<rparr>) (str_remove (app_cursor_pos st) (app_input st))
      else Some st)"

definition cursor_left :: "app_state \<Rightarrow> app_state" where
  "cursor_left st =
     (if 0 < app_cursor_pos st then st\<lparr>app_cursor_pos := app_cursor_pos st - 1\<rparr> else st)"

definition cursor_right :: "app_state \<Rightarrow> app_state" where
  "cursor_right st =
     (if app_cursor_pos st < length (app_input st)
      then st\<lparr>app_cursor_pos := app_cursor_pos st + 1\<rparr> else st)"

definition clear_input :: "app_state \<Rightarrow> app_state" where
  "clear_input st = st\<lparr>app_input := [], app_cursor_pos := 0\<rparr>"

definition enter_line ::
  "cli_env \<Rightarrow> ('q, outbound) try_send \<Rightarrow> ('s, string) try_send \<Rightarrow> int \<Rightarrow> ('c, 'q, 's) world \<Rightarrow>
   ('c, 'q, 's) world outcome" where
  "enter_line env tso tss now w =
     (let line = app_input (w_app w);
          w = on_app (clear_input \<circ> add_to_history line) w
      in if line = [] then Next False w
         else (case execute_command env tso tss now True line w of
                 None \<Rightarrow> Waits
               | Some (Ok, w) \<Rightarrow> Next False w
               | Some (Quit, w) \<Rightarrow> Next True w
               | Some (Info msg, w) \<Rightarrow> Next False (on_app (record_message now ''INFO'' msg []) w)
               | Some (Error msg, w) \<Rightarrow> Next False (on_app (record_message now ''ERROR'' msg []) w)))"

text \<open>The match of \<^verbatim>\<open>run_app\<close>, arm by arm.\<close>

definition on_key ::
  "cli_env \<Rightarrow> ('q, outbound) try_send \<Rightarrow> ('s, string) try_send \<Rightarrow> int \<Rightarrow> key_event \<Rightarrow>
   ('c, 'q, 's) world \<Rightarrow> ('c, 'q, 's) world outcome" where
  "on_key env tso tss now key w =
     (let ctrl = key_ctrl key; bare = (\<not> key_ctrl key \<and> \<not> key_other key) in
      case key_code key of
        KChar c \<Rightarrow>
          if ctrl \<and> (c = ''q'' \<or> c = ''c'') then Next True w
          else if ctrl \<and> c = ''h'' then plain_edit toggle_headers w
          else if ctrl \<and> c = ''e'' then plain_edit error_up w
          else if ctrl \<and> c = ''d'' then plain_edit error_down w
          else edit (insert_char c) w
      | KUp \<Rightarrow> if ctrl then plain_edit scroll_up w else if bare then edit history_prev w else Next False w
      | KDown \<Rightarrow> if ctrl then plain_edit scroll_down w else if bare then edit history_next w else Next False w
      | KPageUp \<Rightarrow> plain_edit page_up w
      | KPageDown \<Rightarrow> plain_edit page_down w
      | KEnter \<Rightarrow> enter_line env tso tss now w
      | KBackspace \<Rightarrow> edit backspace w
      | KDelete \<Rightarrow> edit delete_char w
      | KLeft \<Rightarrow> plain_edit cursor_left w
      | KRight \<Rightarrow> plain_edit cursor_right w
      | KHome \<Rightarrow> plain_edit (\<lambda>st. st\<lparr>app_cursor_pos := 0\<rparr>) w
      | KEnd \<Rightarrow> plain_edit (\<lambda>st. st\<lparr>app_cursor_pos := length (app_input st)\<rparr>) w
      | KEsc \<Rightarrow> plain_edit clear_input w
      | KOther \<Rightarrow> Next False w)"

section \<open>The tasks behind the screen\<close>

definition tui_message :: "int \<Rightarrow> string \<Rightarrow> frame \<Rightarrow> ('c, 'q, 's) world \<Rightarrow> ('c, 'q, 's) world" where
  "tui_message now dest f w = on_app (record_message now dest (body_text (body f)) (headers f)) w"

definition tui_broker_frame ::
  "int \<Rightarrow> received_frame \<Rightarrow> ('c, 'q, 's) world \<Rightarrow> ('c, 'q, 's) world" where
  "tui_broker_frame now rf w =
     (case rf of
        ReceivedError e \<Rightarrow>
          on_app (record_message now ''BROKER ERROR'' (error_summary e) (headers (err_frame e))) w
      | Received _ \<Rightarrow> w)"

text \<open>
  The interface's own \<^verbatim>\<open>subscribe_destination\<close>, which the task behind the screen and the start call
  in its shared form.
\<close>

definition tui_subscribe_destination ::
  "cli_env \<Rightarrow> (nat \<Rightarrow> 'c) \<Rightarrow> ('q, outbound) try_send \<Rightarrow> string \<Rightarrow> ('c, 'q, 's) world \<Rightarrow>
   ((string \<times> nat, unit) result \<times> ('c, 'q, 's) world) option" where
  "tui_subscribe_destination env mk tso dest w =
     (case subscribe mk tso dest Auto (w_conn w) of
        None \<Rightarrow> None
      | Some (Inl e, s) \<Rightarrow>
          Some (Inl (''Failed to subscribe to '' @ quoted dest @ '': '' @
                       display_conn_error (env_io_text env) e, PROTOCOL_ERROR), w\<lparr>w_conn := s\<rparr>)
      | Some (Inr _, s) \<Rightarrow> Some (Inr (), on_app (register_subscription dest) (w\<lparr>w_conn := s\<rparr>)))"

lemma tui_subscribe_shared:
  "tui_subscribe_destination env mk tso dest w = subscribe_destination env mk tso True dest w"
  by (simp add: tui_subscribe_destination_def subscribe_destination_def split: option.split sum.split prod.split)

definition tui_sub_request ::
  "cli_env \<Rightarrow> (nat \<Rightarrow> 'c) \<Rightarrow> ('q, outbound) try_send \<Rightarrow> int \<Rightarrow> string \<Rightarrow> ('c, 'q, 's) world \<Rightarrow>
   ('c, 'q, 's) world option" where
  "tui_sub_request env mk tso now dest w =
     (case subscribe_destination env mk tso True dest w of
        None \<Rightarrow> None
      | Some (Inr _, w) \<Rightarrow> Some (on_app (record_message now ''INFO'' (''Subscribed to '' @ dest) []) w)
      | Some (Inl (msg, _), w) \<Rightarrow> Some (on_app (record_message now ''ERROR'' msg []) w))"

text \<open>\<^verbatim>\<open>tui::run\<close> up to the terminal, and after it.\<close>

definition tui_start ::
  "cli_env \<Rightarrow> (duration \<Rightarrow> string) \<Rightarrow> (nat \<Rightarrow> 'c) \<Rightarrow> ('q, outbound) try_send \<Rightarrow> cli_args \<Rightarrow> chan_id \<Rightarrow>
   attempt list \<Rightarrow> nat \<Rightarrow> int \<Rightarrow> 'q \<Rightarrow> (chan_id \<Rightarrow> 'c) \<Rightarrow> 's \<Rightarrow>
   (string \<times> nat, ('c, 'q, 's) world) result option" where
  "tui_start env dur_text mk tso cli hb_tx attempts ms now q cs tx =
     (case interactive_connect env dur_text cli hb_tx attempts ms q cs of
        None \<Rightarrow> None
      | Some (Inl e) \<Rightarrow> Some (Inl e)
      | Some (Inr s) \<Rightarrow>
          let app = app_new now (arg_address cli) (arg_login cli) (heartbeat_interval_of (arg_heartbeat cli))
          in (case subscribe_all env mk tso True (arg_subscribe cli) (world_new s app tx []) of
                None \<Rightarrow> None
              | Some (Inl e, _) \<Rightarrow> Some (Inl e)
              | Some (Inr _, w) \<Rightarrow> Some (Inr w)))"

definition tui_finish ::
  "cli_env \<Rightarrow> ('q, outbound) try_send \<Rightarrow> cli_args \<Rightarrow> ('c, 'q) answer \<Rightarrow> int \<Rightarrow> ('c, 'q, 's) world \<Rightarrow>
   ('c, 'q, 's) world option" where
  "tui_finish env tso cli close_answer now w =
     (let w = (if arg_summary cli
               then print_all [Out (generate_summary (env_date_text env) (env_clock_text env) now (w_app w))] w
               else w)
      in case close_conn tso (fst close_answer) (snd close_answer) (w_conn w) of
           None \<Rightarrow> None
         | Some (closed, s, _) \<Rightarrow>
             Some (print_all (disconnect_warning (env_io_text env) closed) (w\<lparr>w_conn := s\<rparr>)))"

section \<open>The panels\<close>

definition header_text :: "instant \<Rightarrow> app_state \<Rightarrow> string" where
  "header_text now st =
     '' Host: '' @ app_host st @ ''    User: '' @ app_user st @ ''    Heartbeat: '' @
     fst (heartbeat_indicator now st) @ '' ('' @
     show_nat (unat (app_heartbeat_interval_ms st div 1000)) @ ''s)''"

definition header_title :: "int \<Rightarrow> app_state \<Rightarrow> string" where
  "header_title now st =
     '' iridium-stomp '' @ repeat_str 3 (encode_char 0x2500) @ '' '' @ session_duration now st @ '' ''"

text \<open>Rust orders strings by their bytes.\<close>

fun string_le :: "string \<Rightarrow> string \<Rightarrow> bool" where
  "string_le [] t = True"
| "string_le (c # s) [] = False"
| "string_le (c # s) (d # t) = (byte c < byte d \<or> c = d \<and> string_le s t)"

primrec insert_sub :: "string \<times> sub_stats \<Rightarrow> (string \<times> sub_stats) list \<Rightarrow> (string \<times> sub_stats) list" where
  "insert_sub x [] = [x]"
| "insert_sub x (y # ys) = (if string_le (fst x) (fst y) then x # y # ys else y # insert_sub x ys)"

definition sorted_subs :: "(string, sub_stats) hmap \<Rightarrow> (string \<times> sub_stats) list" where
  "sorted_subs m = foldr insert_sub m []"

definition counter_row :: "string \<Rightarrow> 64 word \<Rightarrow> (string \<times> string) list" where
  "counter_row label n = (if 0 < n then [(label, show_nat (unat n))] else [])"

definition count_rows :: "app_state \<Rightarrow> (string \<times> string) list" where
  "count_rows st =
     (let rows = map (\<lambda>(d, s). (d, show_nat (unat (message_count s)))) (sorted_subs (app_subscriptions st)) @
            counter_row ''Sent'' (app_sent_count st) @ counter_row ''Info'' (app_info_count st) @
            counter_row ''Warnings'' (app_warning_count st) @ counter_row ''Errors'' (app_error_count st);
          total = total_message_count st + app_sent_count st + app_info_count st + app_warning_count st +
            app_error_count st
      in if rows = [] then []
         else rows @ [([], repeat_str 9 (encode_char 0x2500)), (''Total'', show_nat (unat total))])"

text \<open>The first item shown: at the bottom unless the user has scrolled.\<close>

definition first_shown :: "nat \<Rightarrow> nat \<Rightarrow> nat \<Rightarrow> nat" where
  "first_shown offset n height = (if offset = 0 \<and> height < n then n - height else offset)"

text \<open>
  The panel follows the newest messages while the offset is 0. Ctrl+Up and Page Up never leave that
  state but lead back to it; Ctrl+Down and Page Down leave it and never lead back to it.
\<close>

theorem scrolling_follows:
  "app_scroll_offset st = 0 \<Longrightarrow> app_scroll_offset (scroll_up st) = 0 \<and> app_scroll_offset (page_up st) = 0"
  "app_scroll_offset st \<le> 10 \<Longrightarrow> app_scroll_offset (page_up st) = 0"
  "1 < length (app_messages st) \<Longrightarrow>
     0 < app_scroll_offset (scroll_down st) \<and> 0 < app_scroll_offset (page_down st)"
  by (auto simp: scroll_up_def page_up_def scroll_down_def page_down_def)

definition max_body_len :: "string \<Rightarrow> nat" where
  "max_body_len dest =
     (if dest = ''ERROR'' \<or> dest = ''BROKER ERROR'' then 200
      else if dest = ''WARN'' then 120
      else if dest = ''INFO'' then 80
      else 60)"

definition dest_display :: "string \<Rightarrow> string" where
  "dest_display dest =
     (if 20 < char_count dest then ''...'' @ concat (drop (char_count dest - 17) (chars dest)) else dest)"

text \<open>Pushes lines while there is room.\<close>

fun push_lines :: "nat \<Rightarrow> 'a list \<Rightarrow> 'a list \<Rightarrow> 'a list" where
  "push_lines height [] shown = shown"
| "push_lines height (l # ls) shown =
     (if height \<le> length shown then shown else push_lines height ls (shown @ [l]))"

definition message_line :: "(int \<Rightarrow> string) \<Rightarrow> display_message \<Rightarrow> string" where
  "message_line clock m =
     clock (dm_timestamp m) @ '' ['' @ dest_display (dm_destination m) @ ''] '' @
     truncate_str (dm_body m) (max_body_len (dm_destination m))"

definition message_headers :: "display_message \<Rightarrow> string list" where
  "message_headers m = map (\<lambda>(k, v). truncate_str (''    '' @ k @ '': '' @ v) 70) (dm_headers m)"

fun show_messages ::
  "(int \<Rightarrow> string) \<Rightarrow> bool \<Rightarrow> nat \<Rightarrow> display_message list \<Rightarrow> string list \<Rightarrow> string list" where
  "show_messages clock hdrs height [] shown = shown"
| "show_messages clock hdrs height (m # ms) shown =
     (if height \<le> length shown then shown
      else
        let shown = shown @ [message_line clock m];
            shown = (if hdrs then push_lines height (message_headers m) shown else shown)
        in show_messages clock hdrs height ms shown)"

definition render_messages :: "(int \<Rightarrow> string) \<Rightarrow> nat \<Rightarrow> app_state \<Rightarrow> string list" where
  "render_messages clock height st =
     show_messages clock (app_show_headers st) height
       (drop (first_shown (app_scroll_offset st) (length (app_messages st)) height) (app_messages st)) []"

text \<open>One broker error: its first line with the time, the rest of its body, its headers.\<close>

definition error_first :: "(int \<Rightarrow> string) \<Rightarrow> nat \<Rightarrow> display_message \<Rightarrow> string" where
  "error_first clock width e =
     (let time = clock (dm_timestamp e)
      in time @ '' '' @ (case char_wrap (dm_body e) (width - (length time + 1)) of [] \<Rightarrow> [] | c # _ \<Rightarrow> c))"

definition error_rest :: "(int \<Rightarrow> string) \<Rightarrow> nat \<Rightarrow> display_message \<Rightarrow> string list" where
  "error_rest clock width e =
     (let first_len = width - (length (clock (dm_timestamp e)) + 1);
          consumed = length (take first_len (chars (dm_body e)));
          tail = concat (drop consumed (chars (dm_body e)))
      in map (\<lambda>c. replicate 9 (CHR '' '') @ c) (char_wrap tail (width - 9)))"

fun push_header_chunks :: "nat \<Rightarrow> nat \<Rightarrow> (string \<times> string) list \<Rightarrow> string list \<Rightarrow> string list" where
  "push_header_chunks height width [] shown = shown"
| "push_header_chunks height width ((k, v) # hs) shown =
     push_header_chunks height width hs
       (push_lines height (char_wrap (''  '' @ k @ '': '' @ v) width) shown)"

fun show_errors ::
  "(int \<Rightarrow> string) \<Rightarrow> bool \<Rightarrow> nat \<Rightarrow> nat \<Rightarrow> display_message list \<Rightarrow> string list \<Rightarrow> string list" where
  "show_errors clock hdrs height width [] shown = shown"
| "show_errors clock hdrs height width (e # es) shown =
     (if height \<le> length shown then shown
      else
        let shown = push_lines height (error_rest clock width e) (shown @ [error_first clock width e]);
            shown = (if hdrs then push_header_chunks height width (dm_headers e) shown else shown);
            shown = (if length shown < height then shown @ [[]] else shown)
        in show_errors clock hdrs height width es shown)"

definition render_errors :: "(int \<Rightarrow> string) \<Rightarrow> nat \<Rightarrow> nat \<Rightarrow> app_state \<Rightarrow> string list" where
  "render_errors clock height width st =
     show_errors clock (app_show_headers st) height width
       (drop (first_shown (app_error_scroll_offset st) (length (app_errors st)) height) (app_errors st)) []"

definition input_text :: "app_state \<Rightarrow> string" where
  "input_text st = ''> '' @ app_input st"

section \<open>A run of the interface\<close>

text \<open>
  What can happen, in any order: a key, a heart-beat notice, a subscription request served, a frame
  from the broker, a message delivered, and any change the rest of the program makes to the shared
  connection and to the request channel.
\<close>

datatype ('c, 'q, 's) tui_event =
    Key key_event
  | Beat instant
  | SubAsked string
  | BrokerSent received_frame
  | Delivered string frame
  | Background "('c, 'q) conn" 's

definition tui_step ::
  "cli_env \<Rightarrow> (nat \<Rightarrow> 'c) \<Rightarrow> ('q, outbound) try_send \<Rightarrow> ('s, string) try_send \<Rightarrow> int \<Rightarrow>
   ('c, 'q, 's) tui_event \<Rightarrow> ('c, 'q, 's) world \<Rightarrow> ('c, 'q, 's) world outcome" where
  "tui_step env mk tso tss now ev w =
     (case ev of
        Key k \<Rightarrow> on_key env tso tss now k w
      | Beat t \<Rightarrow> Next False (on_app (record_heartbeat t) w)
      | SubAsked dest \<Rightarrow>
          (case tui_sub_request env mk tso now dest w of None \<Rightarrow> Waits | Some w \<Rightarrow> Next False w)
      | BrokerSent rf \<Rightarrow> Next False (tui_broker_frame now rf w)
      | Delivered dest f \<Rightarrow> Next False (tui_message now dest f w)
      | Background s tx \<Rightarrow> Next False (w\<lparr>w_conn := s, w_sub_tx := tx\<rparr>))"

fun tui_run ::
  "cli_env \<Rightarrow> (nat \<Rightarrow> 'c) \<Rightarrow> ('q, outbound) try_send \<Rightarrow> ('s, string) try_send \<Rightarrow>
   (int \<times> ('c, 'q, 's) tui_event) list \<Rightarrow> ('c, 'q, 's) world \<Rightarrow> ('c, 'q, 's) world outcome" where
  "tui_run env mk tso tss [] w = Next False w"
| "tui_run env mk tso tss ((now, ev) # evs) w =
     (case tui_step env mk tso tss now ev w of
        Next False w \<Rightarrow> tui_run env mk tso tss evs w
      | stop \<Rightarrow> stop)"

section \<open>The invariant\<close>

definition index_ok :: "nat option \<Rightarrow> nat \<Rightarrow> bool" where
  "index_ok i n \<longleftrightarrow> (case i of Some k \<Rightarrow> k < n | None \<Rightarrow> True)"

lemma index_ok_simps [simp]: "index_ok None n" "index_ok (Some k) n \<longleftrightarrow> k < n"
  by (simp_all add: index_ok_def)

definition edit_ok :: "app_state \<Rightarrow> bool" where
  "edit_ok st \<longleftrightarrow>
     is_ascii (app_input st) \<and> is_ascii (app_saved_input st) \<and>
     list_all is_ascii (app_command_history st) \<and> app_cursor_pos st \<le> length (app_input st) \<and>
     index_ok (app_history_index st) (length (app_command_history st))"

definition buffers_ok :: "app_state \<Rightarrow> bool" where
  "buffers_ok st \<longleftrightarrow>
     length (app_messages st) \<le> 1000 \<and> length (app_errors st) \<le> 100 \<and>
     app_scroll_offset st < 1000 \<and> app_error_scroll_offset st < 100"

definition tui_ok :: "app_state \<Rightarrow> bool" where
  "tui_ok st \<longleftrightarrow> edit_ok st \<and> buffers_ok st"

lemma tui_ok_new: "tui_ok (app_new now host user interval)"
  by (simp add: tui_ok_def edit_ok_def buffers_ok_def app_new_def is_ascii_def)

named_theorems tui_intros "operations that keep the invariant of the interface"

lemma tui_ok_record [tui_intros]: "tui_ok st \<Longrightarrow> tui_ok (record_message now dest b hs st)"
  by (simp add: tui_ok_def edit_ok_def buffers_ok_def record_message_def record_error_def
      bump_subscription_def pop_excess_eq MAX_MESSAGES_def MAX_ERRORS_def Let_def)

lemma tui_ok_register [tui_intros]: "tui_ok st \<Longrightarrow> tui_ok (register_subscription dest st)"
  by (simp add: tui_ok_def edit_ok_def buffers_ok_def register_subscription_def split: option.splits)

lemma tui_ok_beat [tui_intros]: "tui_ok st \<Longrightarrow> tui_ok (record_heartbeat t st)"
  by (simp add: tui_ok_def edit_ok_def buffers_ok_def record_heartbeat_def)

lemma tui_ok_view [tui_intros]:
  "tui_ok st \<Longrightarrow> tui_ok (toggle_headers st)"
  "tui_ok st \<Longrightarrow> tui_ok (clear_messages st)"
  "tui_ok st \<Longrightarrow> tui_ok (scroll_up st)"
  "tui_ok st \<Longrightarrow> tui_ok (scroll_down st)"
  "tui_ok st \<Longrightarrow> tui_ok (page_up st)"
  "tui_ok st \<Longrightarrow> tui_ok (page_down st)"
  "tui_ok st \<Longrightarrow> tui_ok (error_up st)"
  "tui_ok st \<Longrightarrow> tui_ok (error_down st)"
  by (auto simp: tui_ok_def edit_ok_def buffers_ok_def toggle_headers_def clear_messages_def scroll_up_def
      scroll_down_def page_up_def page_down_def error_up_def error_down_def)

lemma tui_ok_cursor [tui_intros]:
  "tui_ok st \<Longrightarrow> tui_ok (cursor_left st)"
  "tui_ok st \<Longrightarrow> tui_ok (cursor_right st)"
  "tui_ok st \<Longrightarrow> tui_ok (clear_input st)"
  "tui_ok st \<Longrightarrow> tui_ok (st\<lparr>app_cursor_pos := 0\<rparr>)"
  "tui_ok st \<Longrightarrow> tui_ok (st\<lparr>app_cursor_pos := length (app_input st)\<rparr>)"
  by (auto simp: tui_ok_def edit_ok_def buffers_ok_def cursor_left_def cursor_right_def clear_input_def
      is_ascii_def)

lemma is_ascii_trim: "is_ascii s \<Longrightarrow> is_ascii (trim s)"
proof -
  assume s: "is_ascii s"
  have "set (trim s) \<subseteq> set s"
    by (auto simp: trim_def chars_ascii [OF s] dest!: set_dropWhileD)
  then show ?thesis using s by (auto simp: is_ascii_def list_all_iff)
qed

lemma tui_ok_history [tui_intros]: "tui_ok st \<Longrightarrow> is_ascii cmd \<Longrightarrow> tui_ok (add_to_history cmd st)"
  using is_ascii_trim [of cmd]
  by (simp add: tui_ok_def edit_ok_def buffers_ok_def add_to_history_def Let_def is_ascii_def)

text \<open>ASCII text has a character boundary everywhere.\<close>

lemma is_ascii_boundary: "is_ascii s \<Longrightarrow> i \<le> length s \<Longrightarrow> is_char_boundary s i"
proof -
  assume s: "is_ascii s" and i: "i \<le> length s"
  have "\<not> cont_byte (s ! i)" if "i < length s"
    using s that by (auto simp: cont_byte_def is_ascii_def list_all_length)
  then show ?thesis using i by (auto simp: is_char_boundary_def)
qed

lemma is_ascii_take_drop: "is_ascii s \<Longrightarrow> is_ascii (take i s) \<and> is_ascii (drop i s)"
  by (auto simp: is_ascii_def list_all_iff dest: in_set_takeD in_set_dropD)

lemma is_ascii_append [simp]: "is_ascii (s @ t) \<longleftrightarrow> is_ascii s \<and> is_ascii t"
  by (simp add: is_ascii_def)

lemma str_insert_ascii:
  assumes "is_ascii s" and "is_ascii c" and "i \<le> length s"
  shows "\<exists>t. str_insert i c s = Some t \<and> is_ascii t \<and> length t = length s + length c"
  using assms is_ascii_take_drop [OF assms(1), of i] is_ascii_boundary [OF assms(1,3)]
  by (simp add: str_insert_def)

lemma str_remove_ascii:
  assumes "is_ascii s" and "i < length s"
  shows "\<exists>t. str_remove i s = Some t \<and> is_ascii t \<and> length t = length s - 1"
proof -
  have "byte (s ! i) < 0x80" using assms by (simp add: is_ascii_def list_all_length)
  then have "utf8_width (drop i s) = Some 1"
    using ascii_width [of "s ! i" "drop (Suc i) s"] assms(2) by (simp add: Cons_nth_drop_Suc)
  then show ?thesis
    using assms is_ascii_take_drop [OF assms(1)] is_ascii_boundary [of s i]
    by (auto simp: str_remove_def)
qed

lemma tui_ok_insert:
  assumes "tui_ok st" and "is_ascii c" and "length c = 1"
  shows "\<exists>st'. insert_char c st = Some st' \<and> tui_ok st'"
  using assms str_insert_ascii [of "app_input st" c "app_cursor_pos st"]
  by (auto simp: insert_char_def tui_ok_def edit_ok_def buffers_ok_def)

lemma tui_ok_backspace:
  assumes "tui_ok st"
  shows "\<exists>st'. backspace st = Some st' \<and> tui_ok st'"
proof (cases "app_cursor_pos st")
  case (Suc k)
  then have "is_ascii (app_input st)" "k < length (app_input st)"
    using assms by (auto simp: tui_ok_def edit_ok_def)
  then show ?thesis
    using assms str_remove_ascii [of "app_input st" k] Suc
    by (auto simp: backspace_def tui_ok_def edit_ok_def buffers_ok_def)
qed (use assms in \<open>simp add: backspace_def\<close>)

lemma tui_ok_delete:
  assumes "tui_ok st"
  shows "\<exists>st'. delete_char st = Some st' \<and> tui_ok st'"
  using assms str_remove_ascii [of "app_input st" "app_cursor_pos st"]
  by (auto simp: delete_char_def tui_ok_def edit_ok_def buffers_ok_def)

lemma tui_ok_entry:
  assumes "tui_ok st" and "i < length (app_command_history st)"
  shows "\<exists>st'. show_entry i st = Some st' \<and> tui_ok st'"
  using assms by (simp add: show_entry_def tui_ok_def edit_ok_def buffers_ok_def Let_def list_all_length)

lemma tui_ok_prev:
  assumes "tui_ok st"
  shows "\<exists>st'. history_prev st = Some st' \<and> tui_ok st'"
proof (cases "app_command_history st = []")
  case False
  have saved: "tui_ok (st\<lparr>app_saved_input := app_input st\<rparr>)"
    using assms by (simp add: tui_ok_def edit_ok_def buffers_ok_def)
  show ?thesis
  proof (cases "app_history_index st")
    case None
    then show ?thesis using tui_ok_entry [OF saved] False by (simp add: history_prev_def)
  next
    case (Some i)
    then have "i - 1 < length (app_command_history st)"
      using assms by (auto simp: tui_ok_def edit_ok_def)
    then show ?thesis using tui_ok_entry [OF assms] assms Some False by (simp add: history_prev_def)
  qed
qed (use assms in \<open>simp add: history_prev_def\<close>)

lemma tui_ok_next:
  assumes "tui_ok st"
  shows "\<exists>st'. history_next st = Some st' \<and> tui_ok st'"
proof (cases "app_history_index st")
  case None
  then show ?thesis using assms by (simp add: history_next_def)
next
  case (Some i)
  show ?thesis
  proof (cases "i + 1 < length (app_command_history st)")
    case True
    then show ?thesis using tui_ok_entry [OF assms True] Some by (simp add: history_next_def)
  next
    case False
    then show ?thesis using assms Some
      by (simp add: history_next_def tui_ok_def edit_ok_def buffers_ok_def)
  qed
qed

section \<open>Every step keeps the invariant\<close>

text \<open>What the outcome of a step must satisfy.\<close>

definition good :: "('c, 'q, 's) world outcome \<Rightarrow> bool" where
  "good out = (case out of Next _ w \<Rightarrow> tui_ok (w_app w) | Panics \<Rightarrow> False | Waits \<Rightarrow> True)"

lemma good_simps [simp]: "good (Next q w) \<longleftrightarrow> tui_ok (w_app w)" "good Waits" "\<not> good Panics"
  by (simp_all add: good_def)

lemma on_app_fields [simp]:
  "w_app (on_app f w) = f (w_app w)" "w_app (print_all ps w) = w_app w"
  by (simp_all add: on_app_def print_all_def)

lemma good_edit: "\<exists>st'. f (w_app w) = Some st' \<and> tui_ok st' \<Longrightarrow> good (edit f w)"
  by (auto simp: edit_def)

lemma notices_ok [tui_intros]:
  "tui_ok (w_app w) \<Longrightarrow> tui_ok (w_app (warn_user now tui msg w))"
  "tui_ok (w_app w) \<Longrightarrow> tui_ok (w_app (sent_notice now tui dest msg w))"
  by (simp_all add: warn_user_def sent_notice_def tui_intros)

lemma command_ok:
  assumes "execute_command env tso tss now tui line w = Some (r, w')" and "tui_ok (w_app w)"
  shows "tui_ok (w_app w')"
proof -
  have "tui_ok (w_app w')" if "command_send env tso now tui parts w = Some (r, w')" for parts
    using that assms(2)
    by (auto simp: command_send_def Let_def intro!: tui_intros split: if_splits option.splits sum.splits)
  moreover have "tui_ok (w_app w')" if "command_sub tss now tui parts w = Some (r, w')" for parts
    using that assms(2)
    by (auto simp: command_sub_def Let_def intro!: tui_intros split: if_splits prod.splits try_send_result.splits)
  moreover have "tui_ok (w_app w')" if "command_report env tui name Name report parts w = Some (r, w')"
    for name Name report parts
    using that assms(2) by (auto simp: command_report_def Let_def split: if_splits file_result.splits)
  ultimately show ?thesis
    using assms unfolding execute_command_eq Let_def
    by (auto intro!: tui_intros split: if_splits)
qed

lemma good_enter:
  assumes "tui_ok (w_app w)"
  shows "good (enter_line env tso tss now w)"
proof -
  define v where "v = on_app (clear_input \<circ> add_to_history (app_input (w_app w))) w"
  have v: "tui_ok (w_app v)"
    using tui_ok_cursor(3) [OF tui_ok_history [OF assms]] assms by (simp add: v_def tui_ok_def edit_ok_def)
  have "enter_line env tso tss now w =
     (if app_input (w_app w) = [] then Next False v
      else (case execute_command env tso tss now True (app_input (w_app w)) v of
              None \<Rightarrow> Waits
            | Some (Ok, w) \<Rightarrow> Next False w
            | Some (Quit, w) \<Rightarrow> Next True w
            | Some (Info msg, w) \<Rightarrow> Next False (on_app (record_message now ''INFO'' msg []) w)
            | Some (Error msg, w) \<Rightarrow> Next False (on_app (record_message now ''ERROR'' msg []) w)))"
    by (simp add: enter_line_def v_def Let_def)
  then show ?thesis
    using v command_ok [OF _ v, of env tso tss now True]
    by (auto intro!: tui_intros split: option.splits command_result.splits)
qed

definition ascii_key :: "key_event \<Rightarrow> bool" where
  "ascii_key k = (case key_code k of KChar c \<Rightarrow> is_ascii c \<and> length c = 1 | _ \<Rightarrow> True)"

lemma good_key:
  assumes "tui_ok (w_app w)" and "ascii_key k"
  shows "good (on_key env tso tss now k w)"
  using assms
  by (auto simp: on_key_def Let_def ascii_key_def intro!: good_edit good_enter tui_intros tui_ok_insert
      tui_ok_backspace tui_ok_delete tui_ok_prev tui_ok_next split: key_code.splits)

lemma subscribe_destination_ok:
  "subscribe_destination env mk tso tui dest w = Some (r, w') \<Longrightarrow> tui_ok (w_app w) \<Longrightarrow> tui_ok (w_app w')"
  by (auto simp: subscribe_destination_def Let_def intro!: tui_intros split: option.splits sum.splits if_splits)

lemma subscribe_all_ok:
  "subscribe_all env mk tso tui ds w = Some (r, w') \<Longrightarrow> tui_ok (w_app w) \<Longrightarrow> tui_ok (w_app w')"
proof (induction ds arbitrary: w)
  case (Cons d ds)
  then show ?case
    using subscribe_destination_ok [of env mk tso tui d w]
    by (auto split: option.splits sum.splits)
qed simp

primrec ascii_event :: "('c, 'q, 's) tui_event \<Rightarrow> bool" where
  "ascii_event (Key k) = ascii_key k"
| "ascii_event (Beat t) = True"
| "ascii_event (SubAsked d) = True"
| "ascii_event (BrokerSent rf) = True"
| "ascii_event (Delivered d f) = True"
| "ascii_event (Background s tx) = True"

lemma good_step:
  assumes "tui_ok (w_app w)" and "ascii_event ev"
  shows "good (tui_step env mk tso tss now ev w)"
proof (cases ev)
  case (Key k)
  then show ?thesis using good_key [OF assms(1)] assms(2) by (simp add: tui_step_def)
next
  case (SubAsked d)
  then show ?thesis
    using subscribe_destination_ok [of env mk tso True d w] assms(1)
    by (auto simp: tui_step_def tui_sub_request_def intro!: tui_intros split: option.splits sum.splits)
qed (use assms(1) in \<open>auto simp: tui_step_def tui_message_def tui_broker_frame_def intro!: tui_intros
       split: received_frame.splits\<close>)

lemma good_run:
  assumes "tui_ok (w_app w)" and "list_all (\<lambda>(_, ev). ascii_event ev) evs"
  shows "good (tui_run env mk tso tss evs w)"
  using assms
proof (induction evs arbitrary: w)
  case (Cons e evs)
  obtain now ev where e: "e = (now, ev)" by (cases e)
  have step: "good (tui_step env mk tso tss now ev w)"
    using good_step Cons.prems e by (auto simp: list_all_iff)
  show ?case
  proof (cases "tui_step env mk tso tss now ev w")
    case (Next q w')
    then show ?thesis using step Cons e by (cases q) auto
  qed (use step e in auto)
qed simp

text \<open>
  C29. The terminal interface does not crash on ASCII input. From its start, whatever keys are
  pressed (characters being ASCII) and whatever the broker, the subscription tasks and the
  heart-beat monitor do in between, in any order, no string edit or history access panics; the
  cursor stays within the line, the history position within the history, and the two display
  buffers and their scroll positions within their bounds.
\<close>

theorem tui_never_panics_on_ascii:
  assumes "tui_start env dur_text mk tso cli hb_tx attempts ms now q cs tx = Some (Inr w)"
    and "list_all (\<lambda>(_, ev). ascii_event ev) evs"
  shows "tui_run env mk tso tss evs w \<noteq> Panics \<and>
    (\<forall>quit w'. tui_run env mk tso tss evs w = Next quit w' \<longrightarrow>
       app_cursor_pos (w_app w') \<le> length (app_input (w_app w')) \<and>
       index_ok (app_history_index (w_app w')) (length (app_command_history (w_app w'))) \<and>
       length (app_messages (w_app w')) \<le> 1000 \<and> length (app_errors (w_app w')) \<le> 100 \<and>
       app_scroll_offset (w_app w') < 1000 \<and> app_error_scroll_offset (w_app w') < 100)"
proof -
  have "tui_ok (w_app w)"
    using assms(1) subscribe_all_ok [of env mk tso True "arg_subscribe cli"] tui_ok_new
    by (fastforce simp: tui_start_def Let_def world_new_def split: option.splits sum.splits)
  from good_run [OF this assms(2), of env mk tso tss] show ?thesis
    by (auto simp: tui_ok_def edit_ok_def buffers_ok_def)
qed

abbreviation typed :: "key_code \<Rightarrow> (int \<times> ('c, 'q, 's) tui_event)" where
  "typed k \<equiv> (0, Key \<lparr>key_code = k, key_ctrl = False, key_other = False\<rparr>)"

lemma demo_interactive_connect:
  "\<exists>s. interactive_connect demo_env (\<lambda>_. ''5s'') demo_cli 0 [up] 0 (bc_new 32 :: outbound bounded_chan)
     (\<lambda>_. bc_new 32 :: frame bounded_chan) = Some (Inr s)"
proof -
  have "credentials_of ''u'' ''p'' ''10000,0'' (connect_config_of
      (opt_connect_timeout (from_secs 5) (opt_heartbeat_notify 0 connect_options_new))) = demo_credentials"
    by (simp add: demo_credentials_def credentials_of_def connect_config_of_def opt_connect_timeout_def
        opt_heartbeat_notify_def connect_options_new_def)
  moreover have "cfg_connect_timeout (connect_config_of
      (opt_connect_timeout (from_secs 5) (opt_heartbeat_notify 0 connect_options_new))) = Some (from_secs 5)"
    by (simp add: connect_config_of_def opt_connect_timeout_def)
  moreover have "\<not> over (Some (from_secs 5)) (at_took up)"
    by (simp add: over_def up_def from_secs_def from_millis_def)
  ultimately show ?thesis
    by (simp add: interactive_connect_def connect_with_options_def demo_cli_def demo_outcomes Let_def)
qed

theorem tui_never_panics_on_ascii_witness:
  "\<exists>w. tui_start demo_env (\<lambda>_. ''5s'') bc_new bc_try_send demo_cli 0 [up] 0 0
       (bc_new 32 :: outbound bounded_chan) (\<lambda>_. bc_new 32 :: frame bounded_chan)
       (bc_new 16 :: string bounded_chan) = Some (Inr w) \<and>
     tui_run demo_env bc_new bc_try_send bc_try_send
       [typed (KChar ''q''), typed KLeft, typed KDelete, typed KUp, typed KBackspace, typed KEnter] w \<noteq> Panics"
proof -
  obtain s where "interactive_connect demo_env (\<lambda>_. ''5s'') demo_cli 0 [up] 0
      (bc_new 32 :: outbound bounded_chan) (\<lambda>_. bc_new 32 :: frame bounded_chan) = Some (Inr s)"
    using demo_interactive_connect by blast
  then obtain w where start: "tui_start demo_env (\<lambda>_. ''5s'') bc_new bc_try_send demo_cli 0 [up] 0 0
      (bc_new 32 :: outbound bounded_chan) (\<lambda>_. bc_new 32 :: frame bounded_chan)
      (bc_new 16 :: string bounded_chan) = Some (Inr w)"
    by (simp add: tui_start_def demo_cli_def Let_def)
  have "list_all (\<lambda>(_, ev). ascii_event ev)
      [typed (KChar ''q'') :: int \<times> (frame bounded_chan, outbound bounded_chan, string bounded_chan) tui_event,
       typed KLeft, typed KDelete, typed KUp, typed KBackspace, typed KEnter]"
    by (simp add: ascii_key_def is_ascii_def)
  from tui_never_panics_on_ascii [OF start this] start show ?thesis by blast
qed

section \<open>Beyond ASCII\<close>

lemma utf8_second_cont:
  assumes "utf8_width c = Some (length c)" and "1 < length c"
  shows "cont_byte (c ! 1)"
proof -
  obtain a t where c: "c = a # t" and t: "utf8_seq a t" "t \<noteq> []"
    using utf8_width_SomeD [OF assms(1)] assms(2) by fastforce
  have "cont_byte (hd t)"
    using t by (induction a t rule: utf8_seq.induct)
      (auto simp: second_of_3_def second_of_4_def cont_byte_def split: if_splits)
  then show ?thesis using c t(2) by (cases t) auto
qed

text \<open>
  C30. The terminal interface panics on text beyond ASCII. After any multibyte character is typed at
  the end of the line, the cursor is inside it, and the next character typed, or the Delete key,
  crashes the program.
\<close>

theorem tui_multibyte_panics:
  assumes "utf8_width c = Some (length c)" and "1 < length c"
    and "app_cursor_pos (w_app w) = length (app_input (w_app w))"
  shows "\<exists>w'. on_key env tso tss now \<lparr>key_code = KChar c, key_ctrl = False, key_other = False\<rparr> w =
      Next False w' \<and>
    on_key env tso tss now \<lparr>key_code = KChar d, key_ctrl = False, key_other = False\<rparr> w' = Panics \<and>
    on_key env tso tss now \<lparr>key_code = KDelete, key_ctrl = False, key_other = False\<rparr> w' = Panics"
proof -
  let ?s = "app_input (w_app w) @ c" and ?i = "length (app_input (w_app w)) + 1"
  let ?st = "(w_app w)\<lparr>app_input := ?s, app_cursor_pos := ?i\<rparr>"
  have typed: "insert_char c (w_app w) = Some ?st"
    using assms(3) by (simp add: insert_char_def str_insert_def is_char_boundary_def)
  have "?s ! ?i = c ! 1" by (simp add: nth_append)
  then have off: "\<not> is_char_boundary ?s ?i"
    using utf8_second_cont [OF assms(1,2)] assms(2) by (auto simp: is_char_boundary_def)
  have "insert_char d ?st = None" "delete_char ?st = None"
    using off assms(2) by (auto simp: insert_char_def delete_char_def str_insert_def str_remove_def)
  then show ?thesis using typed by (simp add: on_key_def edit_def)
qed

theorem tui_multibyte_panics_witness:
  "\<exists>w'. on_key demo_env bc_try_send bc_try_send 0
        \<lparr>key_code = KChar (encode_char 0xE9), key_ctrl = False, key_other = False\<rparr> demo_world = Next False w' \<and>
     on_key demo_env bc_try_send bc_try_send 0
        \<lparr>key_code = KChar ''t'', key_ctrl = False, key_other = False\<rparr> w' = Panics"
proof -
  have "utf8_width (encode_char 0xE9) = Some (length (encode_char 0xE9))" "1 < length (encode_char 0xE9)"
    by code_simp+
  moreover have "app_cursor_pos (w_app demo_world) = length (app_input (w_app demo_world))"
    by (simp add: demo_world_def world_new_def app_new_def)
  ultimately show ?thesis using tui_multibyte_panics by blast
qed

section \<open>The panels stay within their height\<close>

lemma push_lines_height: "length shown \<le> height \<Longrightarrow> length (push_lines height ls shown) \<le> height"
  by (induction height ls shown rule: push_lines.induct) auto

lemma push_header_chunks_height:
  "length shown \<le> height \<Longrightarrow> length (push_header_chunks height width hs shown) \<le> height"
  by (induction height width hs shown rule: push_header_chunks.induct) (auto simp: push_lines_height)

lemma show_messages_height:
  "length shown \<le> height \<Longrightarrow> length (show_messages clock hdrs height ms shown) \<le> height"
  by (induction clock hdrs height ms shown rule: show_messages.induct) (auto simp: Let_def push_lines_height)

lemma show_errors_height:
  "length shown \<le> height \<Longrightarrow> length (show_errors clock hdrs height width es shown) \<le> height"
proof (induction es arbitrary: shown)
  case (Cons e es)
  define page where "page =
    (let page = push_lines height (error_rest clock width e) (shown @ [error_first clock width e])
     in if hdrs then push_header_chunks height width (dm_headers e) page else page)"
  show ?case
  proof (cases "height \<le> length shown")
    case False
    then have page: "length page \<le> height"
      by (simp add: page_def Let_def push_lines_height push_header_chunks_height)
    have eq: "show_errors clock hdrs height width (e # es) shown =
      show_errors clock hdrs height width es (if length page < height then page @ [[]] else page)"
      using False by (simp add: page_def Let_def)
    show ?thesis unfolding eq by (rule Cons.IH) (use page in simp)
  qed (use Cons.prems in simp)
qed simp

lemma show_messages_bare:
  "show_messages clock False height ms shown =
     shown @ map (message_line clock) (take (height - length shown) ms)"
  by (induction ms arbitrary: shown) (auto simp: take_Cons' Let_def)

lemma drop_first_shown: "drop (first_shown 0 (length xs) height) xs = last_n height xs"
  by (auto simp: first_shown_def last_n_def)

text \<open>Three messages with a header each, in a panel of two lines.\<close>

definition crowded :: app_state where
  "crowded = (app_new 0 ''h'' ''u'' 10000)\<lparr>app_show_headers := True,
     app_messages := map (\<lambda>d. \<lparr>dm_timestamp = 0, dm_destination = d, dm_body = [], dm_headers = [(''k'', ''v'')]\<rparr>)
       [''/a'', ''/b'', ''/c'']\<rparr>"

lemma crowded_hides_newest:
  "message_line (\<lambda>_. []) (last (app_messages crowded)) \<notin> set (render_messages (\<lambda>_. []) 2 crowded)"
  by (simp add: crowded_def render_messages_def first_shown_def app_new_def message_line_def message_headers_def
      dest_display_def truncate_str_def char_count_ascii is_ascii_def Let_def)

text \<open>
  The message and the error panel never write more lines than they have, whatever the messages,
  the headers and the scroll positions. With headers hidden, a message panel the user has not
  scrolled shows exactly the newest messages that fit, oldest first. With headers shown that
  fails: the newest message can be missing from the panel.
\<close>

theorem panels_fit:
  "length (render_messages clock height st) \<le> height \<and>
   length (render_errors clock height width st) \<le> height \<and>
   render_messages clock height (st\<lparr>app_show_headers := False, app_scroll_offset := 0\<rparr>) =
     map (message_line clock) (last_n height (app_messages st)) \<and>
   (\<exists>st. app_show_headers st \<and> app_scroll_offset st = 0 \<and> app_messages st \<noteq> [] \<and>
      message_line (\<lambda>_. []) (last (app_messages st)) \<notin> set (render_messages (\<lambda>_. []) 2 st))"
proof -
  have "app_show_headers crowded \<and> app_scroll_offset crowded = 0 \<and> app_messages crowded \<noteq> []"
    by (simp add: crowded_def app_new_def)
  then show ?thesis
    using crowded_hides_newest
    by (auto simp: render_messages_def render_errors_def show_messages_height show_errors_height
        show_messages_bare drop_first_shown)
qed

end
