(* ===== verification/Stomp_Client.thy ===== *)
theory Stomp_Client
  imports Stomp_Tui
begin

text \<open>
  The command line client as a whole (\<^verbatim>\<open>src/bin/stomp.rs\<close>, \<^verbatim>\<open>plain::run\<close>, \<^verbatim>\<open>tui::run\<close>): the choice of
  the mode, a session of plain mode from its first prompt to its end, and a session of the terminal
  interface with what it does to the terminal: raw mode, the alternate screen, the panic hook.
\<close>

section \<open>The choice of the mode\<close>

datatype mode = SendMode string string | TuiMode | PlainMode

definition main_mode :: "cli_args \<Rightarrow> mode" where
  "main_mode cli =
     (case arg_send cli of
        Some (dest, msg) \<Rightarrow> SendMode dest msg
      | None \<Rightarrow> if arg_tui cli then TuiMode else PlainMode)"

section \<open>Plain mode\<close>

text \<open>
  What can happen, in any order: a line of input (\<^const>\<open>None\<close> at its end), and what the tasks
  behind the prompt do.
\<close>

datatype ('c, 'q, 's) plain_event =
    Line "string option"
  | PlainBeat instant
  | PlainSub string
  | PlainBroker received_frame
  | PlainMessage string frame
  | PlainBackground "('c, 'q) conn" 's

definition plain_step ::
  "cli_env \<Rightarrow> (nat \<Rightarrow> 'c) \<Rightarrow> ('q, outbound) try_send \<Rightarrow> ('s, string) try_send \<Rightarrow> bool \<Rightarrow> ('c, 'q) answer \<Rightarrow>
   int \<Rightarrow> ('c, 'q, 's) plain_event \<Rightarrow> ('c, 'q, 's) world \<Rightarrow> (turn \<times> ('c, 'q, 's) world) option" where
  "plain_step env mk tso tss summary close_answer now ev w =
     (case ev of
        Line line \<Rightarrow> plain_line env tso tss summary close_answer now line w
      | PlainBeat t \<Rightarrow> Some (Again, on_app (record_heartbeat t) w)
      | PlainSub dest \<Rightarrow> map_option (Pair Again) (plain_sub_request env mk tso dest w)
      | PlainBroker rf \<Rightarrow> Some (Again, plain_broker_frame now rf w)
      | PlainMessage dest f \<Rightarrow> Some (Again, plain_message now dest f w)
      | PlainBackground s tx \<Rightarrow> Some (Again, w\<lparr>w_conn := s, w_sub_tx := tx\<rparr>))"

fun plain_run ::
  "cli_env \<Rightarrow> (nat \<Rightarrow> 'c) \<Rightarrow> ('q, outbound) try_send \<Rightarrow> ('s, string) try_send \<Rightarrow> bool \<Rightarrow> ('c, 'q) answer \<Rightarrow>
   (int \<times> ('c, 'q, 's) plain_event) list \<Rightarrow> ('c, 'q, 's) world \<Rightarrow> (turn \<times> ('c, 'q, 's) world) option" where
  "plain_run env mk tso tss summary close_answer [] w = Some (Again, w)"
| "plain_run env mk tso tss summary close_answer ((now, ev) # evs) w =
     (case plain_step env mk tso tss summary close_answer now ev w of
        Some (Again, w) \<Rightarrow> plain_run env mk tso tss summary close_answer evs w
      | stop \<Rightarrow> stop)"

section \<open>The terminal\<close>

record screen =
  scr_raw :: bool
  scr_alternate :: bool
  scr_cursor :: bool

definition cooked :: screen where
  "cooked = \<lparr>scr_raw = False, scr_alternate = False, scr_cursor = True\<rparr>"

text \<open>The calls into crossterm and ratatui; \<open>fails\<close> gives the error text of those that fail.\<close>

datatype term_call = EnableRaw | EnterAlternate | NewTerminal | DisableRaw | LeaveAlternate | ShowCursor

definition disable_raw :: "(term_call \<Rightarrow> string option) \<Rightarrow> screen \<Rightarrow> screen" where
  "disable_raw fails sc = (if fails DisableRaw = None then sc\<lparr>scr_raw := False\<rparr> else sc)"

text \<open>The panic hook: raw mode off, then the normal screen and the cursor in one write.\<close>

definition panic_hook :: "(term_call \<Rightarrow> string option) \<Rightarrow> screen \<Rightarrow> screen" where
  "panic_hook fails sc =
     (let sc = disable_raw fails sc
      in if fails LeaveAlternate = None then sc\<lparr>scr_alternate := False, scr_cursor := True\<rparr> else sc)"

definition screen_setup ::
  "(term_call \<Rightarrow> string option) \<Rightarrow> screen \<Rightarrow> screen \<times> (string \<times> nat, unit) result" where
  "screen_setup fails sc =
     (case fails EnableRaw of
        Some e \<Rightarrow> (sc, Inl (''Failed to enable raw mode: '' @ e, 1))
      | None \<Rightarrow>
          let sc = sc\<lparr>scr_raw := True\<rparr>
          in (case fails EnterAlternate of
                Some e \<Rightarrow> (sc, Inl (''Failed to setup terminal: '' @ e, 1))
              | None \<Rightarrow>
                  let sc = sc\<lparr>scr_alternate := True\<rparr>
                  in (case fails NewTerminal of
                        Some e \<Rightarrow> (sc, Inl (''Failed to create terminal: '' @ e, 1))
                      | None \<Rightarrow> (sc, Inr ()))))"

definition screen_restore :: "(term_call \<Rightarrow> string option) \<Rightarrow> screen \<Rightarrow> screen" where
  "screen_restore fails sc =
     (let sc = disable_raw fails sc;
          sc = (if fails LeaveAlternate = None then sc\<lparr>scr_alternate := False\<rparr> else sc)
      in if fails ShowCursor = None then sc\<lparr>scr_cursor := True\<rparr> else sc)"

section \<open>A session of the terminal interface\<close>

text \<open>
  One turn of \<^verbatim>\<open>run_app\<close>: how drawing ends (and whether it leaves the cursor shown), what the poll
  says, what is read (\<^const>\<open>None\<close> is an event that is no key). Between turns the tasks behind the
  screen run (never with a key; one that has to wait shows nothing yet, and what it did to the
  connection is a \<open>Background\<close> event), and any of them may panic, which runs the hook.
\<close>

datatype ('c, 'q, 's) screen_event =
    Turn "(string, bool) result" "(string, bool) result" "(string, key_event option) result"
  | Behind "('c, 'q, 's) tui_event"
  | TaskPanic

datatype ('c, 'q, 's) session =
    Going "('c, 'q, 's) world" screen
  | Left "(string \<times> nat, unit) result" "('c, 'q, 's) world" screen
  | Crashed screen
  | Blocked screen

definition app_turn ::
  "cli_env \<Rightarrow> ('q, outbound) try_send \<Rightarrow> ('s, string) try_send \<Rightarrow> (term_call \<Rightarrow> string option) \<Rightarrow> int \<Rightarrow>
   (string, bool) result \<Rightarrow> (string, bool) result \<Rightarrow> (string, key_event option) result \<Rightarrow>
   ('c, 'q, 's) world \<Rightarrow> screen \<Rightarrow> ('c, 'q, 's) session" where
  "app_turn env tso tss fails now drawn polled key w sc =
     (case drawn of
        Inl e \<Rightarrow> Left (Inl (''Draw error: '' @ e, 1)) w sc
      | Inr shown \<Rightarrow>
          let sc = sc\<lparr>scr_cursor := shown\<rparr>
          in (case polled of
                Inl e \<Rightarrow> Left (Inl (''Event poll error: '' @ e, 1)) w sc
              | Inr False \<Rightarrow> Going w sc
              | Inr True \<Rightarrow>
                  (case key of
                     Inl e \<Rightarrow> Left (Inl (''Event read error: '' @ e, 1)) w sc
                   | Inr None \<Rightarrow> Going w sc
                   | Inr (Some k) \<Rightarrow>
                       (case on_key env tso tss now k w of
                          Next False w \<Rightarrow> Going w sc
                        | Next True w \<Rightarrow> Left (Inr ()) w sc
                        | Panics \<Rightarrow> Crashed (panic_hook fails sc)
                        | Waits \<Rightarrow> Blocked sc))))"

definition screen_step ::
  "cli_env \<Rightarrow> (nat \<Rightarrow> 'c) \<Rightarrow> ('q, outbound) try_send \<Rightarrow> ('s, string) try_send \<Rightarrow>
   (term_call \<Rightarrow> string option) \<Rightarrow> int \<Rightarrow> ('c, 'q, 's) screen_event \<Rightarrow> ('c, 'q, 's) world \<Rightarrow> screen \<Rightarrow>
   ('c, 'q, 's) session" where
  "screen_step env mk tso tss fails now ev w sc =
     (case ev of
        Turn drawn polled key \<Rightarrow> app_turn env tso tss fails now drawn polled key w sc
      | Behind e \<Rightarrow>
          (case e of
             Key _ \<Rightarrow> Going w sc
           | _ \<Rightarrow>
               (case tui_step env mk tso tss now e w of
                  Next quit w \<Rightarrow> Going w sc
                | Panics \<Rightarrow> Going w (panic_hook fails sc)
                | Waits \<Rightarrow> Going w sc))
      | TaskPanic \<Rightarrow> Going w (panic_hook fails sc))"

fun run_app ::
  "cli_env \<Rightarrow> (nat \<Rightarrow> 'c) \<Rightarrow> ('q, outbound) try_send \<Rightarrow> ('s, string) try_send \<Rightarrow>
   (term_call \<Rightarrow> string option) \<Rightarrow> (int \<times> ('c, 'q, 's) screen_event) list \<Rightarrow> ('c, 'q, 's) world \<Rightarrow>
   screen \<Rightarrow> ('c, 'q, 's) session" where
  "run_app env mk tso tss fails [] w sc = Going w sc"
| "run_app env mk tso tss fails ((now, ev) # evs) w sc =
     (case screen_step env mk tso tss fails now ev w sc of
        Going w sc \<Rightarrow> run_app env mk tso tss fails evs w sc
      | stop \<Rightarrow> stop)"

text \<open>\<^verbatim>\<open>tui::run\<close> from a connected client on: set up, run, restore, and only then report and close.\<close>

definition tui_session ::
  "cli_env \<Rightarrow> (nat \<Rightarrow> 'c) \<Rightarrow> ('q, outbound) try_send \<Rightarrow> ('s, string) try_send \<Rightarrow> cli_args \<Rightarrow> ('c, 'q) answer \<Rightarrow>
   (term_call \<Rightarrow> string option) \<Rightarrow> int \<Rightarrow> (int \<times> ('c, 'q, 's) screen_event) list \<Rightarrow> ('c, 'q, 's) world \<Rightarrow>
   screen \<Rightarrow> ('c, 'q, 's) session" where
  "tui_session env mk tso tss cli close_answer fails now evs w sc =
     (case screen_setup fails sc of
        (sc, Inl e) \<Rightarrow> Left (Inl e) w sc
      | (sc, Inr _) \<Rightarrow>
          (case run_app env mk tso tss fails evs w sc of
             Left r w sc \<Rightarrow>
               (case tui_finish env tso cli close_answer now w of
                  None \<Rightarrow> Blocked (screen_restore fails sc)
                | Some w \<Rightarrow> Left r w (screen_restore fails sc))
           | stop \<Rightarrow> stop))"

section \<open>Properties\<close>

definition quits :: "string \<Rightarrow> bool" where
  "quits line \<longleftrightarrow> words_of line \<noteq> [] \<and> words_of line ! 0 \<in> {''quit'', ''exit'', ''q''}"

lemma no_quit:
  "command_send env tso now tui parts w = Some (r, w') \<Longrightarrow> r \<noteq> Quit"
  "command_sub tss now tui parts w = Some (r, w') \<Longrightarrow> r \<noteq> Quit"
  "command_report env tui nm Nm rep parts w = Some (r, w') \<Longrightarrow> r \<noteq> Quit"
  by (auto simp: command_send_def command_sub_def command_report_def Let_def
      split: if_splits option.splits sum.splits prod.splits try_send_result.splits file_result.splits)

lemma command_quits:
  assumes "execute_command env tso tss now tui line w = Some (r, w')"
  shows "r = Quit \<longleftrightarrow> quits line" "r = Quit \<Longrightarrow> w' = w"
  using assms no_quit
  by (auto simp: execute_command_eq quits_def words_of_def Let_def split: if_splits dest: no_quit)

definition leaves_at :: "string option \<Rightarrow> bool" where
  "leaves_at line = (case line of None \<Rightarrow> True | Some l \<Rightarrow> quits l)"

definition goes_on :: "('c, 'q, 's) plain_event \<Rightarrow> bool" where
  "goes_on ev = (case ev of Line line \<Rightarrow> \<not> leaves_at line | _ \<Rightarrow> True)"

lemma plain_step_flow:
  assumes "plain_step env mk tso tss summary close_answer now ev w = Some (go, w')"
  shows "go = Again \<longleftrightarrow> goes_on ev"
proof (cases ev)
  case (Line line)
  show ?thesis
  proof (cases line)
    case None
    then show ?thesis using assms Line by (auto simp: plain_step_def plain_line_def goes_on_def leaves_at_def)
  next
    case (Some l)
    obtain r w1 where cmd: "execute_command env tso tss now False l (print_all [Prompt] w) = Some (r, w1)"
      using assms Line Some by (auto simp: plain_step_def plain_line_def Let_def split: option.splits)
    then show ?thesis
      using assms Line Some command_quits(1) [OF cmd]
      by (cases r) (auto simp: plain_step_def plain_line_def goes_on_def leaves_at_def Let_def split: option.splits)
  qed
qed (use assms in \<open>auto simp: plain_step_def goes_on_def\<close>)

text \<open>
  C32. How plain mode ends. Whatever the input and whatever its tasks do in between, the command loop
  is left at the first line that is \<^verbatim>\<open>quit\<close>, \<^verbatim>\<open>exit\<close> or \<^verbatim>\<open>q\<close>, or at the end of the input, and at
  nothing else. A quit word sends DISCONNECT and waits for its receipt; the end of the input does
  not touch the connection, and prints no summary, whatever \<^verbatim>\<open>--summary\<close> says.
\<close>

theorem plain_mode_ends:
  assumes "plain_run env mk tso tss summary close_answer evs w = Some (Leave, w')"
  shows "\<exists>before now line after w1.
    evs = before @ (now, Line line) # after \<and> list_all (\<lambda>(_, ev). goes_on ev) before \<and> leaves_at line \<and>
    plain_run env mk tso tss summary close_answer before w = Some (Again, w1) \<and>
    (case line of
       None \<Rightarrow> w' = print_all [Prompt] w1
     | Some l \<Rightarrow> \<exists>closed d. close_conn tso (fst close_answer) (snd close_answer) (w_conn w1) =
         Some (closed, w_conn w', d))"
  using assms
proof (induction evs arbitrary: w)
  case (Cons e evs)
  obtain now ev where e: "e = (now, ev)" by (cases e)
  obtain go w2 where step: "plain_step env mk tso tss summary close_answer now ev w = Some (go, w2)"
    using Cons.prems by (auto simp: e split: option.splits)
  show ?case
  proof (cases go)
    case Again
    then have "plain_run env mk tso tss summary close_answer evs w2 = Some (Leave, w')"
      using Cons.prems step by (simp add: e)
    from Cons.IH [OF this] obtain before now' line after w1 where
      rest: "evs = before @ (now', Line line) # after" "list_all (\<lambda>(_, ev). goes_on ev) before" "leaves_at line"
        "plain_run env mk tso tss summary close_answer before w2 = Some (Again, w1)"
        "case line of None \<Rightarrow> w' = print_all [Prompt] w1
         | Some l \<Rightarrow> \<exists>closed d. close_conn tso (fst close_answer) (snd close_answer) (w_conn w1) =
             Some (closed, w_conn w', d)"
      by blast
    show ?thesis
      by (rule exI [of _ "e # before"], rule exI [of _ now'], rule exI [of _ line], rule exI [of _ after],
          rule exI [of _ w1])
        (use rest step Again plain_step_flow [OF step] in \<open>simp add: e\<close>)
  next
    case Leave
    then have w': "w' = w2" using Cons.prems step by (simp add: e)
    have "\<not> goes_on ev" using plain_step_flow [OF step] Leave by simp
    then obtain line where line: "ev = Line line" "leaves_at line"
      by (auto simp: goes_on_def split: plain_event.splits)
    have "case line of None \<Rightarrow> w' = print_all [Prompt] w
       | Some l \<Rightarrow> \<exists>closed d. close_conn tso (fst close_answer) (snd close_answer) (w_conn w) =
           Some (closed, w_conn w', d)"
    proof (cases line)
      case None
      then show ?thesis using step line w' by (simp add: plain_step_def plain_line_def)
    next
      case (Some l)
      obtain r w3 where cmd: "execute_command env tso tss now False l (print_all [Prompt] w) = Some (r, w3)"
        using step line Some by (auto simp: plain_step_def plain_line_def Let_def split: option.splits)
      have "r = Quit" "w3 = print_all [Prompt] w"
        using command_quits [OF cmd] line(2) Some by (simp_all add: leaves_at_def)
      then show ?thesis
        using step line Some cmd w'
        by (auto simp: plain_step_def plain_line_def print_all_def Let_def split: option.splits if_splits)
    qed
    then show ?thesis
      using line by (intro exI [of _ "[]"] exI [of _ now] exI [of _ line] exI [of _ evs] exI [of _ w]) (simp add: e)
  qed
qed simp

theorem plain_mode_ends_witness:
  "plain_run demo_env bc_new bc_try_send bc_try_send True (\<lambda>s. s, \<lambda>_. RxElapsed)
      [(0, PlainBeat 0), (0, Line (Some [])), (0, Line None)] demo_world =
    Some (Leave, print_all [Prompt] (print_all [Prompt] (on_app (record_heartbeat 0) demo_world))) \<and>
   list_all (\<lambda>(_, ev). goes_on ev)
     [(0 :: int, PlainBeat 0 :: (frame bounded_chan, outbound bounded_chan, string bounded_chan) plain_event),
      (0, Line (Some []))]"
proof -
  have empty: "execute_command demo_env bc_try_send bc_try_send 0 False [] w = Some (Ok, w)"
    for w :: "(frame bounded_chan, outbound bounded_chan, string bounded_chan) world"
  proof -
    have "splitn 3 (CHR '' '') (trim []) = [] \<or> splitn 3 (CHR '' '') (trim []) ! 0 = []" by code_simp
    then show ?thesis by (simp add: execute_command_eq Let_def)
  qed
  have run: "plain_run demo_env bc_new bc_try_send bc_try_send True (\<lambda>s. s, \<lambda>_. RxElapsed)
      [(0, PlainBeat 0), (0, Line (Some [])), (0, Line None)] demo_world =
    Some (Leave, print_all [Prompt] (print_all [Prompt] (on_app (record_heartbeat 0) demo_world)))"
    by (simp add: plain_step_def plain_line_def empty Let_def)
  from plain_mode_ends [OF this] have
    "\<exists>before now line after. [(0, PlainBeat 0), (0, Line (Some [])), (0, Line None)] =
       before @ (now :: int, Line line :: (frame bounded_chan, outbound bounded_chan, string bounded_chan) plain_event) # after \<and>
       list_all (\<lambda>(_, ev). goes_on ev) before \<and> leaves_at line"
    by blast
  then have "\<not> quits [] \<Longrightarrow> list_all (\<lambda>(_, ev). goes_on ev)
     [(0 :: int, PlainBeat 0 :: (frame bounded_chan, outbound bounded_chan, string bounded_chan) plain_event),
      (0, Line (Some []))]"
    by (simp add: goes_on_def leaves_at_def)
  moreover have "\<not> quits []" by code_simp
  ultimately show ?thesis using run by blast
qed

text \<open>How a session ends, by what the terminal shows.\<close>

lemma run_app_crashed:
  "run_app env mk tso tss fails evs w sc = Crashed sc' \<Longrightarrow> \<exists>sc0. sc' = panic_hook fails sc0"
proof (induction evs arbitrary: w sc)
  case (Cons e evs)
  obtain now ev where e: "e = (now, ev)" by (cases e)
  have turn: "app_turn env tso tss fails now d p k w sc =
      Crashed sc'' \<Longrightarrow> \<exists>sc0. sc'' = panic_hook fails sc0"
    for d p k sc''
    by (auto simp: app_turn_def Let_def split: sum.splits bool.splits option.splits outcome.splits)
  show ?case
    using Cons turn
    by (cases "screen_step env mk tso tss fails now ev w sc")
      (auto simp: e screen_step_def split: screen_event.splits tui_event.splits outcome.splits)
qed simp

lemma run_app_append:
  "run_app env mk tso tss fails (evs @ evs') w sc =
     (case run_app env mk tso tss fails evs w sc of
        Going w sc \<Rightarrow> run_app env mk tso tss fails evs' w sc
      | stop \<Rightarrow> stop)"
proof (induction evs arbitrary: w sc)
  case (Cons e evs)
  obtain now ev where e: "e = (now, ev)" by (cases e)
  show ?case
    by (cases "screen_step env mk tso tss fails now ev w sc") (simp_all add: e Cons.IH)
qed simp

lemma restored:
  assumes "fails DisableRaw = None" "fails LeaveAlternate = None" "fails ShowCursor = None"
  shows "panic_hook fails sc = cooked" "screen_restore fails sc = cooked"
  using assms by (cases sc; simp add: panic_hook_def screen_restore_def disable_raw_def cooked_def)+

text \<open>
  C31. The terminal is given back. When the calls that restore it work, then however a session of the
  terminal interface ends (quit, an error of drawing, polling or reading, or a panic) and whatever
  happened before, the terminal is out of raw mode, on its normal screen and shows its cursor, with
  one exception: a set-up that fails after raw mode was entered leaves it in raw mode. And a panic of
  any task behind the screen also gives the terminal back, while the session goes on.
\<close>

theorem terminal_restored:
  assumes "fails DisableRaw = None" and "fails LeaveAlternate = None" and "fails ShowCursor = None"
  shows "(tui_session env mk tso tss cli close_answer fails now evs w cooked = Left r w' sc \<longrightarrow>
      (if fails EnableRaw = None \<and> (fails EnterAlternate \<noteq> None \<or> fails NewTerminal \<noteq> None)
       then scr_raw sc else sc = cooked)) \<and>
    (tui_session env mk tso tss cli close_answer fails now evs w cooked = Crashed sc \<longrightarrow> sc = cooked) \<and>
    (tui_session env mk tso tss cli close_answer fails now (evs @ [(now', TaskPanic)]) w cooked = Going w' sc \<longrightarrow>
       sc = cooked)"
proof (cases "snd (screen_setup fails cooked)")
  case (Inl e)
  then show ?thesis
    by (auto simp: tui_session_def screen_setup_def cooked_def Let_def split: option.splits prod.splits)
next
  case (Inr u)
  then have ok: "fails EnableRaw = None" "fails EnterAlternate = None" "fails NewTerminal = None"
    by (auto simp: screen_setup_def Let_def split: option.splits)
  define sc1 where "sc1 = fst (screen_setup fails cooked)"
  have session: "tui_session env mk tso tss cli close_answer fails now evs w cooked =
      (case run_app env mk tso tss fails evs w sc1 of
         Left r w sc \<Rightarrow>
           (case tui_finish env tso cli close_answer now w of
              None \<Rightarrow> Blocked (screen_restore fails sc)
            | Some w \<Rightarrow> Left r w (screen_restore fails sc))
       | stop \<Rightarrow> stop)" for evs
    using Inr by (cases "screen_setup fails cooked") (simp add: tui_session_def sc1_def)
  have left: "sc = cooked" if "tui_session env mk tso tss cli close_answer fails now evs w cooked = Left r w' sc"
    using that unfolding session by (auto simp: restored [OF assms] split: session.splits option.splits)
  have crashed: "sc = cooked" if "tui_session env mk tso tss cli close_answer fails now evs w cooked = Crashed sc"
    using that run_app_crashed [of env mk tso tss fails evs w sc1] unfolding session
    by (auto simp: restored [OF assms] split: session.splits option.splits)
  have going: "sc = cooked" if
    "tui_session env mk tso tss cli close_answer fails now (evs @ [(now', TaskPanic)]) w cooked = Going w' sc"
    using that unfolding session
    by (auto simp: run_app_append screen_step_def restored [OF assms] split: session.splits option.splits)
  show ?thesis using left crashed going ok by simp
qed

theorem terminal_restored_witness:
  "\<exists>w'. tui_session demo_env bc_new bc_try_send bc_try_send demo_cli (\<lambda>s. s, \<lambda>_. RxElapsed)
      (\<lambda>c. if c = EnterAlternate then Some ''not a tty'' else None) 0 [] demo_world cooked =
      Left (Inl (''Failed to setup terminal: not a tty'', 1)) w' \<lparr>scr_raw = True, scr_alternate = False, scr_cursor = True\<rparr> \<and>
    scr_raw \<lparr>scr_raw = True, scr_alternate = False, scr_cursor = True\<rparr>"
proof -
  let ?fails = "\<lambda>c. if c = EnterAlternate then Some ''not a tty'' else None"
  have run: "tui_session demo_env bc_new bc_try_send bc_try_send demo_cli (\<lambda>s. s, \<lambda>_. RxElapsed) ?fails 0 [] demo_world cooked =
      Left (Inl (''Failed to setup terminal: not a tty'', 1)) demo_world
        \<lparr>scr_raw = True, scr_alternate = False, scr_cursor = True\<rparr>"
    by (simp add: tui_session_def screen_setup_def cooked_def Let_def)
  then show ?thesis
    using terminal_restored [of ?fails demo_env bc_new bc_try_send bc_try_send demo_cli "(\<lambda>s. s, \<lambda>_. RxElapsed)" 0 "[]" demo_world]
    by auto
qed

end
