(* ===== verification/Stomp_Screen.thy ===== *)
theory Stomp_Screen
  imports Stomp_Tui
begin

text \<open>
  What the terminal interface puts on the screen (\<^verbatim>\<open>src/bin/cli/tui.rs\<close>, \<^verbatim>\<open>ui\<close> and the
  \<^verbatim>\<open>render_\<close> functions): the widgets handed to ratatui with their styles and their rectangles, and
  the cell of the cursor. The text of the panels is that of \<^verbatim>\<open>Stomp_Tui\<close>, of which the styled
  panels here are a refinement.

  Parameters: ratatui's \<^verbatim>\<open>Layout::split\<close> and \<^verbatim>\<open>Block::inner\<close>, on rectangles of \<^verbatim>\<open>u16\<close>. A \<^verbatim>\<open>u16\<close> is
  a word of 16 bits, whose arithmetic wraps as it does in a release build.
\<close>

section \<open>Styles, lines, widgets\<close>

datatype color = Green | Red | DarkGray | Blue | Cyan | Yellow

record style =
  style_fg :: "color option"
  style_bold :: bool

definition style_default :: style where
  "style_default = \<lparr>style_fg = None, style_bold = False\<rparr>"

definition fg :: "color \<Rightarrow> style" where
  "fg c = style_default\<lparr>style_fg := Some c\<rparr>"

definition add_bold :: "style \<Rightarrow> style" where
  "add_bold s = s\<lparr>style_bold := True\<rparr>"

type_synonym span = "string \<times> style"
type_synonym line = "span list"

definition raw :: "string \<Rightarrow> span" where
  "raw s = (s, style_default)"

definition line_text :: "line \<Rightarrow> string" where
  "line_text l = concat (map fst l)"

record rect =
  rect_x :: "16 word"
  rect_y :: "16 word"
  rect_width :: "16 word"
  rect_height :: "16 word"

datatype size_rule = Length "16 word" | MinSize "16 word" | Percentage "16 word"
datatype direction = Vertical | Horizontal

text \<open>
  A bordered block with a title; a paragraph, with the title of the bordered block around it if it
  has one, and whether it wraps; a bordered table with its header, the header's bottom margin, and
  the widths of its columns. And what is done to the terminal's frame.
\<close>

datatype widget =
    Block string style
  | Paragraph "line list" "string option" bool
  | Table "(string list \<times> style) list" "string list \<times> style" nat "size_rule list"

datatype drawing = Widget widget rect | CursorAt "16 word" "16 word"

section \<open>The panels, styled\<close>

definition hb_style :: "string \<times> bool \<Rightarrow> style" where
  "hb_style ind =
     (if snd ind then add_bold (fg Green)
      else if fst ind = ''!'' then fg Red
      else fg DarkGray)"

definition header_line :: "instant \<Rightarrow> app_state \<Rightarrow> line" where
  "header_line now st =
     [raw ('' Host: '' @ app_host st @ ''    User: '' @ app_user st @ ''    Heartbeat: ''),
      (fst (heartbeat_indicator now st), hb_style (heartbeat_indicator now st)),
      raw ('' ('' @ show_nat (unat (app_heartbeat_interval_ms st div 1000)) @ ''s)'')]"

definition draw_header :: "instant \<Rightarrow> int \<Rightarrow> rect \<Rightarrow> app_state \<Rightarrow> drawing list" where
  "draw_header now clock_now area st =
     [Widget (Paragraph [header_line now st] (Some (header_title clock_now st)) False) area]"

definition styled_counter :: "string \<Rightarrow> color \<Rightarrow> 64 word \<Rightarrow> (string list \<times> style) list" where
  "styled_counter label c n = map (\<lambda>(l, v). ([l, v], fg c)) (counter_row label n)"

definition styled_rows :: "app_state \<Rightarrow> (string list \<times> style) list" where
  "styled_rows st =
     (let rows = map (\<lambda>(d, s). ([d, show_nat (unat (message_count s))], fg Green))
                   (sorted_subs (app_subscriptions st)) @
            styled_counter ''Sent'' Blue (app_sent_count st) @
            styled_counter ''Info'' Cyan (app_info_count st) @
            styled_counter ''Warnings'' Yellow (app_warning_count st) @
            styled_counter ''Errors'' Red (app_error_count st);
          total = total_message_count st + app_sent_count st + app_info_count st + app_warning_count st +
            app_error_count st
      in if rows = [] then []
         else rows @ [([[], repeat_str 9 (encode_char 0x2500)], style_default),
                      ([''Total'', show_nat (unat total)], add_bold style_default)])"

definition draw_counts :: "rect \<Rightarrow> app_state \<Rightarrow> drawing list" where
  "draw_counts area st =
     [Widget (Table (styled_rows st) ([''Activity'', ''Count''], add_bold style_default) 1
        [Percentage 80, Percentage 20]) area]"

definition message_styles :: "string \<Rightarrow> style \<times> style" where
  "message_styles dest =
     (if dest = ''ERROR'' \<or> dest = ''BROKER ERROR'' then (add_bold (fg Red), fg Red)
      else if dest = ''WARN'' then (fg Yellow, fg Yellow)
      else if dest = ''INFO'' then (fg Cyan, fg DarkGray)
      else if dest = ''SENT'' then (fg Blue, style_default)
      else (fg Cyan, style_default))"

definition message_spans :: "(int \<Rightarrow> string) \<Rightarrow> display_message \<Rightarrow> line" where
  "message_spans clock m =
     [(clock (dm_timestamp m), fg DarkGray), raw '' ['',
      (dest_display (dm_destination m), fst (message_styles (dm_destination m))), raw ''] '',
      (truncate_str (dm_body m) (max_body_len (dm_destination m)),
       snd (message_styles (dm_destination m)))]"

fun styled_messages ::
  "(int \<Rightarrow> string) \<Rightarrow> bool \<Rightarrow> nat \<Rightarrow> display_message list \<Rightarrow> line list \<Rightarrow> line list" where
  "styled_messages clock hdrs height [] shown = shown"
| "styled_messages clock hdrs height (m # ms) shown =
     (if height \<le> length shown then shown
      else
        let shown = shown @ [message_spans clock m];
            shown = (if hdrs
                     then push_lines height (map (\<lambda>h. [(h, fg DarkGray)]) (message_headers m)) shown
                     else shown)
        in styled_messages clock hdrs height ms shown)"

definition draw_messages ::
  "(int \<Rightarrow> string) \<Rightarrow> (rect \<Rightarrow> rect) \<Rightarrow> rect \<Rightarrow> app_state \<Rightarrow> drawing list" where
  "draw_messages clock inner_of area st =
     (let header_hint = (if app_show_headers st then ''[^H] hide headers'' else ''[^H] show headers'');
          inner = inner_of area;
          height = unat (rect_height inner);
          offset = first_shown (app_scroll_offset st) (length (app_messages st)) height
      in [Widget (Block ('' Messages '' @ header_hint @ '' '') style_default) area,
          Widget (Paragraph
            (styled_messages clock (app_show_headers st) height (drop offset (app_messages st)) [])
            None False) inner])"

definition error_spans :: "(int \<Rightarrow> string) \<Rightarrow> nat \<Rightarrow> display_message \<Rightarrow> line" where
  "error_spans clock width e =
     (let time = clock (dm_timestamp e)
      in [(time, fg DarkGray), raw '' '',
          (case char_wrap (dm_body e) (width - (length time + 1)) of [] \<Rightarrow> [] | c # _ \<Rightarrow> c, fg Red)])"

definition error_rest_spans :: "(int \<Rightarrow> string) \<Rightarrow> nat \<Rightarrow> display_message \<Rightarrow> line list" where
  "error_rest_spans clock width e =
     (let first_len = width - (length (clock (dm_timestamp e)) + 1);
          consumed = length (take first_len (chars (dm_body e)));
          tail = concat (drop consumed (chars (dm_body e)))
      in map (\<lambda>c. [raw (replicate 9 (CHR '' '')), (c, fg Red)]) (char_wrap tail (width - 9)))"

fun push_header_spans :: "nat \<Rightarrow> nat \<Rightarrow> (string \<times> string) list \<Rightarrow> line list \<Rightarrow> line list" where
  "push_header_spans height width [] shown = shown"
| "push_header_spans height width ((k, v) # hs) shown =
     push_header_spans height width hs
       (push_lines height (map (\<lambda>c. [(c, fg DarkGray)]) (char_wrap (''  '' @ k @ '': '' @ v) width)) shown)"

fun styled_errors ::
  "(int \<Rightarrow> string) \<Rightarrow> bool \<Rightarrow> nat \<Rightarrow> nat \<Rightarrow> display_message list \<Rightarrow> line list \<Rightarrow> line list" where
  "styled_errors clock hdrs height width [] shown = shown"
| "styled_errors clock hdrs height width (e # es) shown =
     (if height \<le> length shown then shown
      else
        let shown = push_lines height (error_rest_spans clock width e) (shown @ [error_spans clock width e]);
            shown = (if hdrs then push_header_spans height width (dm_headers e) shown else shown);
            shown = (if length shown < height then shown @ [[raw []]] else shown)
        in styled_errors clock hdrs height width es shown)"

definition draw_errors ::
  "(int \<Rightarrow> string) \<Rightarrow> (rect \<Rightarrow> rect) \<Rightarrow> rect \<Rightarrow> app_state \<Rightarrow> drawing list" where
  "draw_errors clock inner_of area st =
     (let inner = inner_of area;
          height = unat (rect_height inner);
          offset = first_shown (app_error_scroll_offset st) (length (app_errors st)) height
      in [Widget (Block ('' Broker Errors ('' @ show_nat (length (app_errors st)) @ '') [^E/^D scroll] '')
            (fg Red)) area,
          Widget (Paragraph
            (styled_errors clock (app_show_headers st) height (unat (rect_width inner))
              (drop offset (app_errors st)) [])
            None False) inner])"

definition cursor_cell :: "rect \<Rightarrow> app_state \<Rightarrow> drawing list" where
  "cursor_cell area st =
     (let cursor_x = rect_x area + 3 + of_nat (app_cursor_pos st);
          cursor_y = rect_y area + 1
      in if cursor_x < rect_x area + rect_width area - 1 then [CursorAt cursor_x cursor_y] else [])"

definition draw_input :: "rect \<Rightarrow> app_state \<Rightarrow> drawing list" where
  "draw_input area st =
     Widget (Paragraph [[raw (input_text st)]] (Some []) True) area # cursor_cell area st"

section \<open>The screen\<close>

definition counts_height :: "app_state \<Rightarrow> 16 word" where
  "counts_height st = 6 + of_nat (min (length (app_subscriptions st)) 5)"

text \<open>The content area: the messages, beside the errors if there are any.\<close>

definition draw_content ::
  "(direction \<Rightarrow> size_rule list \<Rightarrow> rect \<Rightarrow> rect list) \<Rightarrow> (rect \<Rightarrow> rect) \<Rightarrow> (int \<Rightarrow> string) \<Rightarrow> rect \<Rightarrow>
   app_state \<Rightarrow> drawing list option" where
  "draw_content split inner_of clock area st =
     (if app_errors st = [] then Some (draw_messages clock inner_of area st)
      else
        (case split Horizontal [Percentage 70, Percentage 30] area of
           left # right # _ \<Rightarrow>
             Some (draw_messages clock inner_of left st @ draw_errors clock inner_of right st)
         | _ \<Rightarrow> None))"

text \<open>\<^verbatim>\<open>ui\<close>: \<open>None\<close> is the panic of an index past the rectangles \<open>split\<close> returned.\<close>

definition ui ::
  "(direction \<Rightarrow> size_rule list \<Rightarrow> rect \<Rightarrow> rect list) \<Rightarrow> (rect \<Rightarrow> rect) \<Rightarrow> (int \<Rightarrow> string) \<Rightarrow> instant \<Rightarrow> int \<Rightarrow>
   rect \<Rightarrow> app_state \<Rightarrow> drawing list option" where
  "ui split inner_of clock now clock_now area st =
     (case split Vertical [Length 3, Length (counts_height st), MinSize 5, Length 3] area of
        c0 # c1 # c2 # c3 # _ \<Rightarrow>
          map_option
            (\<lambda>ds. draw_header now clock_now c0 st @ draw_counts c1 st @ ds @ draw_input c3 st)
            (draw_content split inner_of clock c2 st)
      | _ \<Rightarrow> None)"

section \<open>The styled panels carry the text of the plain ones\<close>

lemma map_push_lines: "map f (push_lines height ls shown) = push_lines height (map f ls) (map f shown)"
  by (induction height ls shown rule: push_lines.induct) auto

lemma header_line_text: "line_text (header_line now st) = header_text now st"
  by (simp add: line_text_def header_line_def header_text_def raw_def)

lemma counter_row_text: "map fst (styled_counter label c n) = map (\<lambda>(l, v). [l, v]) (counter_row label n)"
  by (simp add: styled_counter_def counter_row_def)

lemma styled_rows_text: "map fst (styled_rows st) = map (\<lambda>(l, v). [l, v]) (count_rows st)"
proof -
  have "styled_counter label c n = [] \<longleftrightarrow> counter_row label n = []" for label c n
    by (simp add: styled_counter_def)
  then show ?thesis
    by (simp add: styled_rows_def count_rows_def Let_def counter_row_text split_def)
qed

lemma message_line_text: "line_text (message_spans clock m) = message_line clock m"
  by (simp add: line_text_def message_spans_def message_line_def raw_def)

lemma styled_messages_text:
  "map line_text (styled_messages clock hdrs height ms shown) =
     show_messages clock hdrs height ms (map line_text shown)"
  by (induction clock hdrs height ms shown rule: styled_messages.induct)
    (simp_all add: Let_def map_push_lines message_line_text comp_def, simp add: line_text_def)

lemma error_first_text: "line_text (error_spans clock width e) = error_first clock width e"
  by (simp add: line_text_def error_spans_def error_first_def raw_def Let_def)

lemma error_rest_text: "map line_text (error_rest_spans clock width e) = error_rest clock width e"
  by (simp add: line_text_def error_rest_spans_def error_rest_def raw_def Let_def)

lemma push_header_spans_text:
  "map line_text (push_header_spans height width hs shown) =
     push_header_chunks height width hs (map line_text shown)"
  by (induction height width hs shown rule: push_header_spans.induct)
    (simp_all add: map_push_lines comp_def, simp add: line_text_def)

lemma push_header_spans_length:
  "length (push_header_spans height width hs shown) =
     length (push_header_chunks height width hs (map line_text shown))"
  by (simp flip: push_header_spans_text)

lemma push_lines_length:
  "length (push_lines height ls shown) = length (push_lines height (map f ls) (map f shown))"
  by (simp flip: map_push_lines)

lemma styled_errors_text:
  "map line_text (styled_errors clock hdrs height width es shown) =
     show_errors clock hdrs height width es (map line_text shown)"
proof (induction es arbitrary: shown)
  case (Cons e es)
  define page where "page =
    (let page = push_lines height (error_rest_spans clock width e) (shown @ [error_spans clock width e])
     in if hdrs then push_header_spans height width (dm_headers e) page else page)"
  have page: "map line_text page =
    (let page = push_lines height (error_rest clock width e)
         (map line_text shown @ [error_first clock width e])
     in if hdrs then push_header_chunks height width (dm_headers e) page else page)"
    by (simp add: page_def Let_def push_header_spans_text map_push_lines error_rest_text error_first_text)
  have len: "length (map line_text page) = length page" by simp
  have "styled_errors clock hdrs height width (e # es) shown =
    (if height \<le> length shown then shown
     else styled_errors clock hdrs height width es
       (if length page < height then page @ [[raw []]] else page))"
    by (simp add: page_def Let_def)
  moreover have "show_errors clock hdrs height width (e # es) (map line_text shown) =
    (if height \<le> length shown then map line_text shown
     else show_errors clock hdrs height width es
       (if length page < height then map line_text page @ [[]] else map line_text page))"
    using len by (simp add: page Let_def)
  moreover have "line_text [raw []] = []" by (simp add: line_text_def raw_def)
  ultimately show ?case using Cons.IH by simp
qed simp

section \<open>The counts panel\<close>

text \<open>The table's rows that fit: the borders, the header and its margin are taken off the height.\<close>

definition rows_shown :: "app_state \<Rightarrow> nat" where
  "rows_shown st = unat (counts_height st) - 4"

lemma rows_shown_eq: "rows_shown st = 2 + min (length (app_subscriptions st)) 5"
proof -
  have "unat (of_nat (min (length (app_subscriptions st)) 5) :: 16 word) =
      min (length (app_subscriptions st)) 5"
    by (simp add: unat_of_nat take_bit_nat_eq_self_iff)
  then have "unat (counts_height st) = 6 + min (length (app_subscriptions st)) 5"
    by (simp add: counts_height_def unat_word_ariths)
  then show ?thesis by (simp add: rows_shown_def)
qed

lemma length_insert_sub: "length (insert_sub x ys) = Suc (length ys)"
  by (induction ys) auto

lemma length_sorted_subs: "length (sorted_subs m) = length m"
  by (induction m) (auto simp: sorted_subs_def length_insert_sub)

text \<open>How many of the four counters have a row.\<close>

definition counters_on :: "app_state \<Rightarrow> nat" where
  "counters_on st =
     of_bool (0 < app_sent_count st) + of_bool (0 < app_info_count st) +
     of_bool (0 < app_warning_count st) + of_bool (0 < app_error_count st)"

lemma counters_on_0:
  "counters_on st = 0 \<longleftrightarrow>
     app_sent_count st = 0 \<and> app_info_count st = 0 \<and> app_warning_count st = 0 \<and> app_error_count st = 0"
  by (auto simp: counters_on_def word_gt_0)

lemma length_counter_row: "length (counter_row label n) = of_bool (0 < n)"
  by (simp add: counter_row_def)

lemma length_count_rows:
  "length (count_rows st) =
     (let n = length (app_subscriptions st) + counters_on st in if n = 0 then 0 else n + 2)"
proof -
  define rows where "rows =
    map (\<lambda>(d, s). (d, show_nat (unat (message_count s)))) (sorted_subs (app_subscriptions st)) @
    counter_row ''Sent'' (app_sent_count st) @ counter_row ''Info'' (app_info_count st) @
    counter_row ''Warnings'' (app_warning_count st) @ counter_row ''Errors'' (app_error_count st)"
  have rows: "length rows = length (app_subscriptions st) + counters_on st"
    by (simp add: rows_def length_sorted_subs length_counter_row counters_on_def)
  have "length (count_rows st) = (if rows = [] then 0 else length rows + 2)"
    by (simp add: count_rows_def Let_def flip: rows_def)
  then show ?thesis using rows by (cases rows) (auto simp: Let_def)
qed

section \<open>What a panel shows\<close>

lemma take_more:
  "(xs @ take (h - length xs) ys) @ take (h - length (xs @ take (h - length xs) ys)) zs =
     xs @ take (h - length xs) (ys @ zs)"
  by (simp add: min_def)

lemma push_lines_take: "push_lines h ls shown = shown @ take (h - length shown) ls"
  by (induction h ls shown rule: push_lines.induct) (auto simp: take_Cons')

lemma push_header_chunks_take:
  "push_header_chunks h w hs shown =
     shown @ take (h - length shown) (concat (map (\<lambda>(k, v). char_wrap (''  '' @ k @ '': '' @ v) w) hs))"
proof (induction h w hs shown rule: push_header_chunks.induct)
  case (2 h w k v hs shown)
  then show ?case by (simp only: push_header_chunks.simps push_lines_take take_more list.map concat.simps prod.case)
qed simp

lemma push_after_one:
  assumes "length shown < h"
  shows "push_lines h ls (shown @ [l]) = shown @ take (h - length shown) (l # ls)"
    "shown @ [l] = shown @ take (h - length shown) [l]"
proof -
  obtain n where h: "h = Suc (length shown + n)" using assms less_iff_Suc_add by auto
  show "push_lines h ls (shown @ [l]) = shown @ take (h - length shown) (l # ls)"
    unfolding push_lines_take h by (simp add: Suc_diff_le)
  show "shown @ [l] = shown @ take (h - length shown) [l]"
    unfolding h by (simp add: Suc_diff_le)
qed

lemma show_messages_take:
  "show_messages clock hdrs h ms shown = shown @ take (h - length shown)
     (concat (map (\<lambda>m. message_line clock m # (if hdrs then message_headers m else [])) ms))"
proof (induction ms arbitrary: shown)
  case (Cons m ms)
  show ?case
  proof (cases "h \<le> length shown")
    case False
    then have room: "length shown < h" by simp
    have "show_messages clock hdrs h (m # ms) shown = show_messages clock hdrs h ms
        (shown @ take (h - length shown) (message_line clock m # (if hdrs then message_headers m else [])))"
      using False push_after_one(1) [OF room, of "message_headers m"] push_after_one(2) [OF room]
      by (cases hdrs) (simp_all only: show_messages.simps Let_def if_True if_False)
    then show ?thesis by (simp only: Cons.IH take_more list.map concat.simps)
  qed simp
qed simp

lemma show_errors_take:
  "show_errors clock hdrs h w es shown = shown @ take (h - length shown)
     (concat (map (\<lambda>e. (error_first clock w e # error_rest clock w e) @
        (if hdrs then concat (map (\<lambda>(k, v). char_wrap (''  '' @ k @ '': '' @ v) w) (dm_headers e)) else []) @ [[]]) es))"
proof (induction es arbitrary: shown)
  case (Cons e es)
  let ?first = "error_first clock w e # error_rest clock w e"
    and ?hs = "if hdrs then concat (map (\<lambda>(k, v). char_wrap (''  '' @ k @ '': '' @ v) w) (dm_headers e)) else []"
  show ?case
  proof (cases "h \<le> length shown")
    case False
    then have room: "length shown < h" by simp
    have blank: "(if length p < h then p @ [[]] else p) = p @ take (h - length p) [[]]" for p :: "string list"
      using push_after_one(2) [of p h "[]"] by auto
    have hs: "(if hdrs then push_header_chunks h w (dm_headers e) p else p) = p @ take (h - length p) ?hs" for p
      by (simp add: push_header_chunks_take)
    have "show_errors clock hdrs h w (e # es) shown =
        show_errors clock hdrs h w es (shown @ take (h - length shown) (?first @ ?hs @ [[]]))"
      using False
      by (simp only: show_errors.simps Let_def if_False push_after_one(1) [OF room] hs blank take_more)
    then show ?thesis by (simp only: Cons.IH take_more list.map concat.simps)
  qed simp
qed simp

lemma first_shown_drop: "drop (first_shown off n h) xs = drop (if off = 0 then n - h else off) xs"
  by (simp add: first_shown_def)

lemma error_body:
  assumes "utf8_valid (dm_body e)" and "length (clock (dm_timestamp e)) + 1 < w" and "9 < w"
  obtains c cs where "error_first clock w e = clock (dm_timestamp e) @ '' '' @ c"
    "error_rest clock w e = map ((@) (replicate 9 (CHR '' ''))) cs" "c @ concat cs = dm_body e"
proof -
  let ?k = "w - (length (clock (dm_timestamp e)) + 1)" and ?ps = "chars (dm_body e)"
  let ?c = "case char_wrap (dm_body e) ?k of [] \<Rightarrow> [] | c # _ \<Rightarrow> c"
    and ?tail = "concat (drop (length (take ?k ?ps)) ?ps)"
  have k: "0 < ?k" using assms(2) by simp
  have tail: "?tail = concat (drop ?k ?ps)" by (simp add: min_def)
  have "?c = concat (take ?k ?ps)"
    using k by (cases "?ps = []") (simp_all add: char_wrap_def chunks.simps [of _ ?ps])
  moreover have "concat (char_wrap ?tail (w - 9)) = ?tail"
    unfolding tail using assms(3) by (intro char_wrap_pieces) (simp_all add: char_list_concat char_list_drop char_list_chars assms(1))
  moreover have "concat (take ?k ?ps) @ concat (drop ?k ?ps) = dm_body e"
    using concat_chars [OF assms(1)] by (simp flip: concat_append)
  ultimately have "?c @ concat (char_wrap ?tail (w - 9)) = dm_body e" unfolding tail by simp
  then show thesis
    by (intro that [of ?c "char_wrap ?tail (w - 9)"]) (simp_all add: error_first_def error_rest_def Let_def)
qed

lemma message_line_spelled:
  "message_line clock m # (if hdrs then message_headers m else []) =
     (clock (dm_timestamp m) @ '' ['' @ dest_display (dm_destination m) @ ''] '' @
        truncate_str (dm_body m) (max_body_len (dm_destination m))) #
     (if hdrs then map (\<lambda>(k, v). truncate_str (''    '' @ k @ '': '' @ v) 70) (dm_headers m) else [])"
  by (simp add: message_line_def message_headers_def)

lemmas panel_lines = render_messages_def render_errors_def show_messages_take show_errors_take first_shown_drop
  message_line_spelled

section \<open>The panels of the content area\<close>

lemma message_panel:
  obtains t ls where
    "draw_messages clock inner_of area st =
       [Widget (Block t style_default) area, Widget (Paragraph ls None False) (inner_of area)]"
    "map line_text ls = render_messages clock (unat (rect_height (inner_of area))) st"
    "length ls \<le> unat (rect_height (inner_of area))"
proof -
  let ?h = "unat (rect_height (inner_of area))"
  let ?ls = "styled_messages clock (app_show_headers st) ?h
    (drop (first_shown (app_scroll_offset st) (length (app_messages st)) ?h) (app_messages st)) []"
  have plain: "map line_text ?ls = render_messages clock ?h st"
    by (simp add: styled_messages_text render_messages_def)
  have "length ?ls = length (render_messages clock ?h st)" unfolding plain [symmetric] by simp
  then have "length ?ls \<le> ?h" by (simp add: render_messages_def show_messages_height)
  with plain show thesis by (intro that) (auto simp: draw_messages_def Let_def)
qed

lemma error_panel:
  obtains t ls where
    "draw_errors clock inner_of area st =
       [Widget (Block t (fg Red)) area, Widget (Paragraph ls None False) (inner_of area)]"
    "map line_text ls = render_errors clock (unat (rect_height (inner_of area)))
       (unat (rect_width (inner_of area))) st"
    "length ls \<le> unat (rect_height (inner_of area))"
proof -
  let ?h = "unat (rect_height (inner_of area))" and ?w = "unat (rect_width (inner_of area))"
  let ?ls = "styled_errors clock (app_show_headers st) ?h ?w
    (drop (first_shown (app_error_scroll_offset st) (length (app_errors st)) ?h) (app_errors st)) []"
  have plain: "map line_text ?ls = render_errors clock ?h ?w st"
    by (simp add: styled_errors_text render_errors_def)
  have "length ?ls = length (render_errors clock ?h ?w st)" unfolding plain [symmetric] by simp
  then have "length ?ls \<le> ?h" by (simp add: render_errors_def show_errors_height)
  with plain show thesis by (intro that) (auto simp: draw_errors_def Let_def)
qed

text \<open>What the header, the counts and the input panel are not.\<close>

lemma bars:
  "Widget (Paragraph ls None False) r \<notin> set (draw_header now clock_now area st)"
  "Widget (Paragraph ls None False) r \<notin> set (draw_counts area st)"
  "Widget (Paragraph ls None False) r \<notin> set (draw_input area st)"
  "Widget (Block t s) r \<notin> set (draw_header now clock_now area st)"
  "Widget (Block t s) r \<notin> set (draw_counts area st)"
  "Widget (Block t s) r \<notin> set (draw_input area st)"
  "fg Red \<noteq> style_default"
  by (simp_all add: draw_header_def draw_counts_def draw_input_def cursor_cell_def Let_def fg_def
      style_default_def)

section \<open>Properties\<close>

lemma screen_panels:
  assumes "\<And>d cs r. length (split d cs r) = length cs"
  shows "\<exists>ds. ui split inner_of clock now clock_now area st = Some ds \<and>
    (\<exists>ls r. Widget (Paragraph ls None False) r \<in> set ds \<and>
       map line_text ls = render_messages clock (unat (rect_height r)) st) \<and>
    (app_errors st \<noteq> [] \<longrightarrow>
       (\<exists>ls r. Widget (Paragraph ls None False) r \<in> set ds \<and>
          map line_text ls = render_errors clock (unat (rect_height r)) (unat (rect_width r)) st)) \<and>
    (\<forall>ls r. Widget (Paragraph ls None False) r \<in> set ds \<longrightarrow> length ls \<le> unat (rect_height r)) \<and>
    ((\<exists>t r. Widget (Block t (fg Red)) r \<in> set ds) \<longleftrightarrow> app_errors st \<noteq> [])"
proof -
  obtain c0 c1 c2 c3 where rows:
    "split Vertical [Length 3, Length (counts_height st), MinSize 5, Length 3] area = [c0, c1, c2, c3]"
    using assms [of Vertical "[Length 3, Length (counts_height st), MinSize 5, Length 3]" area]
    by (auto simp: length_Suc_conv numeral_eq_Suc)
  obtain e0 e1 where cols: "split Horizontal [Percentage 70, Percentage 30] c2 = [e0, e1]"
    using assms [of Horizontal "[Percentage 70, Percentage 30]" c2]
    by (auto simp: length_Suc_conv numeral_eq_Suc)
  show ?thesis
  proof (cases "app_errors st = []")
    case True
    obtain t ls where m: "draw_messages clock inner_of c2 st =
        [Widget (Block t style_default) c2, Widget (Paragraph ls None False) (inner_of c2)]"
      "map line_text ls = render_messages clock (unat (rect_height (inner_of c2))) st"
      "length ls \<le> unat (rect_height (inner_of c2))" by (rule message_panel)
    let ?ds = "draw_header now clock_now c0 st @ draw_counts c1 st @
      [Widget (Block t style_default) c2, Widget (Paragraph ls None False) (inner_of c2)] @ draw_input c3 st"
    have "ui split inner_of clock now clock_now area st = Some ?ds"
      by (simp add: ui_def rows draw_content_def True m(1))
    moreover have "Widget (Paragraph l None False) r \<in> set ?ds \<longleftrightarrow> l = ls \<and> r = inner_of c2"
      "Widget (Block h (fg Red)) r \<notin> set ?ds" for l r h
      by (auto simp: bars)
    ultimately show ?thesis using m(2,3) True by (intro exI [of _ ?ds]) (simp del: set_append)
  next
    case False
    obtain t ls where m: "draw_messages clock inner_of e0 st =
        [Widget (Block t style_default) e0, Widget (Paragraph ls None False) (inner_of e0)]"
      "map line_text ls = render_messages clock (unat (rect_height (inner_of e0))) st"
      "length ls \<le> unat (rect_height (inner_of e0))" by (rule message_panel)
    obtain t' es where e: "draw_errors clock inner_of e1 st =
        [Widget (Block t' (fg Red)) e1, Widget (Paragraph es None False) (inner_of e1)]"
      "map line_text es = render_errors clock (unat (rect_height (inner_of e1)))
         (unat (rect_width (inner_of e1))) st"
      "length es \<le> unat (rect_height (inner_of e1))" by (rule error_panel)
    let ?ds = "draw_header now clock_now c0 st @ draw_counts c1 st @
      [Widget (Block t style_default) e0, Widget (Paragraph ls None False) (inner_of e0),
       Widget (Block t' (fg Red)) e1, Widget (Paragraph es None False) (inner_of e1)] @ draw_input c3 st"
    have "ui split inner_of clock now clock_now area st = Some ?ds"
      by (simp add: ui_def rows cols draw_content_def False m(1) e(1))
    moreover have "Widget (Paragraph l None False) r \<in> set ?ds \<longleftrightarrow>
        l = ls \<and> r = inner_of e0 \<or> l = es \<and> r = inner_of e1"
      "Widget (Block h (fg Red)) r \<in> set ?ds \<longleftrightarrow> h = t' \<and> r = e1" for l r h
      by (auto simp: bars)
    ultimately show ?thesis using m(2,3) e(2,3) False
      by (intro exI [of _ ?ds]) (simp del: set_append, metis)
  qed
qed

text \<open>
  C35. What is on the screen, as long as the layout returns a rectangle for every constraint. The
  message panel of height \<open>h\<close> shows the first \<open>h\<close> of these lines, styles taken off: for each
  message from the scroll offset on, or from the \<open>h\<close>-th newest on while the offset is 0, its
  line with time, destination and shortened body, followed by its headers while they are switched on. There is
  an error panel exactly when there are errors; it shows in the same way the lines of the errors, a
  blank line after each, and where it is wide enough for the time and its indent, the pieces after
  the time and the indents make up the whole body of each error. No panel writes more lines than it has.
\<close>

theorem screen_drawn:
  assumes "\<And>d cs r. length (split d cs r) = length cs"
  shows "\<exists>ds. ui split inner_of clock now clock_now area st = Some ds \<and>
    (\<exists>ls r. Widget (Paragraph ls None False) r \<in> set ds \<and>
       (let h = unat (rect_height r); from = app_scroll_offset st in
        map line_text ls = take h (concat (map (\<lambda>m.
            (clock (dm_timestamp m) @ '' ['' @ dest_display (dm_destination m) @ ''] '' @
               truncate_str (dm_body m) (max_body_len (dm_destination m))) #
            (if app_show_headers st then map (\<lambda>(k, v). truncate_str (''    '' @ k @ '': '' @ v) 70) (dm_headers m) else []))
          (drop (if from = 0 then length (app_messages st) - h else from) (app_messages st)))))) \<and>
    (app_errors st \<noteq> [] \<longrightarrow>
       (\<exists>ls r. Widget (Paragraph ls None False) r \<in> set ds \<and>
          (let h = unat (rect_height r); w = unat (rect_width r); from = app_error_scroll_offset st in
           map line_text ls = take h (concat (map (\<lambda>e.
               (error_first clock w e # error_rest clock w e) @
               (if app_show_headers st then concat (map (\<lambda>(k, v). char_wrap (''  '' @ k @ '': '' @ v) w) (dm_headers e)) else []) @
               [[]])
             (drop (if from = 0 then length (app_errors st) - h else from) (app_errors st)))) \<and>
           (\<forall>e. utf8_valid (dm_body e) \<and> length (clock (dm_timestamp e)) + 1 < w \<and> 9 < w \<longrightarrow>
              (\<exists>c cs. error_first clock w e = clock (dm_timestamp e) @ '' '' @ c \<and>
                 error_rest clock w e = map ((@) (replicate 9 (CHR '' ''))) cs \<and> c @ concat cs = dm_body e))))) \<and>
    (\<forall>ls r. Widget (Paragraph ls None False) r \<in> set ds \<longrightarrow> length ls \<le> unat (rect_height r)) \<and>
    ((\<exists>t r. Widget (Block t (fg Red)) r \<in> set ds) \<longleftrightarrow> app_errors st \<noteq> [])"
proof -
  obtain ds where ds: "ui split inner_of clock now clock_now area st = Some ds"
    "\<exists>ls r. Widget (Paragraph ls None False) r \<in> set ds \<and>
       map line_text ls = render_messages clock (unat (rect_height r)) st"
    "app_errors st \<noteq> [] \<longrightarrow>
       (\<exists>ls r. Widget (Paragraph ls None False) r \<in> set ds \<and>
          map line_text ls = render_errors clock (unat (rect_height r)) (unat (rect_width r)) st)"
    "\<forall>ls r. Widget (Paragraph ls None False) r \<in> set ds \<longrightarrow> length ls \<le> unat (rect_height r)"
    "(\<exists>t r. Widget (Block t (fg Red)) r \<in> set ds) \<longleftrightarrow> app_errors st \<noteq> []"
    using screen_panels [where split = split and inner_of = inner_of and clock = clock and now = now and
        clock_now = clock_now and area = area and st = st, OF assms]
    by (elim exE [where P = "\<lambda>ds. ui split inner_of clock now clock_now area st = Some ds \<and> _ ds"] conjE) (rule that)
  have body: "\<exists>c cs. error_first clock w e = clock (dm_timestamp e) @ '' '' @ c \<and>
      error_rest clock w e = map ((@) (replicate 9 (CHR '' ''))) cs \<and> c @ concat cs = dm_body e"
    if "utf8_valid (dm_body e) \<and> length (clock (dm_timestamp e)) + 1 < w \<and> 9 < w" for w e
    using that error_body [of e clock w] by metis
  show ?thesis
    using ds(1,2,4,5) ds(3) [rule_format] body
    unfolding panel_lines Let_def append_Nil list.size diff_zero by blast
qed

text \<open>A layout that stacks what it is asked for.\<close>

fun size_of :: "16 word \<Rightarrow> size_rule \<Rightarrow> 16 word" where
  "size_of all (Length n) = n"
| "size_of all (MinSize n) = n"
| "size_of all (Percentage p) = all * p div 100"

primrec stacked :: "direction \<Rightarrow> rect \<Rightarrow> size_rule list \<Rightarrow> rect list" where
  "stacked d r [] = []"
| "stacked d r (c # cs) =
     (if d = Vertical
      then let h = size_of (rect_height r) c
           in r\<lparr>rect_height := h\<rparr> # stacked d (r\<lparr>rect_y := rect_y r + h, rect_height := rect_height r - h\<rparr>) cs
      else let w = size_of (rect_width r) c
           in r\<lparr>rect_width := w\<rparr> # stacked d (r\<lparr>rect_x := rect_x r + w, rect_width := rect_width r - w\<rparr>) cs)"

definition stack_layout :: "direction \<Rightarrow> size_rule list \<Rightarrow> rect \<Rightarrow> rect list" where
  "stack_layout d cs r = stacked d r cs"

definition shrink :: "rect \<Rightarrow> rect" where
  "shrink r = \<lparr>rect_x = rect_x r + 1, rect_y = rect_y r + 1, rect_width = rect_width r - 2,
     rect_height = rect_height r - 2\<rparr>"

definition demo_area :: rect where
  "demo_area = \<lparr>rect_x = 0, rect_y = 0, rect_width = 80, rect_height = 30\<rparr>"

lemma stack_layout_length: "length (stack_layout d cs r) = length cs"
  unfolding stack_layout_def by (induction cs arbitrary: r) (auto simp: Let_def)

theorem screen_drawn_witness:
  "\<exists>ds t r. ui stack_layout shrink (\<lambda>_. []) 0 0 demo_area (crowded\<lparr>app_errors := app_messages crowded\<rparr>) =
     Some ds \<and> Widget (Block t (fg Red)) r \<in> set ds"
proof -
  let ?st = "crowded\<lparr>app_errors := app_messages crowded\<rparr>"
  have "app_errors ?st \<noteq> []" by (simp add: crowded_def)
  with screen_drawn [where split = stack_layout and inner_of = shrink and clock = "\<lambda>_. []" and
      now = 0 and clock_now = 0 and area = demo_area and st = ?st, OF stack_layout_length]
  show ?thesis by blast
qed

text \<open>
  The counts panel is high enough for its rows, the total among them, exactly while there are
  at most five subscriptions and nothing but messages was counted: one SENT, INFO, WARN or ERROR
  pushes the total off the panel.
\<close>

theorem total_row_fits:
  "length (styled_rows st) \<le> rows_shown st \<longleftrightarrow>
     length (app_subscriptions st) \<le> 5 \<and> app_sent_count st = 0 \<and> app_info_count st = 0 \<and>
     app_warning_count st = 0 \<and> app_error_count st = 0"
proof -
  have "length (styled_rows st) = length (count_rows st)"
    using arg_cong [OF styled_rows_text [of st], of length] by simp
  then show ?thesis
    by (auto simp: length_count_rows rows_shown_eq Let_def simp flip: counters_on_0)
qed

text \<open>
  The cursor of the input panel. Where the panel lies on the screen and the line is short enough
  for 16 bits, the cursor is placed exactly when its column is left of the panel's right border,
  and then stands inside the panel, three columns in from its left edge, at the byte offset of the
  cursor: after a multibyte character it is to the right of the text.
\<close>

theorem cursor_in_input:
  assumes "unat (rect_x area) + unat (rect_width area) < 2 ^ 16" and "0 < rect_width area"
    and "unat (rect_x area) + 3 + app_cursor_pos st < 2 ^ 16"
  shows "cursor_cell area st =
    (if app_cursor_pos st + 4 < unat (rect_width area)
     then [CursorAt (of_nat (unat (rect_x area) + 3 + app_cursor_pos st)) (rect_y area + 1)] else [])"
proof -
  let ?x = "rect_x area" and ?w = "rect_width area"
  have x: "?x + 3 + of_nat (app_cursor_pos st) = of_nat (unat ?x + 3 + app_cursor_pos st)" by simp
  have ux: "unat (of_nat (unat ?x + 3 + app_cursor_pos st) :: 16 word) = unat ?x + 3 + app_cursor_pos st"
    using assms(3) by (simp only: unat_of_nat) (simp add: take_bit_nat_eq_self_iff)
  have w: "0 < unat ?w" using assms(2) by (simp add: word_less_nat_alt)
  have "?x + ?w - 1 = of_nat (unat ?x + unat ?w - 1)"
    using w by (simp add: of_nat_diff)
  moreover have "unat (of_nat (unat ?x + unat ?w - 1) :: 16 word) = unat ?x + unat ?w - 1"
    using assms(1) by (simp only: unat_of_nat) (simp add: take_bit_nat_eq_self_iff)
  ultimately have right: "unat (?x + ?w - 1) = unat ?x + unat ?w - 1" by simp
  show ?thesis
    using w by (auto simp: cursor_cell_def Let_def word_less_nat_alt right ux x simp del: of_nat_add)
qed

theorem cursor_in_input_witness:
  "cursor_cell \<lparr>rect_x = 0, rect_y = 27, rect_width = 80, rect_height = 3\<rparr>
     (crowded\<lparr>app_cursor_pos := 5\<rparr>) = [CursorAt 8 28]"
  using cursor_in_input [of "\<lparr>rect_x = 0, rect_y = 27, rect_width = 80, rect_height = 3\<rparr>"
      "crowded\<lparr>app_cursor_pos := 5\<rparr>"]
  by simp

end
