(* ===== verification/Stomp_Examples.thy ===== *)
theory Stomp_Examples
  imports Stomp_Cli
begin

text \<open>
  The programs of \<^verbatim>\<open>examples/\<close>, clients of the library: \<^verbatim>\<open>ack_roundtrip\<close>, \<^verbatim>\<open>transactions\<close>,
  \<^verbatim>\<open>multi_subscribe\<close> and the smaller ones, and the \<^verbatim>\<open>Stream\<close> of a subscription they read. A
  program is a \<open>call\<close>: it runs on the state behind its connection and a log of what it prints,
  ends with a value or by leaving \<^verbatim>\<open>main\<close>, and is \<open>None\<close> while it still waits.

  Parameters: tokio's \<^verbatim>\<open>Receiver::poll_recv\<close> (\<open>tr\<close>), with its documented behaviour in the locale
  \<open>frame_receiver\<close>, and the merged stream of \<^verbatim>\<open>futures::stream::select_all\<close>. What a program's
  local handles do when \<^verbatim>\<open>main\<close> returns is left out: the runtime stops with it.
\<close>

section \<open>The stream of a subscription\<close>

datatype 'a poll = Pending | Ready 'a

definition handle_id :: "subscription \<Rightarrow> string" where "handle_id sn = sn_id sn"
definition handle_destination :: "subscription \<Rightarrow> string" where
  "handle_destination sn = sn_destination sn"

definition set_chan :: "chan_id \<Rightarrow> 'c \<Rightarrow> ('c, 'q) conn \<Rightarrow> ('c, 'q) conn" where
  "set_chan r c s = s\<lparr>chans := (chans s)(r := c)\<rparr>"

definition poll_chan ::
  "('c \<Rightarrow> frame option poll \<times> 'c) \<Rightarrow> chan_id \<Rightarrow> ('c, 'q) conn \<Rightarrow> frame option poll \<times> ('c, 'q) conn" where
  "poll_chan tr r s =
     (case tr (chans s r) of (p, c) \<Rightarrow> (p, set_chan r c s))"

definition poll_next ::
  "('c \<Rightarrow> frame option poll \<times> 'c) \<Rightarrow> subscription \<Rightarrow> ('c, 'q) conn \<Rightarrow>
   frame option poll \<times> ('c, 'q) conn" where
  "poll_next tr sn s = poll_chan tr (sn_receiver sn) s"

text \<open>
  A future polled under \<^verbatim>\<open>tokio::time::timeout\<close>, which polls it before it looks at the clock. Every
  wake-up carries what the rest of the program did to the state before it and whether the
  deadline has passed; the wake-ups left over are returned.
\<close>

type_synonym ('c, 'q) wake_up = "(('c, 'q) conn \<Rightarrow> ('c, 'q) conn) \<times> bool"

fun timeout_poll ::
  "(('c, 'q) conn \<Rightarrow> 'a poll \<times> ('c, 'q) conn) \<Rightarrow> ('c, 'q) wake_up list \<Rightarrow> ('c, 'q) conn \<Rightarrow>
   ('a option \<times> ('c, 'q) wake_up list \<times> ('c, 'q) conn) option" where
  "timeout_poll p [] s = None"
| "timeout_poll p ((mid, late) # ws) s =
     (case p (mid s) of
        (Ready a, s) \<Rightarrow> Some (Some a, ws, s)
      | (Pending, s) \<Rightarrow> if late then Some (None, ws, s) else timeout_poll p ws s)"

lemma timeout_poll_shorter:
  "timeout_poll p ws s = Some (r, ws', s') \<Longrightarrow> length ws' < length ws"
proof (induction p ws s rule: timeout_poll.induct)
  case (2 p mid late ws s)
  obtain q s1 where "p (mid s) = (q, s1)" by (rule prod.exhaust)
  with 2 show ?case by (cases q) (auto split: if_splits)
qed simp

section \<open>Programs\<close>

text \<open>How a program leaves \<^verbatim>\<open>main\<close> early.\<close>

datatype stop = Exit nat | Failed conn_error | BeforeEpoch

text \<open>
  The state behind the connection, what was printed, and what the rest of the program does to that
  state before each library call, by the number of calls made so far.
\<close>

record ('c, 'q) ex =
  ex_conn :: "('c, 'q) conn"
  ex_out :: "printed list"
  ex_rest :: "nat \<Rightarrow> ('c, 'q) conn \<Rightarrow> ('c, 'q) conn"
  ex_calls :: nat

type_synonym ('c, 'q, 'a) call = "('c, 'q) ex \<Rightarrow> ((stop, 'a) result \<times> ('c, 'q) ex) option"

definition give :: "'a \<Rightarrow> ('c, 'q, 'a) call" where
  "give a x = Some (Inr a, x)"

definition leave :: "stop \<Rightarrow> ('c, 'q, 'a) call" where
  "leave e x = Some (Inl e, x)"

definition say :: "printed list \<Rightarrow> ('c, 'q, unit) call" where
  "say ps x = Some (Inr (), x\<lparr>ex_out := ex_out x @ ps\<rparr>)"

text \<open>\<^verbatim>\<open>call.await?\<close>, and what comes after it.\<close>

definition await ::
  "(('c, 'q) conn \<Rightarrow> ((conn_error, 'a) result \<times> ('c, 'q) conn) option) \<Rightarrow> ('c, 'q, 'a) call" where
  "await m x =
     map_option (\<lambda>(r, s). (map_sum Failed id r, x\<lparr>ex_conn := s, ex_calls := ex_calls x + 1\<rparr>))
       (m (ex_rest x (ex_calls x) (ex_conn x)))"

definition and_then ::
  "('c, 'q, 'a) call \<Rightarrow> ('a \<Rightarrow> ('c, 'q, 'b) call) \<Rightarrow> ('c, 'q, 'b) call" where
  "and_then m k x =
     (case m x of
        None \<Rightarrow> None
      | Some (Inl e, x) \<Rightarrow> Some (Inl e, x)
      | Some (Inr a, x) \<Rightarrow> k a x)"

primrec steps :: "('c, 'q, unit) call list \<Rightarrow> ('c, 'q, unit) call" where
  "steps [] = give ()"
| "steps (m # ms) = and_then m (\<lambda>_. steps ms)"

text \<open>
  The exit code: what \<^verbatim>\<open>main\<close> returns, an error being 1, or the argument of
  \<^verbatim>\<open>std::process::exit\<close>.
\<close>

definition exit_code :: "(stop, unit) result \<Rightarrow> nat" where
  "exit_code r = (case r of Inr _ \<Rightarrow> 0 | Inl (Exit n) \<Rightarrow> n | Inl _ \<Rightarrow> 1)"

text \<open>
  What \<^verbatim>\<open>Connection::connect\<close> meets: the network's attempts, the clock, and the channels made
  for it. The receipt counter is the process's and goes on.
\<close>

record ('c, 'q) net =
  net_attempts :: "attempt list"
  net_now :: nat
  net_queue :: 'q
  net_chans :: "chan_id \<Rightarrow> 'c"

definition open_session ::
  "(duration \<Rightarrow> string) \<Rightarrow> string \<Rightarrow> string \<Rightarrow> string \<Rightarrow> string \<Rightarrow> ('c, 'q) net \<Rightarrow> ('c, 'q, unit) call" where
  "open_session dur_text addr login passcode hb n x =
     (case connect dur_text addr login passcode hb (net_attempts n) (net_now n) (net_queue n) (net_chans n) of
        None \<Rightarrow> None
      | Some (Inl e) \<Rightarrow> Some (Inl (Failed e), x)
      | Some (Inr (t, _)) \<Rightarrow>
          Some (Inr (), x\<lparr>ex_conn := (shared t)\<lparr>receipt_counter := receipt_counter (ex_conn x)\<rparr>\<rparr>))"

definition close_call :: "('q, outbound) try_send \<Rightarrow> ('c, 'q) answer \<Rightarrow> ('c, 'q, unit) call" where
  "close_call tso answer =
     await (\<lambda>s. map_option (\<lambda>(r, s, _). (r, s)) (close_conn tso (fst answer) (snd answer) s))"

text \<open>The sessions of the smaller programs.\<close>

definition local_session :: "(duration \<Rightarrow> string) \<Rightarrow> ('c, 'q) net \<Rightarrow> ('c, 'q, unit) call" where
  "local_session dur_text n =
     open_session dur_text ''127.0.0.1:61613'' ''guest'' ''guest'' DEFAULT_HEARTBEAT n"

text \<open>\<^verbatim>\<open>while let Some(frame) = sub.next().await\<close> around a body.\<close>

fun while_next ::
  "('c \<Rightarrow> frame option poll \<times> 'c) \<Rightarrow> subscription \<Rightarrow> (frame \<Rightarrow> ('c, 'q, unit) call) \<Rightarrow>
   (('c, 'q) conn \<Rightarrow> ('c, 'q) conn) list \<Rightarrow> ('c, 'q, unit) call" where
  "while_next tr sn act [] x = None"
| "while_next tr sn act (mid # ws) x =
     (case poll_next tr sn (mid (ex_conn x)) of
        (Pending, s) \<Rightarrow> while_next tr sn act ws (x\<lparr>ex_conn := s\<rparr>)
      | (Ready None, s) \<Rightarrow> Some (Inr (), x\<lparr>ex_conn := s\<rparr>)
      | (Ready (Some f), s) \<Rightarrow>
          and_then (act f) (\<lambda>_. while_next tr sn act ws) (x\<lparr>ex_conn := s\<rparr>))"

section \<open>The small programs\<close>

definition main_send where
  "main_send dur_text tso n answer =
     steps
       [local_session dur_text n,
        await (send_text tso ''/queue/test'' ''hello from iridium-stomp''),
        say [Out ''Message sent''],
        close_call tso answer]"

definition order_body :: string where
  "order_body =
     ''{'' @ [CHR 0x22] @ ''event'' @ [CHR 0x22] @ '': '' @ [CHR 0x22] @ ''order_placed'' @ [CHR 0x22] @
     '', '' @ [CHR 0x22] @ ''id'' @ [CHR 0x22] @ '': 42}''"

definition main_send_advanced where
  "main_send_advanced dur_text tso n answer =
     steps
       [local_session dur_text n,
        await (send_frame tso
          (set_body order_body
            (with_header ''content-type'' ''application/json''
              (with_header ''destination'' ''/queue/test'' (frame_new ''SEND''))))),
        say [Out ''Message sent''],
        close_call tso answer]"

definition main_listen where
  "main_listen dur_text mk tso tr n ws answer =
     and_then (local_session dur_text n) (\<lambda>_.
     and_then (await (subscribe mk tso ''/queue/test'' Auto)) (\<lambda>sub.
     steps
       [say [Out ''Listening on /queue/test ...''],
        while_next tr sub (\<lambda>f. say [Out (''Received: '' @ display_frame f)]) ws,
        close_call tso answer]))"

definition main_subscribe where
  "main_subscribe dur_text mk tso tr n ws answer =
     and_then (local_session dur_text n) (\<lambda>_.
     and_then (await (subscribe_with_options mk tso ''/queue/example-durable'' Client subscription_options_new)) (\<lambda>sub.
     steps
       [say [Out (''subscribed id='' @ handle_id sub @ '' dest='' @ handle_destination sub)],
        while_next tr sub
          (\<lambda>f. steps
             [say [Out (''received frame:'' @ [LF] @ display_frame f)],
              await (handle_ack_frame tso sub f),
              say [Out (''acked message-id='' @ unwrap_or [] (get_header f ''message-id''))]]) ws,
        await (\<lambda>s. map_option (\<lambda>(r, _, s). (r, s)) (handle_unsubscribe tso sub s)),
        close_call tso answer]))"

definition main_subscribe_with_headers where
  "main_subscribe_with_headers dur_text mk tso tr n ws =
     and_then (local_session dur_text n) (\<lambda>_.
     and_then (await (subscribe_with_headers mk tso ''/queue/example'' Client [(''example-header'', ''value'')])) (\<lambda>sub.
     while_next tr sub (\<lambda>f. say [Out (''received frame:'' @ [LF] @ display_frame f)]) ws))"

section \<open>Transactions\<close>

definition in_transaction :: "string \<Rightarrow> string \<Rightarrow> frame" where
  "in_transaction tx_id text =
     set_body text
       (with_header ''transaction'' tx_id
         (with_header ''destination'' ''/queue/test'' (frame_new ''SEND'')))"

definition transaction_calls ::
  "('q, outbound) try_send \<Rightarrow> ('c, 'q) answer \<Rightarrow> ('c, 'q, unit) call list" where
  "transaction_calls tso answer =
     (let tx_id = ''tx-example-1''; tx_id_2 = ''tx-example-2'' in
      [await (begin_tx tso tx_id),
       say [Out (''Transaction '' @ tx_id @ '' started'')],
       await (send_frame tso (in_transaction tx_id ''message 1 in transaction'')),
       say [Out ''Sent message 1 in transaction''],
       await (send_frame tso (in_transaction tx_id ''message 2 in transaction'')),
       say [Out ''Sent message 2 in transaction''],
       await (commit_tx tso tx_id),
       say [Out (''Transaction '' @ tx_id @ '' committed'')],
       await (begin_tx tso tx_id_2),
       say [Out (LF # ''Transaction '' @ tx_id_2 @ '' started'')],
       await (send_frame tso (in_transaction tx_id_2 ''this message will be aborted'')),
       say [Out (''Sent message in transaction '' @ tx_id_2 @ '' (will be aborted)'')],
       await (abort_tx tso tx_id_2),
       say [Out (''Transaction '' @ tx_id_2 @ '' aborted'')],
       close_call tso answer])"

definition main_transactions where
  "main_transactions dur_text tso n answer =
     steps (local_session dur_text n # transaction_calls tso answer)"

section \<open>Several subscriptions\<close>

primrec subscribe_each ::
  "(nat \<Rightarrow> 'c) \<Rightarrow> ('q, outbound) try_send \<Rightarrow> string list \<Rightarrow> subscription list \<Rightarrow>
   ('c, 'q, subscription list) call" where
  "subscribe_each mk tso [] subs = give subs"
| "subscribe_each mk tso (dest # ds) subs =
     and_then (await (subscribe mk tso dest ClientIndividual)) (\<lambda>sub.
     and_then (say [Out (''Subscribed (id='' @ handle_id sub @ '') -> '' @ dest)]) (\<lambda>_.
     subscribe_each mk tso ds (subs @ [sub])))"

definition lowered_header :: "frame \<Rightarrow> string \<Rightarrow> string option" where
  "lowered_header f name =
     map_option snd (List.find (\<lambda>(k, _). to_lowercase k = name) (headers f))"

definition merged_message ::
  "(io_error \<Rightarrow> string) \<Rightarrow> ('q, outbound) try_send \<Rightarrow> frame \<Rightarrow> ('c, 'q, unit) call" where
  "merged_message io_text tso f =
     and_then
       (say [Out (''['' @ unwrap_or ''unknown'' (lowered_header f ''destination'') @ ''] '' @
                  unwrap_or ''<binary>'' (from_utf8 (body f)))])
       (\<lambda>_ x. case lowered_header f ''subscription'' of
          None \<Rightarrow> give () x
        | Some sid \<Rightarrow>
            (case ack_frame tso sid f (ex_conn x) of
               None \<Rightarrow> None
             | Some (Inl e, s) \<Rightarrow>
                 say [Err (''ACK failed: '' @ display_conn_error io_text e)] (x\<lparr>ex_conn := s\<rparr>)
             | Some (Inr _, s) \<Rightarrow> give () (x\<lparr>ex_conn := s\<rparr>)))"

text \<open>\<^verbatim>\<open>next_frame\<close>, polled, and the task that prints broker errors.\<close>

definition poll_inbound ::
  "('c \<Rightarrow> frame option poll \<times> 'c) \<Rightarrow> ('c, 'q) conn \<Rightarrow> received_frame option poll \<times> ('c, 'q) conn" where
  "poll_inbound tr s =
     (case poll_chan tr inbound_chan s of
        (Pending, s) \<Rightarrow> (Pending, s)
      | (Ready r, s) \<Rightarrow> (Ready (map_option classify_inbound r), s))"

definition watched_error :: "received_frame \<Rightarrow> printed list" where
  "watched_error rf =
     (case rf of
        Received _ \<Rightarrow> []
      | ReceivedError e \<Rightarrow>
          if get_header (err_frame e) ''x-abandoned'' \<noteq> None
          then [Err (''Subscription abandoned after repeated errors: '' @ err_message e)]
          else [Err (''Broker error: '' @ err_message e)])"

text \<open>
  The \<^verbatim>\<open>select!\<close> of the message loop and \<^verbatim>\<open>ctrl_c\<close>, with the error task beside it: what happens next,
  after what the rest of the program did. \<open>merge\<close> polls the merged stream \<open>m\<close>. The
  interrupt comes between two messages.
\<close>

datatype ('c, 'q) happening =
    Polled "('c, 'q) conn \<Rightarrow> ('c, 'q) conn"
  | Watched "('c, 'q) conn \<Rightarrow> ('c, 'q) conn"
  | Interrupt "('c, 'q) conn \<Rightarrow> ('c, 'q) conn"

fun multi_loop ::
  "(io_error \<Rightarrow> string) \<Rightarrow> ('q, outbound) try_send \<Rightarrow> ('c \<Rightarrow> frame option poll \<times> 'c) \<Rightarrow>
   ('m \<Rightarrow> ('c, 'q) conn \<Rightarrow> frame option poll \<times> 'm \<times> ('c, 'q) conn) \<Rightarrow>
   ('c, 'q) happening list \<Rightarrow> 'm \<Rightarrow> ('c, 'q, unit) call" where
  "multi_loop io_text tso tr merge [] m x = None"
| "multi_loop io_text tso tr merge (Polled mid # hs) m x =
     (case merge m (mid (ex_conn x)) of
        (Pending, m, s) \<Rightarrow> multi_loop io_text tso tr merge hs m (x\<lparr>ex_conn := s\<rparr>)
      | (Ready None, m, s) \<Rightarrow> Some (Inr (), x\<lparr>ex_conn := s\<rparr>)
      | (Ready (Some f), m, s) \<Rightarrow>
          and_then (merged_message io_text tso f) (\<lambda>_. multi_loop io_text tso tr merge hs m)
            (x\<lparr>ex_conn := s\<rparr>))"
| "multi_loop io_text tso tr merge (Watched mid # hs) m x =
     (case poll_inbound tr (mid (ex_conn x)) of
        (Ready (Some rf), s) \<Rightarrow>
          and_then (say (watched_error rf)) (\<lambda>_. multi_loop io_text tso tr merge hs m) (x\<lparr>ex_conn := s\<rparr>)
      | (_, s) \<Rightarrow> multi_loop io_text tso tr merge hs m (x\<lparr>ex_conn := s\<rparr>))"
| "multi_loop io_text tso tr merge (Interrupt mid # hs) m x =
     say [Out ''Shutting down...''] (x\<lparr>ex_conn := mid (ex_conn x)\<rparr>)"

definition main_multi_subscribe where
  "main_multi_subscribe dur_text io_text mk tso tr select_all merge n hs answer =
     and_then
       (steps
          [say [Out ''Connecting to 127.0.0.1:61613...''],
           local_session dur_text n,
           say [Out ''Connected.'']]) (\<lambda>_.
     and_then (subscribe_each mk tso [''/queue/orders'', ''/queue/notifications''] []) (\<lambda>subs.
     steps
       [say [Out ''Waiting for messages. Press Ctrl+C to exit.''],
        multi_loop io_text tso tr merge hs (select_all subs),
        close_call tso answer]))"

section \<open>The acknowledgement round trip\<close>

function wait_for ::
  "('c \<Rightarrow> frame option poll \<times> 'c) \<Rightarrow> ('q, outbound) try_send \<Rightarrow> subscription \<Rightarrow> bytes \<Rightarrow>
   ('c, 'q) wake_up list \<Rightarrow> ('c, 'q) conn \<Rightarrow> (frame option \<times> ('c, 'q) conn) option" where
  "wait_for tr tso sn b ws s =
     (case timeout_poll (poll_next tr sn) ws s of
        Some (Some (Some f), ws, s) \<Rightarrow>
          if body f = b then Some (Some f, s)
          else (case handle_ack_frame tso sn f s of
                  None \<Rightarrow> None
                | Some (_, s) \<Rightarrow> wait_for tr tso sn b ws s)
      | Some (_, ws, s) \<Rightarrow> Some (None, s)
      | None \<Rightarrow> None)"
  by pat_completeness auto
termination
  by (relation "measure (\<lambda>(_, _, _, _, ws, _). length ws)") (auto dest: timeout_poll_shorter)

declare wait_for.simps [simp del]

definition USAGE :: string where
  "USAGE =
     ''usage: ack_roundtrip <addr> <login> <passcode> [--by message-id|ack|frame] [--dest <destination>]''"

fun parse_flags :: "string list \<Rightarrow> string \<Rightarrow> string \<Rightarrow> (string \<times> string) option" where
  "parse_flags [] by_what dest = Some (by_what, dest)"
| "parse_flags [flag] by_what dest = None"
| "parse_flags (flag # v # rest) by_what dest =
     (if flag = ''--by'' \<and> v \<in> {''message-id'', ''ack'', ''frame''} then parse_flags rest v dest
      else if flag = ''--dest'' then parse_flags rest by_what v
      else None)"

text \<open>Any part of a program that cannot fail.\<close>

definition running :: "(('c, 'q) conn \<Rightarrow> ('a \<times> ('c, 'q) conn) option) \<Rightarrow> ('c, 'q, 'a) call" where
  "running m x = map_option (\<lambda>(a, s). (Inr a, x\<lparr>ex_conn := s\<rparr>)) (m (ex_conn x))"

definition ack_by ::
  "('q, outbound) try_send \<Rightarrow> string \<Rightarrow> subscription \<Rightarrow> string \<Rightarrow> string \<Rightarrow> frame \<Rightarrow> ('c, 'q) conn \<Rightarrow>
   ((conn_error, unit) result \<times> ('c, 'q) conn) option" where
  "ack_by tso by_what sub message_id ackh f =
     (if by_what = ''message-id'' then handle_ack tso sub message_id
      else if by_what = ''ack'' then handle_ack tso sub ackh
      else handle_ack_frame tso sub f)"

text \<open>What the program meets: its arguments, the process, and for each session the network, its
  clock and the ends of its waits.\<close>

record ('c, 'q) trip =
  tp_args :: "string list"
  tp_pid :: nat
  tp_nanos :: "nat option"
  tp_net1 :: "('c, 'q) net"
  tp_sent :: "('c, 'q) answer"
  tp_wakes1 :: "('c, 'q) wake_up list"
  tp_objection :: "('c, 'q) wake_up list"
  tp_close1 :: "('c, 'q) answer"
  tp_net2 :: "('c, 'q) net"
  tp_wakes2 :: "('c, 'q) wake_up list"
  tp_close2 :: "('c, 'q) answer"

definition header_or_none :: "frame \<Rightarrow> string \<Rightarrow> string" where
  "header_or_none f name = unwrap_or ''<none>'' (get_header f name)"

text \<open>From the message to the end of session 1.\<close>

definition ack_and_close ::
  "('q, outbound) try_send \<Rightarrow> ('c \<Rightarrow> frame option poll \<times> 'c) \<Rightarrow> ('c, 'q) trip \<Rightarrow> string \<Rightarrow>
   subscription \<Rightarrow> frame \<Rightarrow> ('c, 'q, unit) call" where
  "ack_and_close tso tr tp by_what sub f =
     (let message_id = header_or_none f ''message-id''; ackh = header_or_none f ''ack'' in
      steps
        [say [Out (''message-id: '' @ message_id), Out (''ack:        '' @ ackh),
              Out (''same:       '' @ (if message_id = ackh then ''yes'' else ''no''))],
         await (ack_by tso by_what sub message_id ackh f),
         say [Out (''acked by:   '' @ by_what)],
         and_then (running (\<lambda>s. map_option (\<lambda>(r, _, s). (r, s))
                              (timeout_poll (poll_inbound tr) (tp_objection tp) s)))
           (\<lambda>r. case r of
              Some (Some (ReceivedError e)) \<Rightarrow> say [Out (''broker ERROR: '' @ err_message e)]
            | _ \<Rightarrow> say [Out ''broker ERROR: none within 1s'']),
         close_call tso (tp_close1 tp)])"

definition first_session where
  "first_session dur_text mk tso tr tp addr login passcode by_what dest b =
     and_then (open_session dur_text addr login passcode ''0,0'' (tp_net1 tp)) (\<lambda>_.
     and_then (await (subscribe mk tso dest ClientIndividual)) (\<lambda>sub.
     and_then
       (await (send_frame_confirmed tso
          (set_body b (with_header ''destination'' dest (frame_new ''SEND'')))
          (fst (tp_sent tp)) (snd (tp_sent tp)))) (\<lambda>_.
     and_then (running (wait_for tr tso sub b (tp_wakes1 tp))) (\<lambda>found.
     case found of
       Some f \<Rightarrow> ack_and_close tso tr tp by_what sub f
     | None \<Rightarrow>
         and_then (say [Err (''the message never arrived on '' @ dest)]) (\<lambda>_. leave (Exit 2))))))"

definition redelivered_line :: "frame \<Rightarrow> string" where
  "redelivered_line again =
     ''REDELIVERED after reconnect (redelivered: '' @ header_or_none again ''redelivered'' @
     ''): the ACK was ignored''"

definition took_line :: string where
  "took_line = ''not redelivered within 3s: the ACK took''"

definition second_session where
  "second_session dur_text mk tso tr tp addr login passcode dest b =
     and_then (open_session dur_text addr login passcode ''0,0'' (tp_net2 tp)) (\<lambda>_.
     and_then (await (subscribe mk tso dest ClientIndividual)) (\<lambda>sub.
     and_then (running (wait_for tr tso sub b (tp_wakes2 tp))) (\<lambda>found.
     and_then
       (case found of
          Some again \<Rightarrow>
            steps [say [Out (redelivered_line again)], await (handle_ack_frame tso sub again)]
        | None \<Rightarrow> say [Out took_line]) (\<lambda>_.
     and_then (close_call tso (tp_close2 tp)) (\<lambda>_.
     leave (Exit (case found of Some _ \<Rightarrow> 1 | None \<Rightarrow> 0)))))))"

definition unique_body :: "nat \<Rightarrow> nat \<Rightarrow> bytes" where
  "unique_body pid nanos = ''ack-roundtrip '' @ show_nat pid @ '' '' @ show_nat nanos"

definition main_ack_roundtrip ::
  "(duration \<Rightarrow> string) \<Rightarrow> (nat \<Rightarrow> 'c) \<Rightarrow> ('q, outbound) try_send \<Rightarrow>
   ('c \<Rightarrow> frame option poll \<times> 'c) \<Rightarrow> ('c, 'q) trip \<Rightarrow> ('c, 'q, unit) call" where
  "main_ack_roundtrip dur_text mk tso tr tp =
     (let args = tp_args tp;
          usage = and_then (say [Err USAGE]) (\<lambda>_. leave (Exit 2))
      in if length args < 3 then usage
         else
           (case parse_flags (drop 3 args) ''message-id'' ''/queue/iridium-ack-roundtrip'' of
              None \<Rightarrow> usage
            | Some (by_what, dest) \<Rightarrow>
                (case tp_nanos tp of
                   None \<Rightarrow> leave BeforeEpoch
                 | Some nanos \<Rightarrow>
                     let b = unique_body (tp_pid tp) nanos;
                         addr = args ! 0; login = args ! 1; passcode = args ! 2
                     in steps
                          [first_session dur_text mk tso tr tp addr login passcode by_what dest b,
                           second_session dur_text mk tso tr tp addr login passcode dest b])))"

section \<open>The receiver's interface\<close>

locale frame_receiver =
  fixes tr :: "'c \<Rightarrow> frame option poll \<times> 'c"
    and queued :: "'c \<Rightarrow> frame list"
    and senders_gone :: "'c \<Rightarrow> bool"
  assumes tr_frame: "queued c = f # fs \<Longrightarrow> \<exists>c'. tr c = (Ready (Some f), c') \<and> queued c' = fs"
    and tr_empty: "queued c = [] \<Longrightarrow>
      \<exists>c'. tr c = (if senders_gone c then Ready None else Pending, c') \<and> queued c' = []"

definition bc_poll :: "frame bounded_chan \<Rightarrow> frame option poll \<times> frame bounded_chan" where
  "bc_poll c =
     (case bc_buf c of [] \<Rightarrow> (Pending, c) | f # fs \<Rightarrow> (Ready (Some f), c\<lparr>bc_buf := fs\<rparr>))"

interpretation bounded_receiver: frame_receiver bc_poll bc_buf "\<lambda>_. False"
  by unfold_locales (auto simp: bc_poll_def)

section \<open>Waiting for one message\<close>

text \<open>The reference: acknowledge every frame of a list, whatever each call answers.\<close>

primrec ack_all ::
  "('q, outbound) try_send \<Rightarrow> subscription \<Rightarrow> frame list \<Rightarrow> ('c, 'q) conn \<Rightarrow> ('c, 'q) conn option" where
  "ack_all tso sn [] s = Some s"
| "ack_all tso sn (f # fs) s =
     (case handle_ack_frame tso sn f s of None \<Rightarrow> None | Some (_, s) \<Rightarrow> ack_all tso sn fs s)"

lemma set_chan_simps [simp]:
  "chans (set_chan r c s) r = c"
  "set_chan r c' (set_chan r c s) = set_chan r c' s"
  by (simp_all add: set_chan_def)

lemma acknowledge_set_chan:
  "acknowledge tso cmd sid i (set_chan r c s) =
     map_option (\<lambda>(x, s). (x, set_chan r c s)) (acknowledge tso cmd sid i s)"
  by (simp add: set_chan_def acknowledge_def send_out_def Let_def
      split: prod.split option.split try_send_result.split)

lemma handle_ack_frame_set_chan:
  "handle_ack_frame tso sn f (set_chan r c s) =
     map_option (\<lambda>(x, s). (x, set_chan r c s)) (handle_ack_frame tso sn f s)"
  by (simp add: handle_ack_frame_def ack_frame_def acknowledge_set_chan split: sum.split)

lemma ack_all_set_chan:
  "ack_all tso sn fs (set_chan r c s) = map_option (set_chan r c) (ack_all tso sn fs s)"
  by (induction fs arbitrary: s) (auto simp: handle_ack_frame_set_chan split: option.split)

lemma wait_for_skip:
  assumes "timeout_poll (poll_next tr sn) ws s = Some (Some (Some f), ws', s')" and "body f \<noteq> b"
  shows "wait_for tr tso sn b ws s =
    (case handle_ack_frame tso sn f s' of
       None \<Rightarrow> None | Some (_, s') \<Rightarrow> wait_for tr tso sn b ws' s')"
  using assms by (subst wait_for.simps) simp

definition arriving :: "chan_id \<Rightarrow> ('c \<Rightarrow> 'c) \<Rightarrow> ('c, 'q) conn \<Rightarrow> ('c, 'q) conn" where
  "arriving r push s = set_chan r (push (chans s r)) s"

context frame_receiver
begin

lemma queued_suffix: "queued c = us @ vs \<Longrightarrow> \<exists>c'. queued c' = vs"
  by (induction us arbitrary: c) (auto dest: tr_frame)

lemma wait_for_spec:
  assumes "queued (chans s (sn_receiver sn)) = q"
    and "length (takeWhile (\<lambda>f. body f \<noteq> b) q) < length ws"
    and "\<forall>w\<in>set ws. fst w = id"
    and "List.find (\<lambda>f. body f = b) q = None \<Longrightarrow> snd (ws ! length q)"
  shows "\<exists>c. queued c = tl (dropWhile (\<lambda>f. body f \<noteq> b) q) \<and>
    wait_for tr tso sn b ws s =
      map_option (\<lambda>s'. (List.find (\<lambda>f. body f = b) q, set_chan (sn_receiver sn) c s'))
        (ack_all tso sn (takeWhile (\<lambda>f. body f \<noteq> b) q) s)"
  using assms
proof (induction q arbitrary: s ws)
  case Nil
  then obtain mid late ws' where ws: "ws = (mid, late) # ws'" "mid = id" "late"
    by (cases ws) (auto simp: id_def)
  from tr_empty [OF Nil(1)] obtain c where c: "queued c = []"
    "tr (chans s (sn_receiver sn)) =
       (if senders_gone (chans s (sn_receiver sn)) then Ready None else Pending, c)"
    by blast
  then show ?case
    by (intro exI [of _ c]) (simp add: wait_for.simps ws poll_next_def poll_chan_def)
next
  case (Cons f q)
  then obtain mid late ws' where ws: "ws = (mid, late) # ws'" "mid = id"
    by (cases ws) (auto simp: id_def)
  from tr_frame [OF Cons(2)] obtain c where c: "queued c = q"
    "tr (chans s (sn_receiver sn)) = (Ready (Some f), c)" by blast
  let ?s = "set_chan (sn_receiver sn) c s"
  have polled: "timeout_poll (poll_next tr sn) ws s = Some (Some (Some f), ws', ?s)"
    by (simp add: ws poll_next_def poll_chan_def c(2))
  show ?case
  proof (cases "body f = b")
    case True
    then show ?thesis using c(1)
      by (intro exI [of _ c]) (simp add: wait_for.simps polled)
  next
    case False
    show ?thesis
    proof (cases "handle_ack_frame tso sn f s")
      case None
      obtain c' where c': "queued c' = tl (dropWhile (\<lambda>f. body f \<noteq> b) q)"
        using suffix_order.trans [OF suffix_tl suffix_dropWhile, of "\<lambda>f. body f \<noteq> b" q] c(1) queued_suffix
        unfolding suffix_def by blast
      with None show ?thesis using False polled
        by (intro exI [of _ c']) (simp add: wait_for_skip [OF polled] handle_ack_frame_set_chan)
    next
      case (Some rs)
      then obtain r s1 where s1: "handle_ack_frame tso sn f s = Some (r, s1)" by (cases rs) auto
      let ?s1 = "set_chan (sn_receiver sn) c s1"
      have "\<exists>c'. queued c' = tl (dropWhile (\<lambda>f. body f \<noteq> b) q) \<and>
        wait_for tr tso sn b ws' ?s1 =
          map_option (\<lambda>s'. (List.find (\<lambda>f. body f = b) q,
              set_chan (sn_receiver sn) c' s'))
            (ack_all tso sn (takeWhile (\<lambda>f. body f \<noteq> b) q) ?s1)"
        by (rule Cons.IH) (use Cons.prems False ws c(1) in \<open>simp_all split: if_splits\<close>)
      then obtain c' where c': "queued c' = tl (dropWhile (\<lambda>f. body f \<noteq> b) q)"
        "wait_for tr tso sn b ws' ?s1 =
          map_option (\<lambda>s'. (List.find (\<lambda>f. body f = b) q,
              set_chan (sn_receiver sn) c' s'))
            (ack_all tso sn (takeWhile (\<lambda>f. body f \<noteq> b) q) ?s1)"
        by blast
      then show ?thesis using False polled s1
        by (intro exI [of _ c'])
          (simp add: wait_for_skip [OF polled] handle_ack_frame_set_chan ack_all_set_chan option.map_comp comp_def)
    qed
  qed
qed

text \<open>
  The same while frames keep arriving: before each wake-up \<open>push\<close> appends some to the channel. When
  the wait comes back, then for the frames there were and those that had arrived by then.
\<close>

lemma wait_for_same_poll:
  "timeout_poll (poll_next tr sn) ws s = timeout_poll (poll_next tr sn) ws' s' \<Longrightarrow>
   wait_for tr tso sn b ws s = wait_for tr tso sn b ws' s'"
  by (simp only: wait_for.simps [of tr tso sn b ws s] wait_for.simps [of tr tso sn b ws' s'])

lemma wait_for_arrivals:
  assumes "\<forall>(push, fs, late)\<in>set as. \<forall>c. queued (push c) = queued c @ fs"
    and "wait_for tr tso sn b (map (\<lambda>(push, fs, late). (arriving (sn_receiver sn) push, late)) as) s =
      Some (r, s')"
  shows "\<exists>n c. n \<le> length as \<and>
    (let frames = queued (chans s (sn_receiver sn)) @ concat (map (\<lambda>(_, fs, _). fs) (take n as)) in
     r = List.find (\<lambda>f. body f = b) frames \<and>
     queued c = tl (dropWhile (\<lambda>f. body f \<noteq> b) frames) \<and>
     map_option (set_chan (sn_receiver sn) c) (ack_all tso sn (takeWhile (\<lambda>f. body f \<noteq> b) frames) s) =
       Some s')"
  using assms
proof (induction as arbitrary: s)
  case Nil
  then show ?case by (subst (asm) wait_for.simps) simp
next
  case (Cons a as)
  obtain push fs late where a: "a = (push, fs, late)" by (rule prod_cases3)
  let ?r = "sn_receiver sn"
  let ?ws = "map (\<lambda>(push, fs, late). (arriving ?r push, late)) as"
  let ?all = "\<lambda>q n. q @ concat (map (\<lambda>(_, fs, _). fs) (take n as))"
  have quiet: "\<forall>(push, fs, late)\<in>set as. \<forall>c. queued (push c) = queued c @ fs"
    and pushed: "queued (push (chans s ?r)) = queued (chans s ?r) @ fs"
    using Cons.prems(1) by (auto simp: a)
  have run: "wait_for tr tso sn b ((arriving ?r push, late) # ?ws) s = Some (r, s')"
    using Cons.prems(2) by (simp add: a)
  show ?case
  proof (cases "queued (push (chans s ?r))")
    case Nil
    from tr_empty [OF this] obtain p c where c: "tr (push (chans s ?r)) = (p, c)" "queued c = []"
      and p: "p = Pending \<or> p = Ready None" by (auto split: if_splits)
    have polled: "poll_next tr sn (arriving ?r push s) = (p, set_chan ?r c s)"
      by (simp add: poll_next_def poll_chan_def arriving_def c(1))
    have none: "queued (chans s ?r) = []" "fs = []" using Nil pushed by auto
    show ?thesis
    proof (cases "p = Pending \<and> \<not> late")
      case True
      with polled have "wait_for tr tso sn b ?ws (set_chan ?r c s) = Some (r, s')"
        using run wait_for_same_poll [where ws = "(arriving ?r push, late) # ?ws" and s = s and
          ws' = ?ws and s' = "set_chan ?r c s" and sn = sn and tso = tso and b = b]
        by simp
      from Cons.IH [OF quiet this] obtain n c' where n: "n \<le> length as"
        and IH: "r = List.find (\<lambda>f. body f = b) (?all [] n)"
          "queued c' = tl (dropWhile (\<lambda>f. body f \<noteq> b) (?all [] n))"
          "map_option (set_chan ?r c') (ack_all tso sn (takeWhile (\<lambda>f. body f \<noteq> b) (?all [] n))
            (set_chan ?r c s)) = Some s'"
        by (auto simp: Let_def c(2))
      then show ?thesis
        by (intro exI [of _ "Suc n"] exI [of _ c'])
          (simp add: a none Let_def ack_all_set_chan option.map_comp comp_def)
    next
      case False
      with polled p have "timeout_poll (poll_next tr sn) ((arriving ?r push, late) # ?ws) s =
          Some (if p = Pending then None else Some None, ?ws, set_chan ?r c s)" by auto
      with run have "r = None" "s' = set_chan ?r c s"
        by (auto simp: wait_for.simps split: if_splits)
      then show ?thesis using c(2)
        by (intro exI [of _ 1] exI [of _ c]) (simp add: a none Let_def)
    qed
  next
    case (Cons f q)
    from tr_frame [OF this] obtain c where c: "tr (push (chans s ?r)) = (Ready (Some f), c)" "queued c = q"
      by blast
    let ?s = "set_chan ?r c s"
    have polled: "timeout_poll (poll_next tr sn) ((arriving ?r push, late) # ?ws) s =
        Some (Some (Some f), ?ws, ?s)"
      by (simp add: poll_next_def poll_chan_def arriving_def c(1))
    have frames: "queued (chans s ?r) @ fs = f # q" using Cons pushed by simp
    show ?thesis
    proof (cases "body f = b")
      case True
      with polled run have "r = Some f" "s' = ?s" by (auto simp: wait_for.simps)
      then show ?thesis using c(2) True
        by (intro exI [of _ 1] exI [of _ c]) (simp add: a frames Let_def)
    next
      case False
      with run obtain x s1 where s1: "handle_ack_frame tso sn f s = Some (x, s1)"
        and rest: "wait_for tr tso sn b ?ws (set_chan ?r c s1) = Some (r, s')"
        by (auto simp: wait_for_skip [OF polled] handle_ack_frame_set_chan split: option.splits)
      from Cons.IH [OF quiet rest] obtain n c' where n: "n \<le> length as"
        and IH: "r = List.find (\<lambda>f. body f = b) (?all q n)"
          "queued c' = tl (dropWhile (\<lambda>f. body f \<noteq> b) (?all q n))"
          "map_option (set_chan ?r c') (ack_all tso sn (takeWhile (\<lambda>f. body f \<noteq> b) (?all q n))
            (set_chan ?r c s1)) = Some s'"
        by (auto simp: Let_def c(2))
      have all: "queued (chans s ?r) @ concat (map (\<lambda>(_, fs, _). fs) (take (Suc n) (a # as))) =
          f # ?all q n"
        using frames by (simp add: a flip: append_assoc)
      show ?thesis using n IH False s1
        unfolding Let_def
        by (intro exI [of _ "Suc n"] exI [of _ c'])
          (simp only: all, simp add: ack_all_set_chan option.map_comp comp_def)
    qed
  qed
qed

end

section \<open>Reasoning about programs\<close>

text \<open>
  From a state with \<open>P\<close> a program that ends does so with a value and \<open>Q\<close>, or by leaving
  \<^verbatim>\<open>main\<close> with \<open>E\<close>.
\<close>

definition triple ::
  "(('c, 'q) ex \<Rightarrow> bool) \<Rightarrow> ('c, 'q, 'a) call \<Rightarrow> ('a \<Rightarrow> ('c, 'q) ex \<Rightarrow> bool) \<Rightarrow>
   (stop \<Rightarrow> ('c, 'q) ex \<Rightarrow> bool) \<Rightarrow> bool" where
  "triple P m Q E \<longleftrightarrow>
     (\<forall>x r x'. P x \<longrightarrow> m x = Some (r, x') \<longrightarrow> (case r of Inl e \<Rightarrow> E e x' | Inr a \<Rightarrow> Q a x'))"

lemma tripleD:
  "triple P m Q E \<Longrightarrow> m x = Some (r, x') \<Longrightarrow> P x \<Longrightarrow> case r of Inl e \<Rightarrow> E e x' | Inr a \<Rightarrow> Q a x'"
  by (simp add: triple_def)

lemma triple_give [intro]: "(\<And>x. P x \<Longrightarrow> Q a x) \<Longrightarrow> triple P (give a) Q E"
  by (simp add: triple_def give_def)

lemma triple_leave [intro]: "(\<And>x. P x \<Longrightarrow> E e x) \<Longrightarrow> triple P (leave e) Q E"
  by (simp add: triple_def leave_def)

lemma triple_say [intro]:
  "(\<And>x. P x \<Longrightarrow> Q () (x\<lparr>ex_out := ex_out x @ ps\<rparr>)) \<Longrightarrow> triple P (say ps) Q E"
  by (simp add: triple_def say_def)

lemma triple_then:
  assumes "triple P m R E" and "\<And>a. triple (R a) (k a) Q E"
  shows "triple P (and_then m k) Q E"
  unfolding triple_def
proof (intro allI impI)
  fix x r x' assume P: "P x" and run: "and_then m k x = Some (r, x')"
  then obtain q y where m: "m x = Some (q, y)" by (auto simp: and_then_def split: option.splits)
  from tripleD [OF assms(1) m P] run m assms(2)
  show "case r of Inl e \<Rightarrow> E e x' | Inr a \<Rightarrow> Q a x'"
    by (cases q) (auto simp: and_then_def dest: tripleD)
qed

lemma triple_steps_Nil: "(\<And>x. P x \<Longrightarrow> Q () x) \<Longrightarrow> triple P (steps []) Q E"
  by (simp add: triple_give)

lemma triple_steps_Cons:
  "triple P m (\<lambda>_. R) E \<Longrightarrow> triple R (steps ms) Q E \<Longrightarrow> triple P (steps (m # ms)) Q E"
  by (auto intro: triple_then)

lemma triple_weaken:
  "triple P' m Q' E' \<Longrightarrow> (\<And>x. P x \<Longrightarrow> P' x) \<Longrightarrow> (\<And>a x. Q' a x \<Longrightarrow> Q a x) \<Longrightarrow>
   (\<And>e x. E' e x \<Longrightarrow> E e x) \<Longrightarrow> triple P m Q E"
  unfolding triple_def by (metis old.sum.simps(5,6) sum.exhaust)

lemma triple_await:
  assumes "\<And>x r s. P x \<Longrightarrow> m (ex_rest x (ex_calls x) (ex_conn x)) = Some (r, s) \<Longrightarrow>
    (case r of
       Inl e \<Rightarrow> E (Failed e) (x\<lparr>ex_conn := s, ex_calls := ex_calls x + 1\<rparr>)
     | Inr a \<Rightarrow> Q a (x\<lparr>ex_conn := s, ex_calls := ex_calls x + 1\<rparr>))"
  shows "triple P (await m) Q E"
  unfolding triple_def
proof (intro allI impI)
  fix x r x' assume P: "P x" and run: "await m x = Some (r, x')"
  then obtain q s where m: "m (ex_rest x (ex_calls x) (ex_conn x)) = Some (q, s)"
    and r: "r = map_sum Failed id q" "x' = x\<lparr>ex_conn := s, ex_calls := ex_calls x + 1\<rparr>"
    by (auto simp: await_def)
  from assms [OF P m] show "case r of Inl e \<Rightarrow> E e x' | Inr a \<Rightarrow> Q a x'" by (cases q) (simp_all add: r)
qed

lemma triple_running:
  assumes "\<And>x a s. P x \<Longrightarrow> m (ex_conn x) = Some (a, s) \<Longrightarrow> Q a (x\<lparr>ex_conn := s\<rparr>)"
  shows "triple P (running m) Q E"
  using assms by (auto simp: triple_def running_def)

section \<open>The verdict of the round trip\<close>

lemma wait_for_body:
  "wait_for tr tso sn b ws s = Some (Some f, s') \<Longrightarrow> body f = b"
proof (induction "length ws" arbitrary: ws s rule: less_induct)
  case less
  obtain r ws' s1 where p: "timeout_poll (poll_next tr sn) ws s = Some (r, ws', s1)"
    using less.prems by (subst (asm) wait_for.simps) (auto split: option.splits)
  have shorter: "length ws' < length ws" by (rule timeout_poll_shorter [OF p])
  obtain g where r: "r = Some (Some g)"
    using less.prems by (subst (asm) wait_for.simps) (auto simp: p split: option.splits)
  show ?case
  proof (cases "body g = b")
    case True
    with less.prems show ?thesis by (subst (asm) wait_for.simps) (simp add: p r)
  next
    case False
    with less.prems obtain q s2 where "handle_ack_frame tso sn g s1 = Some (q, s2)"
        and "wait_for tr tso sn b ws' s2 = Some (Some f, s')"
      by (auto simp: wait_for_skip [OF p [unfolded r]] split: option.splits)
    from less.hyps [OF shorter this(2)] show ?thesis .
  qed
qed

text \<open>What a program that only prints and calls keeps: any fact about its log, errors being the library's.\<close>

abbreviation failed :: "stop \<Rightarrow> bool" where "failed e \<equiv> \<exists>c. e = Failed c"

lemma triple_log_await:
  "(\<And>c x. E (Failed c) x) \<Longrightarrow> triple (\<lambda>x. L (ex_out x)) (await m) (\<lambda>_ x. L (ex_out x)) E"
  by (rule triple_await) (simp split: sum.splits)

lemma triple_log_open:
  "(\<And>c x. E (Failed c) x) \<Longrightarrow>
   triple (\<lambda>x. L (ex_out x)) (open_session dur_text addr login passcode hb n) (\<lambda>_ x. L (ex_out x)) E"
  by (auto simp: triple_def open_session_def split: option.splits sum.splits)

lemma triple_log_close:
  "(\<And>c x. E (Failed c) x) \<Longrightarrow>
   triple (\<lambda>x. L (ex_out x)) (close_call tso answer) (\<lambda>_ x. L (ex_out x)) E"
  unfolding close_call_def by (rule triple_log_await)

lemmas triple_log = triple_log_await triple_log_open triple_log_close

definition early :: "bytes \<Rightarrow> stop \<Rightarrow> ('c, 'q) ex \<Rightarrow> bool" where
  "early b e x \<longleftrightarrow>
     failed e \<or> e = BeforeEpoch \<or>
     e = Exit 0 \<and> last (ex_out x) = Out took_line \<or>
     e = Exit 1 \<and> (\<exists>f. body f = b \<and> last (ex_out x) = Out (redelivered_line f)) \<or>
     e = Exit 2 \<and> (last (ex_out x) = Err USAGE \<or>
       (\<exists>dest. last (ex_out x) = Err (''the message never arrived on '' @ dest)))"

lemma early_failed [simp]: "early b (Failed c) x"
  by (simp add: early_def)

abbreviation "anywhere \<equiv> \<lambda>x. True"

lemma triple_any_await: "triple anywhere (await m) (\<lambda>_. anywhere) (early b)"
  by (rule triple_log_await [where L = "\<lambda>_. True"]) simp

lemma triple_any_open: "triple anywhere (open_session d a l p h n) (\<lambda>_. anywhere) (early b)"
  by (rule triple_log_open [where L = "\<lambda>_. True"]) simp

lemma triple_any_close: "triple anywhere (close_call tso answer) (\<lambda>_. anywhere) (early b)"
  by (rule triple_log_close [where L = "\<lambda>_. True"]) simp

lemma triple_wait_for:
  "triple anywhere (running (wait_for tr tso sn b ws)) (\<lambda>r _. \<forall>f. r = Some f \<longrightarrow> body f = b) E"
  by (rule triple_running) (auto dest: wait_for_body)

lemma triple_any_say: "triple anywhere (say ps) (\<lambda>_. anywhere) E"
  by (rule triple_say) simp

lemmas triple_any = triple_any_await triple_any_open triple_any_close triple_any_say

lemma ack_and_close_early:
  "triple anywhere (ack_and_close tso tr tp by_what sub f) (\<lambda>_. anywhere) (early b)"
  unfolding ack_and_close_def Let_def
  by (intro triple_steps_Cons [OF triple_any_say] triple_steps_Cons [OF triple_any_await]
        triple_steps_Cons [OF triple_any_close] triple_steps_Nil
        triple_steps_Cons [where R = anywhere] triple_then [where R = "\<lambda>_. anywhere"])
    (auto intro!: triple_running triple_any_say split: option.split received_frame.split)

lemma first_session_early:
  "triple anywhere (first_session dur_text mk tso tr tp addr login passcode by_what dest b)
     (\<lambda>_. anywhere) (early b)"
  unfolding first_session_def
proof (intro triple_then [OF triple_any_open] triple_then [OF triple_any_await]
    triple_then [OF triple_wait_for])
  fix sub found
  show "triple (\<lambda>_. \<forall>f. found = Some f \<longrightarrow> body f = b)
    (case found of
       Some f \<Rightarrow> ack_and_close tso tr tp by_what sub f
     | None \<Rightarrow> and_then (say [Err (''the message never arrived on '' @ dest)]) (\<lambda>_. leave (Exit 2)))
    (\<lambda>_. anywhere) (early b)"
  proof (cases found)
    case None
    have "triple anywhere (say [Err (''the message never arrived on '' @ dest)])
      (\<lambda>_ x. last (ex_out x) = Err (''the message never arrived on '' @ dest)) (early b)"
      by (rule triple_say) simp
    moreover have "triple (\<lambda>x. last (ex_out x) = Err (''the message never arrived on '' @ dest))
      (leave (Exit 2)) (\<lambda>_. anywhere) (early b)"
      by (rule triple_leave) (auto simp: early_def)
    ultimately show ?thesis using None by (auto intro: triple_then)
  next
    case (Some f)
    then show ?thesis
      by (auto intro: triple_weaken [OF ack_and_close_early [of tso tr tp by_what sub f b]])
  qed
qed

lemma second_session_early:
  "triple anywhere (second_session dur_text mk tso tr tp addr login passcode dest b)
     (\<lambda>_ _. False) (early b)"
  unfolding second_session_def
proof (intro triple_then [OF triple_any_open] triple_then [OF triple_any_await]
    triple_then [OF triple_wait_for])
  fix sub found
  let ?line = "case found of Some again \<Rightarrow> Out (redelivered_line again) | None \<Rightarrow> Out took_line"
  let ?L = "\<lambda>ps. (\<forall>f. found = Some f \<longrightarrow> body f = b) \<and> last ps = ?line"
  show "triple (\<lambda>_. \<forall>f. found = Some f \<longrightarrow> body f = b)
    (and_then
       (case found of
          Some again \<Rightarrow>
            steps [say [Out (redelivered_line again)], await (handle_ack_frame tso sub again)]
        | None \<Rightarrow> say [Out took_line]) (\<lambda>_.
     and_then (close_call tso (tp_close2 tp)) (\<lambda>_.
     leave (Exit (case found of Some _ \<Rightarrow> 1 | None \<Rightarrow> 0)))))
    (\<lambda>_ _. False) (early b)"
  proof (rule triple_then [where R = "\<lambda>_ x. ?L (ex_out x)"])
    show "triple (\<lambda>_. \<forall>f. found = Some f \<longrightarrow> body f = b)
      (case found of
         Some again \<Rightarrow>
           steps [say [Out (redelivered_line again)], await (handle_ack_frame tso sub again)]
       | None \<Rightarrow> say [Out took_line]) (\<lambda>_ x. ?L (ex_out x)) (early b)"
    proof (cases found)
      case None
      then show ?thesis by (auto intro: triple_say)
    next
      case (Some again)
      have "triple (\<lambda>_. \<forall>f. found = Some f \<longrightarrow> body f = b)
        (steps [say [Out (redelivered_line again)], await (handle_ack_frame tso sub again)])
        (\<lambda>_ x. ?L (ex_out x)) (early b)"
        by (rule triple_steps_Cons [where R = "\<lambda>x. ?L (ex_out x)"], rule triple_say, simp add: Some,
            rule triple_steps_Cons [OF triple_log_await [where L = ?L]], simp,
            rule triple_steps_Nil)
      with Some show ?thesis by simp
    qed
    show "triple (\<lambda>x. ?L (ex_out x))
      (and_then (close_call tso (tp_close2 tp)) (\<lambda>_.
        leave (Exit (case found of Some _ \<Rightarrow> 1 | None \<Rightarrow> 0)))) (\<lambda>_ _. False) (early b)"
      by (rule triple_then [OF triple_log_close [where L = ?L]], simp, rule triple_leave)
        (auto simp: early_def split: option.splits)
  qed
qed

lemma ack_roundtrip_early:
  "triple anywhere (main_ack_roundtrip dur_text mk tso tr tp) (\<lambda>_ _. False)
     (early (unique_body (tp_pid tp) (the (tp_nanos tp))))"
proof -
  have usage: "triple anywhere (and_then (say [Err USAGE]) (\<lambda>_. leave (Exit 2))) Q (early b)" for Q b
    by (rule triple_then [where R = "\<lambda>_ x. last (ex_out x) = Err USAGE"])
      (auto simp: early_def)
  have epoch: "triple anywhere (leave BeforeEpoch) Q (early b)" for Q b
    by (auto simp: early_def)
  show ?thesis
    unfolding main_ack_roundtrip_def Let_def
    by (cases "tp_nanos tp")
      (auto simp del: steps.simps split: option.split intro: usage epoch
        triple_steps_Cons [OF first_session_early]
        triple_steps_Cons [OF second_session_early [THEN triple_weaken]] triple_steps_Nil)
qed

section \<open>The message loop does not fail\<close>

lemma merged_message_ok: "merged_message io_text tso f x = Some (r, x') \<Longrightarrow> r = Inr ()"
  by (auto simp: merged_message_def and_then_def say_def give_def split: option.splits sum.splits)

lemma multi_loop_ok: "multi_loop io_text tso tr merge hs m x = Some (r, x') \<Longrightarrow> r = Inr ()"
proof (induction hs arbitrary: m x)
  case (Cons h hs)
  show ?case
  proof (cases h)
    case (Polled mid)
    obtain p m' s where p: "merge m (mid (ex_conn x)) = (p, m', s)" by (rule prod_cases3)
    show ?thesis
    proof (cases p)
      case Pending
      with Cons Polled p show ?thesis by simp
    next
      case (Ready y)
      with Cons Polled p show ?thesis
        by (cases y) (auto simp: and_then_def split: option.splits sum.splits dest: merged_message_ok)
    qed
  next
    case (Watched mid)
    obtain p s where p: "poll_inbound tr (mid (ex_conn x)) = (p, s)" by (rule prod.exhaust)
    with Cons Watched show ?thesis
      by (cases p) (auto simp: and_then_def say_def split: option.splits)
  next
    case (Interrupt mid)
    with Cons show ?thesis by (simp add: say_def)
  qed
qed simp

section \<open>What the transaction program queues\<close>

text \<open>An outbound frame by its command and its transaction.\<close>

definition brief :: "outbound \<Rightarrow> string \<times> string option" where
  "brief out =
     (case out of
        Item (Frame f) \<Rightarrow> (command f, get_header f ''transaction'')
      | AckOut f _ \<Rightarrow> (command f, get_header f ''transaction'')
      | Item Heartbeat \<Rightarrow> ([], None))"

definition transaction_script :: "(string \<times> string option) list" where
  "transaction_script =
     [(''BEGIN'', Some ''tx-example-1''), (''SEND'', Some ''tx-example-1''),
      (''SEND'', Some ''tx-example-1''), (''COMMIT'', Some ''tx-example-1''),
      (''BEGIN'', Some ''tx-example-2''), (''SEND'', Some ''tx-example-2''),
      (''ABORT'', Some ''tx-example-2''), (''DISCONNECT'', None)]"

text \<open>The first \<open>k\<close> frames of the script were put in, on a queue that began as \<open>base\<close>.\<close>

definition put_in ::
  "('q \<Rightarrow> outbound list) \<Rightarrow> (string \<times> string option) list \<Rightarrow> nat \<Rightarrow> ('c, 'q) conn \<Rightarrow> bool" where
  "put_in log base k s \<longleftrightarrow> map brief (log (outbound_tx s)) = base @ take k transaction_script"

definition rest_quiet :: "('q \<Rightarrow> outbound list) \<Rightarrow> ('c, 'q) ex \<Rightarrow> bool" where
  "rest_quiet log x \<longleftrightarrow> (\<forall>n s. log (outbound_tx (ex_rest x n s)) = log (outbound_tx s))"

definition at_step where
  "at_step log base k x \<longleftrightarrow> rest_quiet log x \<and> put_in log base k (ex_conn x)"

definition cut_short where
  "cut_short log base e x \<longleftrightarrow> failed e \<and> (\<exists>k \<le> 8. put_in log base k (ex_conn x))"

lemma length_script: "length transaction_script = 8"
  by (simp add: transaction_script_def)

lemma brief_simps:
  "brief (Item (Frame (with_header ''transaction'' t (frame_new c)))) = (c, Some t)"
  "brief (Item (Frame (in_transaction t text))) = (''SEND'', Some t)"
  by (simp_all add: brief_def in_transaction_def with_header_def frame_new_def set_body_def get_header_def
      eq_ignore_ascii_case_def ascii_lower_def)

context outbound_channel
begin

lemma triple_queue:
  assumes "\<And>s. m s = send_out tso out s" and "brief out = transaction_script ! k" and "k < 8"
  shows "triple (at_step out_queued base k) (await m) (\<lambda>_. at_step out_queued base (Suc k))
    (cut_short out_queued base)"
proof (rule triple_await)
  fix x r s
  assume at: "at_step out_queued base k x"
    and run: "m (ex_rest x (ex_calls x) (ex_conn x)) = Some (r, s)"
  let ?s = "ex_rest x (ex_calls x) (ex_conn x)"
  have put: "put_in out_queued base k ?s"
    using at by (simp add: at_step_def rest_quiet_def put_in_def)
  have next_frame: "take (Suc k) transaction_script = take k transaction_script @ [brief out]"
    using assms(2,3) by (simp add: take_Suc_conv_app_nth length_script)
  show "case r of
      Inl e \<Rightarrow> cut_short out_queued base (Failed e) (x\<lparr>ex_conn := s, ex_calls := ex_calls x + 1\<rparr>)
    | Inr _ \<Rightarrow> at_step out_queued base (Suc k) (x\<lparr>ex_conn := s, ex_calls := ex_calls x + 1\<rparr>)"
    using run assms(1) [of ?s]
  proof (cases rule: send_out_cases [of out ?s])
    case Waits
    with run assms(1) show ?thesis by simp
  next
    case (Queued q)
    with run assms(1) [of ?s] have "r = Inr ()" "s = ?s\<lparr>outbound_tx := q\<rparr>" by auto
    with Queued(2) put at next_frame show ?thesis
      by (simp add: at_step_def put_in_def rest_quiet_def)
  next
    case Gone
    with run assms(1) [of ?s] have "r = Inl (Protocol ''send channel closed'')" "s = ?s" by auto
    with put assms(3) show ?thesis by (auto simp: cut_short_def intro!: exI [of _ k])
  qed
qed

lemma triple_told:
  "triple (at_step out_queued base k) (say ps) (\<lambda>_. at_step out_queued base k) E"
  by (rule triple_say) (simp add: at_step_def rest_quiet_def)

lemma send_out_log:
  "send_out tso out s = Some (r, s') \<Longrightarrow>
   out_queued (outbound_tx s') =
     out_queued (outbound_tx s) @ (case r of Inl _ \<Rightarrow> [] | Inr _ \<Rightarrow> [out])"
  by (cases rule: send_out_cases [of out s]) auto

lemma receipt_send_log:
  "send_frame_with_receipt tso f s = Some (r, s') \<Longrightarrow>
   out_queued (outbound_tx s') =
     out_queued (outbound_tx s) @
       (case r of Inl _ \<Rightarrow> []
        | Inr _ \<Rightarrow> [Item (Frame (with_receipt (fst (generate_receipt_id s)) (drop_receipt_headers f)))])"
  by (auto simp: send_frame_with_receipt_def generate_receipt_id_def send_frame_def Let_def
      split: option.splits sum.splits dest!: send_out_log)

lemma close_log:
  assumes "\<And>s. out_queued (outbound_tx (mid s)) = out_queued (outbound_tx s)"
    and "close_conn tso mid ev s = Some (r, s', d)"
  shows "\<exists>k \<le> 1. (\<forall>u. r = Inr u \<longrightarrow> k = 1) \<and>
    map brief (out_queued (outbound_tx s')) =
      map brief (out_queued (outbound_tx s)) @ take k [(''DISCONNECT'', None)]"
proof -
  have brief_f: "brief (Item (Frame (with_receipt rid (drop_receipt_headers (frame_new ''DISCONNECT''))))) =
      (''DISCONNECT'', None)" for rid
    by (simp add: brief_def with_receipt_def with_header_def drop_receipt_headers_def frame_new_def
        get_header_def eq_ignore_ascii_case_def ascii_lower_def)
  obtain q s1 where sent: "send_frame_with_receipt tso (frame_new ''DISCONNECT'') s = Some (q, s1)"
    using assms(2) by (auto simp: close_conn_def send_frame_confirmed_def split: option.splits)
  note queue = receipt_send_log [OF sent]
  show ?thesis
  proof (cases q)
    case (Inl e)
    with assms(2) sent queue show ?thesis
      by (intro exI [of _ 0]) (auto simp: close_conn_def send_frame_confirmed_def)
  next
    case (Inr h)
    with assms(2) sent have "outbound_tx s' = outbound_tx (mid s1)"
      by (auto simp: close_conn_def send_frame_confirmed_def receipt_wait_def
          split: rx_event.splits sum.splits)
    with Inr queue assms(1) [of s1] show ?thesis
      by (intro exI [of _ 1]) (simp add: brief_f)
  qed
qed

lemma triple_queued_close:
  fixes answer :: "('c, 'q) answer"
  assumes "k = 7" and closing: "\<And>s. out_queued (outbound_tx (fst answer s)) = out_queued (outbound_tx s)"
  shows "triple (at_step out_queued base k) (close_call tso answer)
    (\<lambda>_. at_step out_queued base (Suc k)) (cut_short out_queued base)"
  unfolding close_call_def assms(1)
proof (rule triple_await)
  fix x :: "('c, 'q) ex" and r and s
  let ?s = "ex_rest x (ex_calls x) (ex_conn x)"
  let ?x = "x\<lparr>ex_conn := s, ex_calls := ex_calls x + 1\<rparr>"
  assume at: "at_step out_queued base 7 x"
    and "map_option (\<lambda>(r, s, _). (r, s)) (close_conn tso (fst answer) (snd answer) ?s) = Some (r, s)"
  then obtain d where run: "close_conn tso (fst answer) (snd answer) ?s = Some (r, s, d)" by auto
  have script: "take (7 + k) transaction_script =
      take 7 transaction_script @ take k [(''DISCONNECT'', None)]" for k
    by (simp add: transaction_script_def take_Cons split: nat.split)
  obtain k where k: "k \<le> 1" "\<forall>u. r = Inr u \<longrightarrow> k = 1" and "map brief (out_queued (outbound_tx s)) =
      map brief (out_queued (outbound_tx ?s)) @ take k [(''DISCONNECT'', None)]"
    using close_log [OF closing run] by blast
  then have "put_in out_queued base (7 + k) s"
    using at script [of k] by (simp add: at_step_def rest_quiet_def put_in_def)
  with at k show "case r of
      Inl e \<Rightarrow> cut_short out_queued base (Failed e) ?x | Inr _ \<Rightarrow> at_step out_queued base (Suc 7) ?x"
    by (cases r) (auto simp: cut_short_def at_step_def rest_quiet_def intro!: exI [of _ "7 + k"])
qed

text \<open>One step of the program: a call that queues a frame, or a line printed.\<close>

lemmas queue_step = triple_steps_Cons [OF triple_queue]
lemmas told_step = triple_steps_Cons [OF triple_told]

lemma triple_transaction_calls:
  fixes answer :: "('c, 'q) answer"
  assumes "\<And>s. out_queued (outbound_tx (fst answer s)) = out_queued (outbound_tx s)"
  shows "triple (at_step out_queued base 0) (steps (transaction_calls tso answer))
    (\<lambda>_. at_step out_queued base 8) (cut_short out_queued base)"
  unfolding transaction_calls_def Let_def
  by (rule told_step |
      (rule queue_step,
        simp add: begin_tx_def commit_tx_def abort_tx_def send_transaction_frame_def send_frame_def,
        simp add: brief_simps transaction_script_def, simp) |
      (rule triple_steps_Cons [OF triple_queued_close [OF _ assms]],
        simp add: eval_nat_numeral, rule triple_steps_Nil, simp add: eval_nat_numeral))+

lemma transactions_log:
  fixes x :: "('c, 'q) ex"
  assumes quiet: "rest_quiet out_queued x"
    and closing: "\<And>s. out_queued (outbound_tx (fst answer s)) = out_queued (outbound_tx s)"
    and run: "main_transactions dur_text tso n answer x = Some (r, x')"
  shows "(\<exists>e. r = Inl (Failed e) \<and> x' = x) \<or>
    (\<exists>k \<le> 8. put_in out_queued (map brief (out_queued (net_queue n))) k (ex_conn x') \<and>
      (r = Inr () \<longrightarrow> k = 8) \<and> (\<forall>e. r = Inl e \<longrightarrow> failed e))"
proof (cases "local_session dur_text n x")
  case None
  with run show ?thesis by (simp add: main_transactions_def and_then_def)
next
  case (Some qy)
  then obtain q y where y: "local_session dur_text n x = Some (q, y)" by (cases qy) auto
  show ?thesis
  proof (cases q)
    case (Inl e)
    from y [unfolded Inl] have "failed e \<and> y = x"
      by (auto simp: local_session_def open_session_def split: option.splits sum.splits)
    with run y Inl show ?thesis by (auto simp: main_transactions_def and_then_def)
  next
    case (Inr u)
    from y [unfolded Inr] have "outbound_tx (ex_conn y) = net_queue n \<and> ex_rest y = ex_rest x"
      by (auto simp: local_session_def open_session_def connect_def connect_with_options_def Let_def
          task_new_def conn_new_def split: option.splits sum.splits connect_end.splits)
    with quiet have "at_step out_queued (map brief (out_queued (net_queue n))) 0 y"
      by (simp add: at_step_def rest_quiet_def put_in_def)
    from tripleD [OF triple_transaction_calls [OF closing] _ this, of r x'] run y Inr show ?thesis
      by (cases r) (auto simp: main_transactions_def and_then_def at_step_def cut_short_def)
  qed
qed

end

section \<open>Properties\<close>

text \<open>
  C39. Waiting for one message acknowledges exactly the frames queued before the first that carries
  its body, in order, returns that one and leaves the rest in the channel; with no such frame it
  acknowledges them all and gives up. The deadline does not matter while frames are queued: it
  only has to have passed when the queue runs empty.
\<close>

theorem wait_for_first_match:
  assumes "frame_receiver tr queued senders_gone"
    and "queued (chans s (sn_receiver sn)) = q"
    and "length (takeWhile (\<lambda>f. body f \<noteq> b) q) < length ws"
    and "\<forall>w\<in>set ws. fst w = id"
    and "List.find (\<lambda>f. body f = b) q = None \<Longrightarrow> snd (ws ! length q)"
  shows "\<exists>c. queued c = tl (dropWhile (\<lambda>f. body f \<noteq> b) q) \<and>
    wait_for tr tso sn b ws s =
      map_option (\<lambda>s'. (List.find (\<lambda>f. body f = b) q, set_chan (sn_receiver sn) c s'))
        (ack_all tso sn (takeWhile (\<lambda>f. body f \<noteq> b) q) s)"
  by (rule frame_receiver.wait_for_spec [OF assms])

definition demo_sub :: subscription where
  "demo_sub = subscription_new ''1'' ''/queue/a'' 1 0"

definition leftover_conn :: "(frame bounded_chan, outbound bounded_chan) conn" where
  "leftover_conn = set_chan 1 \<lparr>bc_buf = [demo_message ''m1'', set_body ''mine'' (demo_message ''m2''),
     demo_message ''m3''], bc_cap = 16, bc_closed = False\<rparr> one_sub_conn"

theorem wait_for_first_match_witness:
  "\<exists>c. bc_buf c = [demo_message ''m3''] \<and>
    wait_for bc_poll bc_try_send demo_sub ''mine'' [(id, True), (id, True)] leftover_conn =
      map_option (\<lambda>s'. (Some (set_body ''mine'' (demo_message ''m2'')), set_chan 1 c s'))
        (ack_all bc_try_send demo_sub [demo_message ''m1''] leftover_conn)"
  using wait_for_first_match [where s = leftover_conn and sn = demo_sub and b = "''mine''"
      and ws = "[(id, True), (id, True)]" and tso = bc_try_send,
      OF bounded_receiver.frame_receiver_axioms refl]
  by (simp add: demo_sub_def subscription_new_def leftover_conn_def demo_message_def set_body_def
      with_header_def frame_new_def)

definition demo_ex :: "(frame bounded_chan, outbound bounded_chan) ex" where
  "demo_ex = \<lparr>ex_conn = fresh_conn, ex_out = [], ex_rest = (\<lambda>_. id), ex_calls = 0\<rparr>"

definition demo_net :: "(frame bounded_chan, outbound bounded_chan) net" where
  "demo_net = \<lparr>net_attempts = [up], net_now = 0, net_queue = bc_new 32, net_chans = (\<lambda>_. bc_new 32)\<rparr>"

definition confirmed :: "(frame bounded_chan, outbound bounded_chan) answer" where
  "confirmed = (id, \<lambda>_. RxOutcome (Inr ()))"

definition deliver_own ::
  "(frame bounded_chan, outbound bounded_chan) conn \<Rightarrow> (frame bounded_chan, outbound bounded_chan) conn" where
  "deliver_own s = set_chan 1 (snd (bc_try_send (chans s 1)
     (set_body (unique_body 7 9) (demo_message ''m1'')))) s"

definition demo_trip :: "(frame bounded_chan, outbound bounded_chan) trip" where
  "demo_trip =
     \<lparr>tp_args = [''host:61613'', ''u'', ''p''], tp_pid = 7, tp_nanos = Some 9, tp_net1 = demo_net,
      tp_sent = confirmed, tp_wakes1 = [(deliver_own, False)], tp_objection = [(id, True)],
      tp_close1 = confirmed, tp_net2 = demo_net, tp_wakes2 = [(id, True)], tp_close2 = confirmed\<rparr>"


text \<open>
  C40. How \<^verbatim>\<open>ack_roundtrip\<close> ends, whatever the broker and the rest of the program do. It always ends
  through an exit code: 0 only with the line that the acknowledgement took as the last one printed,
  1 with the line that a message with its own body was redelivered, or for any error of the
  library or of the clock, 2 only with the usage line or the line that the message never arrived.
\<close>

theorem ack_roundtrip_verdict:
  assumes "main_ack_roundtrip dur_text mk tso tr tp x = Some (r, x')"
  shows "\<exists>e. r = Inl e \<and>
    (exit_code r = 0 \<and> last (ex_out x') = Out took_line \<or>
     exit_code r = 1 \<and>
       ((\<exists>f. body f = unique_body (tp_pid tp) (the (tp_nanos tp)) \<and>
          last (ex_out x') = Out (redelivered_line f)) \<or>
        (\<exists>c. e = Failed c) \<or> e = BeforeEpoch) \<or>
     exit_code r = 2 \<and>
       (last (ex_out x') = Err USAGE \<or>
        (\<exists>dest. last (ex_out x') = Err (''the message never arrived on '' @ dest))))"
  using tripleD [OF ack_roundtrip_early assms]
  by (cases r) (auto simp: early_def exit_code_def)

theorem ack_roundtrip_verdict_witness:
  "\<exists>x. main_ack_roundtrip (\<lambda>_. []) bc_new bc_try_send bc_poll (demo_trip\<lparr>tp_wakes1 := [(id, True)]\<rparr>) demo_ex =
     Some (Inl (Exit 2), x) \<and>
     (last (ex_out x) = Err USAGE \<or>
      (\<exists>dest. last (ex_out x) = Err (''the message never arrived on '' @ dest)))"
proof -
  let ?run = "main_ack_roundtrip (\<lambda>_. []) bc_new bc_try_send bc_poll (demo_trip\<lparr>tp_wakes1 := [(id, True)]\<rparr>) demo_ex"
  have "case ?run of Some (Inl (Exit n), _) \<Rightarrow> n = 2 | _ \<Rightarrow> False" by code_simp
  then obtain x where run: "?run = Some (Inl (Exit 2), x)"
    by (auto split: option.splits sum.splits stop.splits) (metis stop.exhaust)
  with ack_roundtrip_verdict [OF run] show ?thesis by (auto simp: exit_code_def)
qed

text \<open>A rejected login has the exit code of a redelivery.\<close>

lemma rejected_login_exits_1:
  "map_option (\<lambda>(r, _). exit_code r)
     (main_ack_roundtrip (\<lambda>_. []) bc_new bc_try_send bc_poll
        (demo_trip\<lparr>tp_net1 := demo_net\<lparr>net_attempts := [refusing]\<rparr>\<rparr>) demo_ex) = Some 1"
  by code_simp

text \<open>
  The program of the two transactions puts its frames in the order it is written in: on the
  outbound queue, as its brief says, is always a beginning of the script BEGIN, two SENDs and the
  COMMIT of the first transaction, BEGIN, SEND and ABORT of the second, DISCONNECT, and all of it
  when the program ends well. An error stops it at once, and is one of the library's.
\<close>

theorem transactions_in_order:
  assumes "outbound_channel tso out_queued task_gone"
    and "rest_quiet out_queued x"
    and "\<And>s. out_queued (outbound_tx (fst answer s)) = out_queued (outbound_tx s)"
    and "main_transactions dur_text tso n answer x = Some (r, x')"
  shows "(\<exists>e. r = Inl (Failed e) \<and> x' = x) \<or>
    (\<exists>k \<le> 8. put_in out_queued (map brief (out_queued (net_queue n))) k (ex_conn x') \<and>
      (r = Inr () \<longrightarrow> k = 8) \<and> (\<forall>e. r = Inl e \<longrightarrow> failed e))"
  by (rule outbound_channel.transactions_log [OF assms])

theorem transactions_in_order_witness:
  "\<exists>x. main_transactions (\<lambda>_. []) bc_try_send demo_net confirmed demo_ex = Some (Inr (), x) \<and>
     put_in bc_buf [] 8 (ex_conn x)"
proof -
  let ?run = "main_transactions (\<lambda>_. []) bc_try_send demo_net confirmed demo_ex"
  have "case ?run of Some (Inr (), _) \<Rightarrow> True | _ \<Rightarrow> False" by code_simp
  then obtain x where run: "?run = Some (Inr (), x)" by (auto split: option.splits sum.splits)
  have "rest_quiet bc_buf demo_ex" by (simp add: rest_quiet_def demo_ex_def)
  with transactions_in_order [OF bounded_outbound.outbound_channel_axioms _ _ run] run show ?thesis
    by (auto simp: confirmed_def demo_net_def bc_new_def)
qed

end
