(* ===== verification/Stomp_Handshake.thy ===== *)
theory Stomp_Handshake
  imports Stomp_Options
begin

text \<open>
  The CONNECT frame on the wire: \<^verbatim>\<open>build_connect_frame\<close> (\<^verbatim>\<open>src/connection.rs\<close>) composed with the
  encoder (\<^verbatim>\<open>src/codec.rs\<close>). STOMP 1.2, and \<^verbatim>\<open>docs/stomp_spec.md\<close>, exempt CONNECT and CONNECTED from
  the escaping of headers; the codec escapes and unescapes every frame. The facts: what a broker
  that follows the specification reads as login, passcode and host, and a CONNECTED frame the
  specification allows and the decoder refuses.
\<close>

text \<open>A header of a frame as it stands on the wire, with nothing unescaped.\<close>

definition header_as_written :: "nat \<Rightarrow> bytes \<Rightarrow> string \<Rightarrow> bytes option" where
  "header_as_written lim src name =
     (case parse_frame_slice_bounded src lim of
        Inr (Some (_, hs, _, _)) \<Rightarrow> map_of hs name
      | _ \<Rightarrow> None)"

lemma escape_length:
  "length (concat (map escape_byte s)) =
     length s + length (filter (\<lambda>c. c \<in> {BACKSLASH, CR, LF, COLON}) s)"
  by (induction s) (simp_all add: escape_byte_def)

lemma escape_fixed_iff:
  assumes "utf8_valid s"
  shows "escape_header_value s = s \<longleftrightarrow> plain s"
proof
  assume "escape_header_value s = s"
  then have "length (concat (map escape_byte s)) = length s" using escape_bytewise [OF assms] by simp
  then have "filter (\<lambda>c. c \<in> {BACKSLASH, CR, LF, COLON}) s = []" unfolding escape_length by simp
  then show "plain s" unfolding filter_empty_conv plain_def by blast
qed (simp add: escape_bytewise [OF assms] escape_plain)

lemma escape_names:
  "escape_header_value ''accept-version'' = ''accept-version''"
  "escape_header_value ''host'' = ''host''"
  "escape_header_value ''login'' = ''login''"
  "escape_header_value ''passcode'' = ''passcode''"
  by code_simp+

lemma connect_headers:
  "\<exists>rest. headers (build_connect_frame v h l p hb cid custom) =
     [(''accept-version'', v), (''host'', h), (''login'', l), (''passcode'', p)] @ rest"
  by (cases cid) (simp_all add: build_connect_frame_def add_custom_headers_eq frame_builders)

text \<open>
  C6. What a broker that follows the specification reads in the CONNECT frame. Taking the headers
  as they stand on the wire, it finds the login, the passcode and the host with the codec's escapes
  in them; the passcode is the one the application gave exactly when it has no colon, backslash,
  CR or LF.
\<close>

theorem connect_headers_escaped:
  assumes "f = build_connect_frame v h l p hb cid custom"
    and "wire_safe f" and "length (encode (Frame f) []) \<le> lim" and "lim < usize_limit"
  shows "header_as_written lim (encode (Frame f) []) ''login'' = Some (escape_header_value l) \<and>
    header_as_written lim (encode (Frame f) []) ''passcode'' = Some (escape_header_value p) \<and>
    header_as_written lim (encode (Frame f) []) ''host'' = Some (escape_header_value h) \<and>
    (header_as_written lim (encode (Frame f) []) ''passcode'' = Some p \<longleftrightarrow>
       BACKSLASH \<notin> set p \<and> CR \<notin> set p \<and> LF \<notin> set p \<and> COLON \<notin> set p)"
proof -
  obtain rest where rest: "headers f =
      [(''accept-version'', v), (''host'', h), (''login'', l), (''passcode'', p)] @ rest"
    using connect_headers assms(1) by blast
  obtain more where more: "wire_headers f = headers f @ more"
    unfolding wire_headers_def by (metis append_Nil2)
  obtain bd n where parsed: "parse_frame_slice_bounded (encode (Frame f) []) lim =
      Inr (Some (command f, map escape_pair (wire_headers f), bd, n))"
    using parse_encoded [OF assms(2,3,4), of "[]"] by auto
  have valid: "utf8_valid p"
    using assms(2) by (simp add: wire_safe_def frame_valid_def rest)
  have "map_of (map escape_pair (wire_headers f)) ''login'' = Some (escape_header_value l)"
    "map_of (map escape_pair (wire_headers f)) ''passcode'' = Some (escape_header_value p)"
    "map_of (map escape_pair (wire_headers f)) ''host'' = Some (escape_header_value h)"
    by (simp_all add: more rest escape_names)
  then show ?thesis
    using escape_fixed_iff [OF valid] by (simp add: header_as_written_def parsed plain_def)
qed

theorem connect_headers_escaped_witness:
  "header_as_written 1000 (encode (Frame (build_connect_frame ''1.2'' ''/'' ''u'' ''a:b'' ''0,0'' None [])) [])
     ''passcode'' = Some [CHR ''a'', BACKSLASH, CHR ''c'', CHR ''b'']"
proof -
  let ?f = "build_connect_frame ''1.2'' ''/'' ''u'' ''a:b'' ''0,0'' None []"
  have "wire_safe ?f" by code_simp
  moreover have "length (encode (Frame ?f) []) \<le> 1000" by code_simp
  ultimately have "header_as_written 1000 (encode (Frame ?f) []) ''passcode'' = Some (escape_header_value ''a:b'')"
    using connect_headers_escaped [OF refl, of "''1.2''" "''/''" "''u''" "''a:b''" "''0,0''" None "[]" 1000]
    by (simp add: usize_limit_def)
  moreover have "escape_header_value ''a:b'' = [CHR ''a'', BACKSLASH, CHR ''c'', CHR ''b'']" by code_simp
  ultimately show ?thesis by simp
qed

text \<open>The answer of a broker whose session id holds a backslash: the handshake fails.\<close>

lemma connected_backslash_refused:
  "fst (decode 1000 (''CONNECTED'' @ [LF] @ ''session:C'' @ [BACKSLASH] @ ''1'' @ [LF, LF, NUL])) =
     Inl (ValueEscape (InvalidEscape (CHR ''1'')))"
  by code_simp

end
