(* ===== verification/Spec2Isabelle.thy ===== *)
theory Spec2Isabelle
  imports Stomp_Traffic Stomp_Subscribed Stomp_Wake Stomp_Timers Stomp_Connect Stomp_Client Stomp_Screen
    Stomp_Examples Stomp_Handshake
begin

text \<open>
  A verification development for iridium-stomp, a STOMP 1.2 client library for tokio with a command
  line client. It is a shallow embedding: every operation of the library is a function on the state
  it changes, with its errors and early returns as values, and every branch of the background
  task's loop is a function on the task's state.

  \<^bold>\<open>The program.\<close> A \<^verbatim>\<open>Connection\<close> is a handle that can be cloned; all clones share one registry of
  subscriptions, one map of pending (delivered, not yet acknowledged) messages, one map of pending
  receipts and the sending end of an outbound channel. A background task owns the socket. It takes
  frames from the outbound channel and writes them, takes frames from the broker and hands them to
  subscriptions, to waiting receipts or to \<^verbatim>\<open>next_frame\<close>, keeps heart-beats, and reconnects with a
  back-off, replaying the registry. Between the two sides there is only the shared state and the
  channels. The command line client sits on top of the handle.

  \<^bold>\<open>The theories\<close>, each importing the ones it calls:
  \<^item> \<open>Stomp_Prelude\<close>, \<open>Stomp_Strings\<close>: bytes, results, searches, hash maps as association lists;
    Rust strings as their UTF-8 bytes, with \<^verbatim>\<open>trim\<close>, \<^verbatim>\<open>to_lowercase\<close>, \<^verbatim>\<open>from_utf8\<close>, slicing and number
    parsing as the standard library does them.
  \<^item> \<open>Stomp_Frame\<close> (\<^verbatim>\<open>frame.rs\<close>), \<open>Stomp_Parser\<close> (\<^verbatim>\<open>parser.rs\<close>), \<open>Stomp_Codec\<close> (\<^verbatim>\<open>codec.rs\<close>): frames,
    the byte parser, the decoder and encoder on their buffers. Facts: a decision of the parser never
    changes when more bytes arrive; the decoder consumes a prefix within its bound; escaping and
    encoding are undone by decoding, for one frame and for a stream cut into chunks anywhere.
  \<^item> \<open>Stomp_Heartbeat\<close>, \<open>Stomp_Errors\<close>, \<open>Stomp_Options\<close>: the small data types of \<^verbatim>\<open>connection.rs\<close> and
    \<^verbatim>\<open>subscription.rs\<close>, heart-beat negotiation, the mining of ERROR frames (panics included), the
    CONNECT frame.
  \<^item> \<open>Stomp_Handshake\<close>: the CONNECT frame through the encoder, and what a broker that follows the
    specification reads in it.
  \<^item> \<open>Stomp_Delivery\<close>: a subscription's channel with its overflow queue (\<^verbatim>\<open>deliver_and_keep\<close>, \<^verbatim>\<open>park\<close>,
    \<^verbatim>\<open>drain_overflow\<close>), and the wake list. The channel is an interface, locale \<open>mpsc_channel\<close>, with
    the bounded FIFO buffer as its model. Fact: nothing is lost, duplicated or reordered.
  \<^item> \<open>Stomp_State\<close>, \<open>Stomp_Registry\<close>, \<open>Stomp_Acks\<close>, \<open>Stomp_Receipts\<close>: the shared state and the handle's
    methods: subscribe, unsubscribe and drop, ack and nack, receipts, close. An \<^verbatim>\<open>await\<close>ed send is an
    option: \<^const>\<open>None\<close> is a send that still waits for room.
  \<^item> \<open>Stomp_Task\<close>, \<open>Stomp_Dispatch\<close>, \<open>Stomp_Invariants\<close>, \<open>Stomp_Handlers\<close>: the task's state, one
    definition per branch of its \<^verbatim>\<open>select!\<close> loop, the start and end of a session; the invariant of the
    task and what each handler does.
  \<^item> \<open>Stomp_Connect\<close>: the loops that connect and reconnect. What the network does is a list of attempts,
    each with its outcome and how long it took.
  \<^item> \<open>Stomp_Sections\<close>: the handlers that take more than one lock, cut into their critical sections, and
    that the sections run back to back are the handler.
  \<^item> \<open>Stomp_System\<close>: the handle's critical sections and the task's as steps of one transition system, its
    reachable states and their invariants, and the runs that make up whole calls and whole handlers.
    The channel interfaces are locale \<open>connection_channels\<close>, interpreted on bounded buffers.
  \<^item> \<open>Stomp_Traffic\<close>: end to end, from what the task meant for a subscription to what its receiver took:
    nothing lost, doubled or reordered while the receiver is there and the subscription lasts.
  \<^item> \<open>Stomp_Subscribed\<close>: while connected, the SUBSCRIBE of every registered subscription was written in
    this session or is still on its way; and that it may be written twice.
  \<^item> \<open>Stomp_Wake\<close>: which parked subscription is served next (\<^verbatim>\<open>parked_capacity\<close>), and that serving them
    ends. The wait for room is locale \<open>waking_channel\<close>.
  \<^item> \<open>Stomp_Timers\<close>: what wakes the loop while the broker is silent: the application, the heart-beat
    interval, the watchdog's sleep; when a silent broker is noticed, and when it never is (with
    \<open>Stomp_Connect\<close>: what becomes of a connection to a broker without heart-beats).
  \<^item> \<open>Stomp_Cli_State\<close>, \<open>Stomp_Cli\<close>, \<open>Stomp_Tui\<close>, \<open>Stomp_Client\<close> (\<^verbatim>\<open>src/bin\<close>): the command line client: its
    counters, buffers and history, the commands, the one-shot send with its exit codes, plain mode,
    the keys and panels of the terminal interface, and whole sessions of both modes with what they
    do to the terminal.
  \<^item> \<open>Stomp_Screen\<close> (\<^verbatim>\<open>ui\<close> and the \<^verbatim>\<open>render_\<close> functions of \<^verbatim>\<open>src/bin/cli/tui.rs\<close>): the widgets handed to ratatui,
    with styles and rectangles, and the cursor. Facts: which lines of which
    messages and errors the panels show, when the counts fit their panel, where the cursor is.
    Arithmetic that would panic in a debug build (a cursor column past 65535) wraps, as in a release build.
  \<^item> \<open>Stomp_Examples\<close> (\<^verbatim>\<open>examples/\<close>, and the \<^verbatim>\<open>Stream\<close> of a subscription): the programs as calls on the model
    of the library, with small rules for reasoning about calls (\<open>triple\<close>). The receiver is locale
    \<open>frame_receiver\<close>. Facts: what \<^verbatim>\<open>wait_for\<close> skips and returns (also
    while frames keep arriving, \<open>wait_for_arrivals\<close>), what each exit code of the round trip
    means, the order in which the transactions are queued.

  \<^bold>\<open>How code becomes definitions.\<close> Shared references are addresses into stores kept in the state
  (channels, \<^verbatim>\<open>OnceLock\<close> cells, \<^verbatim>\<open>oneshot\<close> values), so aliasing between a registry entry and a handle
  is visible. A \<^verbatim>\<open>HashMap\<close> is an association list whose order is its unspecified iteration order;
  theorems hold for every order. A panic is \<^const>\<open>None\<close> (or its own outcome in the terminal
  interface). Loops are structural recursions, functions with a measure, or, for the doubling of the
  overflow warning, a \<^theory_text>\<open>partial_function\<close> that is proved to return. No definition uses fuel; \<open>silent_run\<close>
  counts the turns of the loop, and its theorems are about every number of turns.

  \<^bold>\<open>Parameters\<close>, for code that is not in the repository: \<open>ts\<close>, \<open>tso\<close>, \<open>tss\<close> and \<open>tro\<close> are tokio's channels
  (\<^verbatim>\<open>try_send\<close> and \<^verbatim>\<open>recv\<close>), with the documented behaviour of a bounded FIFO channel as the locale's
  laws, and \<open>tr\<close> its \<^verbatim>\<open>poll_recv\<close>; \<open>rx\<close> is a receiver's side of a channel of frames, which takes the oldest frame or goes away;
  \<open>wok\<close> says which writes to the socket succeed; \<open>mk\<close> makes a channel of a capacity, empty at first; \<open>now\<close> is a
  clock reading; the text of an I/O error, a duration or a date is a function; \<open>split\<close> and \<open>inner_of\<close> are ratatui's layout,
  \<open>merge\<close> and \<open>select_all\<close> the merged stream of \<^verbatim>\<open>futures\<close>.

  \<^bold>\<open>Bounds.\<close> Machine integers keep their width where the code can exceed it: \<^verbatim>\<open>content-length\<close> and frame
  sizes (64 bits), heart-beat values, the counters and the interval of the client. The counters for
  subscription ids, receipts and sessions are natural numbers: \<open>2 ^ 64\<close> of them are out of reach.
  So are the counters of ERROR frames per destination (32 bits in the code): at the third error the
  destination is given up. A capacity above tokio's maximum, for which \<^verbatim>\<open>mpsc::channel\<close> panics, is not modelled:
  \<open>mk\<close> always makes a channel.
  \<open>memory_ok\<close> bounds the length of overflow queues by what memory can hold.

  \<^bold>\<open>What the model leaves coarser than the code.\<close> A write to the socket belongs to the critical section
  before it, so nothing falls between the two. A parked subscription may be drained whether or not
  its channel has room (a drain without room does nothing; \<open>Stomp_Wake\<close> has which one the code picks). The receipt counter is one per process
  in the code and one per connection here (the programs of \<open>Stomp_Examples\<close> carry it on). The order in which \<^verbatim>\<open>select!\<close> picks a branch is any order;
  in \<open>Stomp_Timers\<close>, where time passes, timers fire on their deadline and a handler takes no time.

  \<^bold>\<open>Not modelled.\<close> Sockets themselves, tracing output, argument parsing (clap), what ratatui and crossterm do
  with the widgets they are given, what the local handles of an example do when its \<^verbatim>\<open>main\<close> returns,
  the tests and fuzz targets, and the re-exports of \<^verbatim>\<open>lib.rs\<close>.
\<close>

section \<open>Properties of the whole connection\<close>

text \<open>
  C1. Delivery end to end. In every reachable state, under every interleaving of client calls,
  receivers and the task, across reconnects: for a registered subscription whose receiver is there,
  the messages the task meant for it (less the parked ones that the start of a session discards on
  purpose, because they could not be acknowledged any more) are exactly those its receiver took,
  then those in its channel, then those parked, in the order they arrived; and for a subscription
  that ended, by whatever cause, the receiver has or will read a prefix of them: nothing doubled,
  nothing reordered, no gap.
\<close>

theorem delivered_in_order:
  assumes "connection_traffic ts queued rx_closed tso out_queued task_gone tro rx mk"
    and "reachable ts tso tro rx wok mk q0 S" and "out_queued q0 = []"
  shows "(\<forall>e\<in>set (entries (subscriptions (shared (tk S)))).
      \<not> rx_closed (chans (shared (tk S)) (sub_sender e)) \<longrightarrow>
      offered S (sub_sender e) = got S (sub_sender e) @
        queued (chans (shared (tk S)) (sub_sender e)) @ ov_queue (sub_overflow e)) \<and>
    (\<forall>a. 0 < a \<and> a < next_chan (shared (tk S)) \<and> \<not> rx_closed (chans (shared (tk S)) a) \<longrightarrow>
      prefix (got S a @ queued (chans (shared (tk S)) a)) (offered S a))"
  using connection_traffic.traffic_reachable [OF assms] by (simp add: traffic_inv_def)

theorem delivered_in_order_witness:
  "\<exists>S e. demo_reachable S \<and> entries (subscriptions (shared (tk S))) = [e] \<and>
     got S 1 = [demo_message ''m1''] \<and> offered S 1 = [demo_message ''m1''] @ ov_queue (sub_overflow e) \<and>
     prefix (got S 1) (offered S 1)"
proof -
  obtain S where S: "demo_reachable S" "got S 1 = [demo_message ''m1'']"
    "1 < next_chan (shared (tk S))" "map sub_sender (entries (subscriptions (shared (tk S)))) = [1]"
    "bc_buf (chans (shared (tk S)) 1) = []" "\<not> bc_closed (chans (shared (tk S)) 1)"
    using demo_received_reachable by (elim exE conjE) (rule that)
  obtain e where e: "entries (subscriptions (shared (tk S))) = [e]" "sub_sender e = 1"
    using S(4) by auto
  note C = delivered_in_order [OF bounded_traffic.connection_traffic_axioms S(1), simplified bc_new_def, simplified]
  have "offered S 1 = [demo_message ''m1''] @ ov_queue (sub_overflow e)"
    using C e S(2,5,6) by simp
  moreover have "prefix (got S 1) (offered S 1)"
    using C S(3,5,6) by (metis append_Nil2 zero_less_one)
  ultimately show ?thesis using S(1,2) e(1) by (intro exI conjI)
qed

text \<open>
  C3. In every reachable state of a connection, under every interleaving of client calls with the
  background task and across any number of sessions: the registry and the receipts are well
  formed, every pending message was delivered in the current session, every subscription with
  parked frames is on the wake list (so its frames are moved once there is room), and the
  reconnect back-off lies between 1 and 30 seconds.
\<close>

theorem reachable_invariant:
  assumes "connection_channels ts queued rx_closed tso out_queued task_gone tro rx"
    and "reachable ts tso tro rx wok mk q0 S" and "out_queued q0 = []"
  shows "reg_inv (shared (tk S)) \<and> receipts_inv (shared (tk S)) \<and>
    (\<forall>(sid, pm)\<in>pend_pairs (pending (shared (tk S))). pm_session pm = session (tk S)) \<and>
    (\<forall>e\<in>set (entries (subscriptions (shared (tk S)))).
       ov_queue (sub_overflow e) \<noteq> [] \<longrightarrow> sub_id e \<in> fst ` set (parked (tk S))) \<and>
    1 \<le> backoff_secs (tk S) \<and> backoff_secs (tk S) \<le> 30"
proof -
  have "task_inv (tk S)"
    using connection_channels.reachable_inv [OF assms] by (rule sys_invD(1))
  then show ?thesis
    by (auto simp: task_inv_def pend_inv_def pend_ok_def pend_pairs_def wake_inv_def backoff_inv_def)
qed

theorem reachable_invariant_witness:
  "reg_inv (shared (tk demo_running)) \<and> 1 \<le> backoff_secs (tk demo_running)"
  using reachable_invariant [OF bounded_connection.connection_channels_axioms demo_running_reachable]
  by (simp add: bc_new_def)

text \<open>
  C2. Acknowledgements stay in their session. Every ACK or NACK of a tracked message that the task
  writes, in whatever session and after whatever reconnects, carries the broker's own ack id and
  the subscription id of a message that was recorded for that subscription in that same session;
  an acknowledgement that waited through a reconnect is never written.
\<close>

theorem acks_stay_in_session:
  assumes "connection_channels ts queued rx_closed tso out_queued task_gone tro rx"
    and "reachable ts tso tro rx wok mk q0 S" and "out_queued q0 = []"
  shows "\<forall>(sess, f)\<in>acked S.
    (sess, Frame f) \<in> set (wire (tk S)) \<and>
    (\<exists>cmd sid pm. (sid, pm) \<in> recorded S \<and> pm_session pm = sess \<and>
       f = ack_frame_of cmd (pm_ack_id pm) sid)"
  using connection_channels.reachable_inv [OF assms] by (auto simp: sys_inv_def ack_known_def)

theorem acks_stay_in_session_witness:
  "\<exists>S. demo_reachable S \<and> (0, ack_frame_of ''ACK'' ''ack-m1'' ''1'') \<in> acked S \<and>
     (0, Frame (ack_frame_of ''ACK'' ''ack-m1'' ''1'')) \<in> set (wire (tk S))"
proof -
  obtain S where S: "demo_reachable S" "(0, ack_frame_of ''ACK'' ''ack-m1'' ''1'') \<in> acked S"
    using demo_ack_reachable by blast
  then show ?thesis
    using acks_stay_in_session [OF bounded_connection.connection_channels_axioms S(1)]
    by (auto simp: bc_new_def)
qed

text \<open>
  C4. A registered subscription is a subscription of the session. In every reachable state in which
  the task is connected and past its replay, under every interleaving and after any number of
  reconnects: the SUBSCRIBE of every entry of the registry, with its id, destination, ack mode and
  headers, was written in this very session, or is waiting to be sent or to be written, or its
  caller went away while it was waiting, or the socket refuses to write it at some moment of
  this session.
\<close>

theorem registered_is_subscribed:
  assumes "connection_channels ts queued rx_closed tso out_queued task_gone tro rx"
    and "reachable ts tso tro rx wok mk q0 S" and "out_queued q0 = []"
    and "phase S \<notin> {Broken, Backoff, Replaying, Ended}"
    and "(d, es) \<in> set (subscriptions (shared (tk S)))" and "e \<in> set es"
    and f: "f = subscribe_frame (sub_id e) d (sub_ack e) (sub_hdrs e)"
  shows "(session (tk S), Frame f) \<in> set (wire (tk S)) \<or>
    Item (Frame f) \<in> set (inflight S) \<union> set (out_queued (outbound_tx (shared (tk S)))) \<or>
    Item (Frame f) \<in> cancelled S \<or> refused wok f (tk S)"
proof -
  have "(d, sub_key e) \<in> set (resub_snapshot (subscriptions (shared (tk S))))"
    using assms(5,6) unfolding in_snapshot by blast
  then have "f \<in> set (resubscribe_frames (subscriptions (shared (tk S))))"
    unfolding resubscribe_frames_def set_map by (rule image_eqI [rotated]) (simp add: f sub_key_def)
  then show ?thesis
    using connection_channels.subscribed_reachable [OF assms(1-3)] assms(4)
    by (simp add: subscribed_inv_def connected_def in_effect_def)
qed

theorem registered_is_subscribed_witness:
  "\<exists>d es e. (d, es) \<in> set (subscriptions (shared (tk demo_running))) \<and> e \<in> set es \<and>
     ((0, Frame (subscribe_frame (sub_id e) d (sub_ack e) (sub_hdrs e))) \<in> set (wire (tk demo_running)) \<or>
      Item (Frame (subscribe_frame (sub_id e) d (sub_ack e) (sub_hdrs e))) \<in>
        set (inflight demo_running) \<union> set (bc_buf (outbound_tx (shared (tk demo_running)))) \<or>
      Item (Frame (subscribe_frame (sub_id e) d (sub_ack e) (sub_hdrs e))) \<in> cancelled demo_running \<or>
      refused all_written (subscribe_frame (sub_id e) d (sub_ack e) (sub_hdrs e)) (tk demo_running))"
proof -
  have d: "phase demo_running = Running" "session (tk demo_running) = 0"
    "shared (tk demo_running) = one_sub_conn"
    by (simp_all add: demo_running_def demo_task_def task_new_def)
  obtain es e where e: "(''/queue/a'', es) \<in> set (subscriptions one_sub_conn)" "e \<in> set es"
    using one_sub_simps(1) map_of_SomeD by fastforce
  show ?thesis
    using registered_is_subscribed [OF bounded_connection.connection_channels_axioms demo_running_reachable
        _ _ e(1) [folded d(3)] e(2) refl] e
    by (intro exI [of _ "''/queue/a''"] exI [of _ es] exI [of _ e]) (simp add: d bc_new_def)
qed

text \<open>
  C5. But not once only: a subscription made while the connection is down is subscribed twice. What
  waits in the outbound channel outlives the session, and the replay writes the SUBSCRIBE of every
  registered subscription. So when the SUBSCRIBE of one is next in the channel at the replay, the
  new session carries it in the replay and again right after it, with the same id, which the
  protocol forbids; the second one is not held back as a late acknowledgement would be.
\<close>

theorem subscribe_written_twice:
  assumes "phase S = Replaying" and "f \<in> set (resubscribe_frames (subscriptions (shared (tk S))))"
    and "tro (outbound_tx (shared (tk S))) = Some (Item (Frame f), q)"
  shows "\<exists>S'. sys_runs ts tso tro rx all_written mk S S' \<and> phase S' = Running \<and>
    session (tk S') = session (tk S) \<and> subscriptions (shared (tk S')) = subscriptions (shared (tk S)) \<and>
    wire (tk S') = wire (tk S) @ map (\<lambda>g. (session (tk S), Frame g))
      (resubscribe_frames (subscriptions (shared (tk S))) @ [f])"
  by (rule subscribed_twice [where tro = tro, OF assms])

theorem subscribe_written_twice_witness:
  "\<exists>S sess. demo_reachable S \<and> phase S = Running \<and> session (tk S) = sess \<and>
     wire (tk S) = [(sess, Frame (subscribe_frame ''1'' ''/queue/a'' Client [])),
                    (sess, Frame (subscribe_frame ''1'' ''/queue/a'' Client []))]"
proof -
  let ?f = "subscribe_frame ''1'' ''/queue/a'' Client []"
  obtain S q where S: "demo_reachable S" "phase S = Replaying" "wire (tk S) = []"
    "resubscribe_frames (subscriptions (shared (tk S))) = [?f]"
    "bc_recv (outbound_tx (shared (tk S))) = Some (Item (Frame ?f), q)"
    using demo_replaying_reachable by (elim exE conjE) (rule that)
  obtain S' where S': "sys_runs bc_try_send bc_try_send bc_recv bc_rx all_written bc_new S S'" "phase S' = Running"
    "wire (tk S') = [(session (tk S), Frame ?f), (session (tk S), Frame ?f)]" "session (tk S') = session (tk S)"
    using subscribe_written_twice [where tro = bc_recv and f = ?f, OF S(2) _ S(5), of bc_try_send bc_try_send bc_rx bc_new]
    by (auto simp: S(3,4))
  show ?thesis using reachable_run [OF S'(1) S(1)] S'(2-4) by (intro exI conjI)
qed

text \<open>
  C7. Sweeping the pending messages after a delivery takes nothing that can still be acknowledged. In
  every reachable state between a delivery pass and its sweep, whatever subscriptions other calls
  registered or removed since the pass looked at the registry: each registered subscription has the
  same pending messages after the sweep as before, and the ids the sweep drops are registered
  nowhere.
\<close>

theorem live_queue_kept:
  assumes "connection_channels ts queued rx_closed tso out_queued task_gone tro rx"
    and "reachable ts tso tro rx wok mk q0 S" and "out_queued q0 = []"
    and "phase S = Sweeping f live ovs d" and "sid \<in> live_sub_ids (tk S)"
  shows "hm_get (pending (shared (sweep_section live (tk S)))) sid = hm_get (pending (shared (tk S))) sid"
proof (cases live)
  case None
  then show ?thesis by (simp add: sweep_section_def on_shared_def sweep_pending_def)
next
  case (Some ids)
  have "live_sub_ids (tk S) \<inter> pend_ids (tk S) \<subseteq> ids"
    using connection_channels.reachable_ids_inv [OF assms(1-3)] assms(4) Some by (simp add: ids_inv_def)
  then have "sid \<in> ids \<or> hm_get (pending (shared (tk S))) sid = None"
    using assms(5) by (auto simp: pend_ids_def ids_of_def map_of_eq_None_iff)
  moreover have "map_of (filter (\<lambda>(i, _). i \<in> ids) p) sid = (if sid \<in> ids then map_of p sid else None)"
    for p :: pending_map
    by (induction p) auto
  ultimately show ?thesis
    by (auto simp: Some sweep_section_def on_shared_def sweep_pending_def)
qed

theorem live_queue_kept_witness:
  "\<exists>S ovs d. demo_reachable S \<and> phase S = Sweeping (demo_message ''m1'') (Some {''1''}) ovs d \<and>
     hm_get (pending (shared (sweep_section (Some {''1''}) (tk S)))) ''1'' = Some [demo_pending ''m1'']"
proof -
  obtain S ovs d where S: "demo_reachable S" "phase S = Sweeping (demo_message ''m1'') (Some {''1''}) ovs d"
    "hm_get (pending (shared (tk S))) ''1'' = Some [demo_pending ''m1'']" "live_sub_ids (tk S) = {''1''}"
    using demo_sweeping_reachable by (elim exE conjE) (rule that)
  have "hm_get (pending (shared (sweep_section (Some {''1''}) (tk S)))) ''1'' = hm_get (pending (shared (tk S))) ''1''"
    by (rule live_queue_kept [OF bounded_connection.connection_channels_axioms S(1) _ S(2)])
      (simp_all add: S(4) bc_new_def)
  also note S(3)
  finally have "hm_get (pending (shared (sweep_section (Some {''1''}) (tk S)))) ''1'' = Some [demo_pending ''m1'']" .
  with S(1,2) show ?thesis by (intro exI conjI)
qed

text \<open>
  The methods of the handle, taken whole, are runs of the transition system: a successful
  \<^verbatim>\<open>ack\<close>/\<^verbatim>\<open>nack\<close>, subscribe, unsubscribe or send with a receipt, as the code composes its critical
  sections and its send, takes the system from a state to the state it computes, by steps that
  other calls and the background task may interleave with.
\<close>

theorem client_calls_are_runs:
  "(acknowledge tso cmd sid i (shared (tk S)) = Some (Inr (), s') \<longrightarrow>
      sys_runs ts tso tro rx wok mk S (with_shared S s')) \<and>
   (subscribe_with_capacity mk tso d a hs cap lim (shared (tk S)) = Some (Inr sn, s') \<longrightarrow>
      sys_runs ts tso tro rx wok mk S (with_shared S s')) \<and>
   (unsubscribe tso sid (shared (tk S)) = Some (Inr (), s') \<longrightarrow>
      sys_runs ts tso tro rx wok mk S (with_shared S s')) \<and>
   (send_frame_with_receipt tso f (shared (tk S)) = Some (Inr h, s') \<longrightarrow>
      sys_runs ts tso tro rx wok mk S (with_shared S s'))"
  by (intro conjI impI) (erule acknowledge_runs subscribe_runs unsubscribe_runs send_with_receipt_runs)+

theorem client_calls_are_runs_witness:
  "\<exists>sn s'. subscribe_with_capacity bc_new bc_try_send ''/queue/b'' Auto [] 16 1024 (shared (tk demo_running)) =
       Some (Inr sn, s') \<and>
     sys_runs bc_try_send bc_try_send bc_recv bc_rx all_written bc_new demo_running (with_shared demo_running s')"
proof -
  have "outbound_tx (shared (tk demo_running)) = bc_new 32"
    by (simp add: demo_running_def demo_task_def task_new_def one_sub_conn_def register_def Let_def
        fresh_conn_def conn_new_def)
  then obtain sn s' where call: "subscribe_with_capacity bc_new bc_try_send ''/queue/b'' Auto [] 16 1024
      (shared (tk demo_running)) = Some (Inr sn, s')"
    by (simp add: subscribe_with_capacity_def register_def Let_def send_out_def bc_try_send_def bc_new_def)
  then show ?thesis
    using client_calls_are_runs [of bc_try_send _ _ _ demo_running s' bc_try_send bc_recv bc_rx all_written bc_new
        "''/queue/b''" Auto "[]" 16 1024 sn] by blast
qed

text \<open>
  C22. A healthy, idle connection is dropped. A broker that offers no heart-beats (its CONNECTED has no
  \<^verbatim>\<open>heart-beat\<close> header, or the values \<^verbatim>\<open>0,0\<close>) sends nothing while there are no messages, as it announced.
  A client with the default heart-beat settings nevertheless takes ten seconds for both intervals and,
  while nobody sends, gives the session up between twenty and thirty seconds after the last
  thing it received, although every write succeeded; with heart-beats switched off on
  its own side it never gives up.
\<close>

theorem idle_without_heartbeats:
  assumes "at_dial a (cr_frame cr) = Talk (StreamItem (Frame f) # es)" and "command f = ''CONNECTED''"
    and "get_header f ''heart-beat'' = None \<or> get_header f ''heart-beat'' = Some ''0,0''"
    and "tm_app T = []" and "tm_now T \<le> tm_tick T" and "as_millis (tm_now T) = last_received (tt T)"
  shows "(cr_hb cr = DEFAULT_HEARTBEAT \<longrightarrow>
      (\<exists>si ri. attempt_outcome cr a = Some (Inr (si, ri)) \<and>
        (\<exists>n T'. silent_run ts all_written si ri pick n T = Inl T' \<and>
           last_received (tt T) + 20000 < as_millis (tm_now T') \<and>
           as_millis (tm_now T') \<le> last_received (tt T) + 30000))) \<and>
    (cr_hb cr = NO_HEARTBEAT \<longrightarrow>
      (\<exists>si ri. attempt_outcome cr a = Some (Inr (si, ri)) \<and>
        (\<forall>n. \<exists>T'. silent_run ts all_written si ri pick n T = Inr T')))"
proof (intro conjI impI)
  let ?ten = "Some (from_millis 10000)"
  have out: "attempt_outcome cr a = Some (Inr (negotiated (cr_hb cr) ''0,0''))"
    using assms(1-3) by (auto simp: attempt_outcome_def)
  show "\<exists>si ri. attempt_outcome cr a = Some (Inr (si, ri)) \<and>
      (\<exists>n T'. silent_run ts all_written si ri pick n T = Inl T' \<and>
         last_received (tt T) + 20000 < as_millis (tm_now T') \<and>
         as_millis (tm_now T') \<le> last_received (tt T) + 30000)" if "cr_hb cr = DEFAULT_HEARTBEAT"
  proof (rule exI, rule exI, rule conjI)
    have "negotiated DEFAULT_HEARTBEAT ''0,0'' = (?ten, ?ten)" by code_simp
    then show "attempt_outcome cr a = Some (Inr (?ten, ?ten))" using out that by simp
    show "\<exists>n T'. silent_run ts all_written ?ten ?ten pick n T = Inl T' \<and>
        last_received (tt T) + 20000 < as_millis (tm_now T') \<and>
        as_millis (tm_now T') \<le> last_received (tt T) + 30000"
      using silent_given_up [OF assms(4-6), of 10000 ?ten ts all_written pick]
      by (auto simp: hb_period_def from_millis_def u64_limit_def)
  qed
  show "\<exists>si ri. attempt_outcome cr a = Some (Inr (si, ri)) \<and>
      (\<forall>n. \<exists>T'. silent_run ts all_written si ri pick n T = Inr T')" if "cr_hb cr = NO_HEARTBEAT"
  proof (rule exI, rule exI, rule conjI)
    have "negotiated NO_HEARTBEAT ''0,0'' = (None, None)" by code_simp
    then show "attempt_outcome cr a = Some (Inr (None, None))" using out that by simp
    show "\<forall>n. \<exists>T'. silent_run ts all_written None None pick n T = Inr T'"
      using unwatched_run by blast
  qed
qed

definition plain_broker :: attempt where
  "plain_broker = \<lparr>at_dial = (\<lambda>_. Talk [StreamItem (Frame (frame_new ''CONNECTED''))]), at_took = 0\<rparr>"

theorem idle_without_heartbeats_witness:
  "\<exists>si ri. attempt_outcome (credentials_of ''u'' ''p'' DEFAULT_HEARTBEAT (connect_config_of connect_options_new))
       plain_broker = Some (Inr (si, ri)) \<and>
     (\<exists>n T'. silent_run bc_try_send all_written si ri (\<lambda>_. TickWake) n demo_timed = Inl T' \<and>
        20000 < as_millis (tm_now T') \<and> as_millis (tm_now T') \<le> 30000)"
  using idle_without_heartbeats
    [of plain_broker "credentials_of ''u'' ''p'' DEFAULT_HEARTBEAT (connect_config_of connect_options_new)"
      "frame_new ''CONNECTED''" "[]" demo_timed bc_try_send "\<lambda>_. TickWake"]
  by (simp add: plain_broker_def credentials_of_def frame_new_def get_header_def demo_timed_def demo_task_def
      task_new_def as_millis_def)

text \<open>
  The handlers of the background task, as the code writes them, are runs of the transition system:
  a frame that is handled whole, a parked subscription that is drained, a session that begins take
  the system to the state the handler computes, by steps (one per critical section) between which
  the system lets any call of any clone of the handle happen.
\<close>

theorem handlers_are_runs:
  "(phase S = Running \<longrightarrow> memory_ok (tk S) \<longrightarrow> handle_frame ts wok now f (tk S) = Some (t, fl) \<longrightarrow>
      (\<exists>rec off. sys_runs ts tso tro rx wok mk S
         (S\<lparr>tk := t, phase := after_flow fl, recorded := rec, offered := off\<rparr>))) \<and>
   (phase S = Running \<longrightarrow> sid \<in> fst ` set (parked (tk S)) \<longrightarrow>
      sys_runs ts tso tro rx wok mk S (S\<lparr>tk := handle_parked ts sid (tk S)\<rparr>)) \<and>
   (phase S = Fresh \<or> phase S = Backoff \<longrightarrow>
      sys_runs ts tso tro rx wok mk S
        (S\<lparr>tk := begin_session wok now (phase S = Backoff) (tk S), phase := Running,
           offered := withdraw (tk S) (offered S)\<rparr>))"
  by (intro conjI impI) (rule frame_runs parked_runs session_runs; assumption)+

theorem handlers_are_runs_witness:
  "\<exists>t rec off. handle_frame bc_try_send all_written 0 (demo_message ''m1'') (tk demo_running) = Some (t, Continue) \<and>
     sys_runs bc_try_send bc_try_send bc_recv bc_rx all_written bc_new demo_running
       (demo_running\<lparr>tk := t, phase := Running, recorded := rec, offered := off\<rparr>)"
proof -
  have dr: "tk demo_running = demo_task" "phase demo_running = Running" by (simp_all add: demo_running_def)
  obtain t where t: "handle_frame bc_try_send all_written 0 (demo_message ''m1'') (tk demo_running) = Some (t, Continue)"
    using demo_delivered unfolding dr by blast
  have "\<exists>rec off. sys_runs bc_try_send bc_try_send bc_recv bc_rx all_written bc_new demo_running
      (demo_running\<lparr>tk := t, phase := after_flow Continue, recorded := rec, offered := off\<rparr>)"
    using handlers_are_runs [THEN conjunct1] demo_memory t dr(2) by blast
  with t show ?thesis by (auto simp: after_flow_def)
qed

end
